(* ===== verification/Prelude.thy ===== *)
theory Prelude
  imports Main "HOL-Library.Word" "HOL-Library.Monad_Syntax"
begin

unbundle bit_operations_syntax

text \<open>
  Shared ground of the development: C strings and bytes, the option monad in which \<open>None\<close>
  stands for undefined behaviour of the C source (a read outside an object, a shift by an
  amount out of range, a \<open>NULL\<close> dereference) or for a loop that does not stop, bounded
  array access, and the parameters that stand for the GLib functions the sources call.
  A C string is the list of its bytes without the terminating NUL.
\<close>

named_theorems cstr_simps \<open>rewriting of C string primitives\<close>
named_theorems arr_simps \<open>rewriting of bounded array accesses\<close>

type_synonym u32 = "32 word"
type_synonym addr = nat

section \<open>Bytes\<close>

abbreviation NUL :: char where
  "NUL \<equiv> CHR 0x00"

text \<open>A \<open>char\<close> read as \<open>unsigned char\<close>, and as the signed plain \<open>char\<close> of x86 and of most
  other targets.\<close>

definition uchar :: "char \<Rightarrow> nat" where
  "uchar c = of_char c"

definition schar :: "char \<Rightarrow> int" where
  "schar c = (if uchar c < 128 then int (uchar c) else int (uchar c) - 256)"

lemma uchar_less [simp]: "uchar c < 256"
  by (simp add: uchar_def)

lemma uchar_eq_iff: "uchar c = uchar d \<longleftrightarrow> c = d"
  by (simp add: uchar_def)

lemma char_of_uchar [simp]: "char_of (uchar c) = c"
  by (simp add: uchar_def)

lemma uchar_char_of: "n < 256 \<Longrightarrow> uchar (char_of n) = n"
  by (simp add: uchar_def of_char_of)

lemma uchar_NUL [simp]: "uchar NUL = 0"
  by (simp add: uchar_def)

lemma uchar_zero_iff [simp]: "uchar c = 0 \<longleftrightarrow> c = NUL"
  using uchar_eq_iff [of c NUL] by simp

definition ascii :: "string \<Rightarrow> bool" where
  "ascii s \<longleftrightarrow> list_all (\<lambda>c. uchar c < 128) s"

lemma ascii_simps [simp]:
  "ascii []" "ascii (c # s) \<longleftrightarrow> uchar c < 128 \<and> ascii s"
  by (simp_all add: ascii_def)

definition is_digit :: "char \<Rightarrow> bool" where
  "is_digit c \<longleftrightarrow> 48 \<le> uchar c \<and> uchar c \<le> 57"

section \<open>C strings\<close>

text \<open>\<open>*s\<close>: the first byte, the terminator for the empty string.\<close>

definition chd :: "string \<Rightarrow> char" where
  "chd s = (case s of [] \<Rightarrow> NUL | c # _ \<Rightarrow> c)"

lemma chd_simps [simp]: "chd [] = NUL" "chd (c # s) = c"
  by (simp_all add: chd_def)

text \<open>A string the C program can hold contains no NUL.\<close>

definition cstring :: "string \<Rightarrow> bool" where
  "cstring s \<longleftrightarrow> NUL \<notin> set s"

lemma cstring_simps [simp]:
  "cstring []" "cstring (c # s) \<longleftrightarrow> c \<noteq> NUL \<and> cstring s"
  "cstring (s @ t) \<longleftrightarrow> cstring s \<and> cstring t"
  by (auto simp: cstring_def)

text \<open>\<open>strchr (s, c) != NULL\<close>: the terminator counts as part of the string.\<close>

definition c_strchr :: "string \<Rightarrow> char \<Rightarrow> bool" where
  "c_strchr s c \<longleftrightarrow> c = NUL \<or> c \<in> set s"

text \<open>What \<open>strchr\<close> points at: the suffix that starts with the first occurrence.\<close>

definition c_strchr_at :: "string \<Rightarrow> char \<Rightarrow> string option" where
  "c_strchr_at s c =
     (case dropWhile (\<lambda>x. x \<noteq> c) s of [] \<Rightarrow> (if c = NUL then Some [] else None) | t \<Rightarrow> Some t)"

text \<open>Reading \<open>s[i]\<close>: the bytes, then the terminator, then undefined behaviour.\<close>

definition c_at :: "string \<Rightarrow> nat \<Rightarrow> char option" where
  "c_at s i = (if i < length s then Some (s ! i) else if i = length s then Some NUL else None)"

lemma c_at_simps [cstr_simps]:
  "i < length s \<Longrightarrow> c_at s i = Some (s ! i)"
  "c_at s (length s) = Some NUL"
  by (simp_all add: c_at_def)

text \<open>\<open>atoi\<close>: leading white space, a sign, decimal digits; the value is an \<open>int\<close> of 32 bits.\<close>

definition is_space :: "char \<Rightarrow> bool" where
  "is_space c \<longleftrightarrow> uchar c = 32 \<or> (9 \<le> uchar c \<and> uchar c \<le> 13)"

fun dec_value :: "int \<Rightarrow> string \<Rightarrow> int" where
  "dec_value acc [] = acc"
| "dec_value acc (c # s) = (if is_digit c then dec_value (10 * acc + int (uchar c - 48)) s else acc)"

definition c_number :: "string \<Rightarrow> int" where
  "c_number s =
     (let t = dropWhile is_space s
      in if chd t = CHR ''-'' then - dec_value 0 (tl t)
         else if chd t = CHR ''+'' then dec_value 0 (tl t)
         else dec_value 0 t)"

definition c_atoi :: "string \<Rightarrow> int" where
  "c_atoi s = sint (word_of_int (c_number s) :: 32 word)"

text \<open>\<open>g_ascii_strtoll\<close> in base 10 saturates at the bounds of \<open>gint64\<close>.\<close>

definition g_ascii_strtoll :: "string \<Rightarrow> int" where
  "g_ascii_strtoll s = max (- (2 ^ 63)) (min (2 ^ 63 - 1) (c_number s))"

text \<open>\<open>%u\<close> and \<open>%d\<close> of \<open>printf\<close>.\<close>

fun dec_string :: "nat \<Rightarrow> string" where
  "dec_string n = (if n < 10 then [char_of (48 + n)] else dec_string (n div 10) @ [char_of (48 + n mod 10)])"

declare dec_string.simps [simp del]

definition int_string :: "int \<Rightarrow> string" where
  "int_string n = (if n < 0 then CHR ''-'' # dec_string (nat (- n)) else dec_string (nat n))"

lemma is_digit_char_of: "n < 10 \<Longrightarrow> is_digit (char_of (48 + n)) \<and> uchar (char_of (48 + n)) = 48 + n"
  by (simp add: is_digit_def uchar_char_of)

lemma dec_string_digits: "list_all is_digit (dec_string n) \<and> dec_string n \<noteq> []"
  by (induction n rule: dec_string.induct) (subst (1 2) dec_string.simps, simp add: is_digit_char_of)

lemma dec_value_append: "list_all is_digit ds \<Longrightarrow> dec_value acc (ds @ s) = dec_value (dec_value acc ds) s"
  by (induction ds arbitrary: acc) auto

lemma dec_value_dec_string: "dec_value 0 (dec_string n) = int n"
proof (induction n rule: dec_string.induct)
  case (1 n)
  show ?case
  proof (cases "n < 10")
    case True
    then show ?thesis by (subst dec_string.simps) (simp add: is_digit_char_of)
  next
    case False
    have "dec_value 0 (dec_string n) = 10 * int (n div 10) + int (n mod 10)"
      using False 1 dec_string_digits [of "n div 10"]
      by (subst dec_string.simps) (simp add: dec_value_append is_digit_char_of)
    also have "\<dots> = int n" unfolding of_nat_div of_nat_mod by simp
    finally show ?thesis .
  qed
qed

lemma c_number_dec_string: "c_number (dec_string n) = int n"
proof -
  obtain c s where cs: "dec_string n = c # s" "is_digit c" using dec_string_digits [of n] by (cases "dec_string n") auto
  then have "\<not> is_space c" "c \<noteq> CHR ''-''" "c \<noteq> CHR ''+''" by (auto simp: is_digit_def is_space_def uchar_def)
  with cs have "c_number (dec_string n) = dec_value 0 (dec_string n)" by (simp add: c_number_def)
  then show ?thesis by (simp add: dec_value_dec_string)
qed

lemma dec_string_length: "n < 10 ^ k \<Longrightarrow> 0 < k \<Longrightarrow> length (dec_string n) \<le> k"
proof (induction n arbitrary: k rule: dec_string.induct)
  case (1 n)
  show ?case
  proof (cases "n < 10")
    case True
    then show ?thesis using "1.prems"(2) by (subst dec_string.simps) simp
  next
    case False
    then obtain j where j: "k = Suc j" "0 < j" using "1.prems" by (cases k; cases "k - 1") auto
    then have "n div 10 < 10 ^ j" using "1.prems"(1) by (simp add: div_less_iff_less_mult mult.commute)
    with "1.IH" [OF False this j(2)] False j show ?thesis by (subst dec_string.simps) simp
  qed
qed

lemma dec_string_u32: "length (dec_string (unat (t :: u32))) \<le> 10"
proof -
  have "unat t < 2 ^ 32" using unsigned_less [of t] by simp
  then show ?thesis by (intro dec_string_length) auto
qed

text \<open>Lower case of ASCII letters.\<close>

definition ascii_lower :: "char \<Rightarrow> char" where
  "ascii_lower c = (if 65 \<le> uchar c \<and> uchar c \<le> 90 then char_of (uchar c + 32) else c)"

text \<open>What is documented of \<open>g_ascii_strncasecmp\<close>: it is 0 exactly when the first \<open>n\<close> bytes agree up to the
  case of ASCII letters.\<close>

definition ncmp_ok :: "(string \<Rightarrow> string \<Rightarrow> nat \<Rightarrow> int) \<Rightarrow> bool" where
  "ncmp_ok ncmp \<longleftrightarrow> (\<forall>a b n. ncmp a b n = 0 \<longleftrightarrow> map ascii_lower (take n a) = map ascii_lower (take n b))"

text \<open>The C string at the start of a buffer of bytes.\<close>

definition c_str :: "string \<Rightarrow> string" where
  "c_str b = takeWhile (\<lambda>c. c \<noteq> NUL) b"

lemma c_str_cstring [simp]: "cstring s \<Longrightarrow> c_str s = s"
  by (auto simp: c_str_def cstring_def takeWhile_eq_all_conv)

section \<open>Undefined behaviour as \<open>None\<close>\<close>

definition guard :: "bool \<Rightarrow> unit option" where
  "guard b = (if b then Some () else None)"

lemma guard_bind [simp]:
  "Option.bind (guard b) f = (if b then f () else None)"
  by (simp add: guard_def)

text \<open>\<open>1 << i\<close> on a 32-bit \<open>int\<close> used as a bit mask: defined for the bit numbers 0 to 31.\<close>

definition bitval :: "nat \<Rightarrow> u32" where
  "bitval i = push_bit i 1"

definition bit_mask :: "int \<Rightarrow> u32 option" where
  "bit_mask i = (if 0 \<le> i \<and> i < 32 then Some (bitval (nat i)) else None)"

definition test_bit :: "u32 \<Rightarrow> nat \<Rightarrow> bool" where
  "test_bit w i \<longleftrightarrow> w AND bitval i \<noteq> 0"

lemma test_bit_iff: "test_bit w i \<longleftrightarrow> bit w i"
  by (simp add: test_bit_def bitval_def bit_iff_and_push_bit_not_eq_0)

lemma bit_bitval: "i < 32 \<Longrightarrow> bit (bitval i) j \<longleftrightarrow> j = i"
  by (auto simp: bitval_def bit_simps)

section \<open>Arrays of pointers\<close>

text \<open>An allocated array is a list of slots; a slot never written holds \<open>None\<close>. Reading outside
  the allocation or reading an unwritten slot is undefined.\<close>

definition arr_get :: "'a option list \<Rightarrow> nat \<Rightarrow> 'a option" where
  "arr_get a i = (if i < length a then a ! i else None)"

definition arr_set :: "'a option list \<Rightarrow> nat \<Rightarrow> 'a \<Rightarrow> 'a option list option" where
  "arr_set a i v = (if i < length a then Some (a[i := Some v]) else None)"

text \<open>\<open>memmove (&a[dst], &a[src], n * sizeof (void *))\<close>.\<close>

definition arr_move :: "'a option list \<Rightarrow> nat \<Rightarrow> nat \<Rightarrow> nat \<Rightarrow> 'a option list option" where
  "arr_move a dst src n =
     (if dst + n \<le> length a \<and> src + n \<le> length a
      then Some (take dst a @ take n (drop src a) @ drop (dst + n) a) else None)"

lemma arr_get_map [arr_simps]:
  "i < length xs \<Longrightarrow> arr_get (map Some xs @ r) i = Some (xs ! i)"
  by (simp add: arr_get_def nth_append)

section \<open>Lists\<close>

lemma strict_sorted_wrt_nth_less:
  assumes "sorted_wrt R xs" "i < j" "j < length xs"
  shows "R (xs ! i) (xs ! j)"
  using assms by (simp add: sorted_wrt_iff_nth_less)

lemma dropWhile_length_le: "length (dropWhile P xs) \<le> length xs"
  by (induction xs) auto

text \<open>\<open>g_ascii_strcasecmp\<close>: equality up to the case of ASCII letters.\<close>

definition acmp_ok :: "(string \<Rightarrow> string \<Rightarrow> int) \<Rightarrow> bool" where
  "acmp_ok acmp \<longleftrightarrow> (\<forall>a b. acmp a b = 0 \<longleftrightarrow> map ascii_lower a = map ascii_lower b)"

text \<open>A function that meets this contract, for concrete examples.\<close>

definition demo_acmp :: "string \<Rightarrow> string \<Rightarrow> int" where
  "demo_acmp a b = (if map ascii_lower a = map ascii_lower b then 0 else 1)"

section \<open>Hash tables\<close>

text \<open>What the users of a \<open>GHashTable\<close> with string keys rely on: lookups after \<open>g_hash_table_insert\<close> and
  \<open>g_hash_table_remove\<close>.\<close>

locale string_table =
  fixes lookup :: "'t \<Rightarrow> string \<Rightarrow> 'v option" and insert :: "string \<Rightarrow> 'v \<Rightarrow> 't \<Rightarrow> 't" and remove :: "string \<Rightarrow> 't \<Rightarrow> 't"
  assumes lookup_insert: "lookup (insert k v t) k' = (if k' = k then Some v else lookup t k')"
    and lookup_remove: "lookup (remove k t) k' = (if k' = k then None else lookup t k')"
begin

lemma lookup_insert_remove: "lookup t k = None \<Longrightarrow> lookup (remove k (insert k v t)) = lookup t"
  by (rule ext) (simp add: lookup_insert lookup_remove)

lemma lookup_fold_remove: "lookup (fold remove ks t) k' = (if k' \<in> set ks then None else lookup t k')"
  by (induction ks arbitrary: t) (simp_all add: lookup_remove)

lemma lookup_overwrite: "lookup (insert k v (insert k w t)) = lookup (insert k v t)"
  by (rule ext) (simp add: lookup_insert)

end

text \<open>The tables of the model: association lists.\<close>

definition ht_remove :: "string \<Rightarrow> (string \<times> 'v) list \<Rightarrow> (string \<times> 'v) list" where
  "ht_remove k t = filter (\<lambda>(k', v). k' \<noteq> k) t"

definition ht_insert :: "string \<Rightarrow> 'v \<Rightarrow> (string \<times> 'v) list \<Rightarrow> (string \<times> 'v) list" where
  "ht_insert k v t = (k, v) # ht_remove k t"

lemma map_of_ht_remove: "map_of (ht_remove k t) k' = (if k' = k then None else map_of t k')"
  by (induction t) (auto simp: ht_remove_def)

interpretation ht: string_table map_of ht_insert ht_remove
  by unfold_locales (simp_all add: ht_insert_def map_of_ht_remove)

end
