(* ===== verification/History.thy ===== *)
theory History
  imports Prelude
begin

text \<open>
  The input-line history of a session, \<open>src/src/common/history.c\<close>: a ring of
  \<open>HISTORY_SIZE\<close> lines with a write position \<open>realpos\<close> and a read position \<open>pos\<close>.
  A \<open>NULL\<close> line is \<open>None\<close>. \<open>history_up\<close> is in the option monad because its last
  comparison dereferences \<open>lines[pos]\<close> after testing \<open>lines[realpos]\<close> only.
\<close>

definition HISTORY_SIZE :: nat where
  "HISTORY_SIZE = 100"

record history =
  lines :: "string option list"
  pos :: nat
  realpos :: nat

definition history_new :: history where
  "history_new = \<lparr>lines = replicate HISTORY_SIZE None, pos = 0, realpos = 0\<rparr>"

definition history_add :: "history \<Rightarrow> string \<Rightarrow> history" where
  "history_add his text =
     (let rp = realpos his + 1;
          rp' = (if rp = HISTORY_SIZE then 0 else rp)
      in his\<lparr>lines := (lines his)[realpos his := Some text], realpos := rp', pos := rp'\<rparr>)"

definition history_free :: "history \<Rightarrow> history" where
  "history_free his = his\<lparr>lines := map (\<lambda>_. None) (lines his)\<rparr>"

text \<open>The value returned is the line shown in the input box; \<open>None\<close> is the \<open>NULL\<close> result.\<close>

definition history_down :: "history \<Rightarrow> string option \<times> history" where
  "history_down his =
     (if pos his = realpos his then (None, his)
      else if realpos his = 0 \<and> pos his = HISTORY_SIZE - 1 then (Some [], his\<lparr>pos := 0\<rparr>)
      else if realpos his \<noteq> 0 \<and> pos his = realpos his - 1 then (Some [], his\<lparr>pos := pos his + 1\<rparr>)
      else
        (let nxt = (if pos his < HISTORY_SIZE - 1 then pos his + 1 else 0)
         in case lines his ! nxt of
              Some l \<Rightarrow> (Some l, his\<lparr>pos := nxt\<rparr>)
            | None \<Rightarrow> (None, his)))"

text \<open>\<open>!a || strcmp (cur, b)\<close> on possibly \<open>NULL\<close> lines: \<open>strcmp\<close> with \<open>NULL\<close> is undefined.\<close>

definition null_or_differs :: "string option \<Rightarrow> string option \<Rightarrow> string \<Rightarrow> bool option" where
  "null_or_differs a b cur =
     (case a of None \<Rightarrow> Some True | Some _ \<Rightarrow> map_option (\<lambda>l. cur \<noteq> l) b)"

definition history_up :: "history \<Rightarrow> string \<Rightarrow> (string option \<times> history) option" where
  "history_up his cur =
     (if (if realpos his = HISTORY_SIZE - 1 then pos his = 0 else pos his = realpos his + 1)
      then Some (None, his)
      else
        (let nxt = (if pos his \<noteq> 0 then pos his - 1 else HISTORY_SIZE - 1)
         in case lines his ! nxt of
              None \<Rightarrow> Some (None, his)
            | Some l \<Rightarrow>
                do {
                  keep \<leftarrow> (if cur \<noteq> [] \<and> cur \<noteq> l
                           then do {
                             b1 \<leftarrow> null_or_differs (lines his ! pos his) (lines his ! pos his) cur;
                             (if b1 then null_or_differs (lines his ! realpos his) (lines his ! pos his) cur
                              else Some False)
                           }
                           else Some False);
                  let his' = (if keep then history_add his cur else his);
                  Some (lines his' ! nxt, his'\<lparr>pos := nxt\<rparr>)
                }))"

section \<open>Invariant\<close>

text \<open>The ring fills from slot 0: before the first wrap exactly the slots below \<open>realpos\<close>
  hold a line, afterwards all of them do. Both positions are slots, and \<open>pos\<close> points at a
  line or at the write position.\<close>

definition history_inv :: "history \<Rightarrow> bool" where
  "history_inv his \<longleftrightarrow>
     length (lines his) = HISTORY_SIZE \<and> realpos his < HISTORY_SIZE \<and> pos his < HISTORY_SIZE \<and>
     ((\<forall>i < HISTORY_SIZE. lines his ! i \<noteq> None) \<or>
      (\<forall>i < HISTORY_SIZE. (lines his ! i \<noteq> None) = (i < realpos his)) \<and> pos his \<le> realpos his)"

lemma history_inv_new: "history_inv history_new"
  by (simp add: history_inv_def history_new_def HISTORY_SIZE_def)

lemma history_inv_add:
  assumes "history_inv his"
  shows "history_inv (history_add his text)"
proof -
  have "lines (history_add his text) ! i \<noteq> None \<longleftrightarrow> i = realpos his \<or> lines his ! i \<noteq> None"
    if "i < HISTORY_SIZE" for i
    using that assms by (auto simp: history_add_def history_inv_def Let_def nth_list_update)
  then show ?thesis
    using assms unfolding history_inv_def
    by (auto simp: history_add_def Let_def HISTORY_SIZE_def less_Suc_eq)
qed

lemma history_inv_down:
  assumes "history_inv his"
  shows "history_inv (snd (history_down his))"
  using assms
  by (auto simp: history_down_def history_inv_def Let_def HISTORY_SIZE_def split: option.splits)

section \<open>Refinement: the lines from newest to oldest\<close>

text \<open>The slot \<open>d\<close> steps before the write position, the number of lines that \<open>history_up\<close>
  can reach (all of them before the first wrap, all but the oldest afterwards) and those lines,
  newest first.\<close>

definition hslot :: "history \<Rightarrow> nat \<Rightarrow> nat" where
  "hslot his d = (if d \<le> realpos his then realpos his - d else realpos his + HISTORY_SIZE - d)"

definition hist_count :: "history \<Rightarrow> nat" where
  "hist_count his = (if lines his ! realpos his \<noteq> None then HISTORY_SIZE - 1 else realpos his)"

definition hist_abs :: "history \<Rightarrow> string list" where
  "hist_abs his = map (\<lambda>k. the (lines his ! hslot his (Suc k))) [0..<hist_count his]"

lemma history_slot_filled:
  assumes "history_inv his" "i < HISTORY_SIZE"
  shows "lines his ! i = None \<longleftrightarrow> lines his ! realpos his = None \<and> realpos his \<le> i"
proof -
  have rp: "realpos his < HISTORY_SIZE" using assms by (simp add: history_inv_def)
  consider "\<forall>i < HISTORY_SIZE. lines his ! i \<noteq> None"
    | "\<forall>i < HISTORY_SIZE. (lines his ! i \<noteq> None) = (i < realpos his)"
    using assms by (auto simp: history_inv_def)
  then show ?thesis
  proof cases
    case 1
    with rp assms(2) show ?thesis by blast
  next
    case 2
    from 2 [rule_format, OF rp] 2 [rule_format, OF assms(2)] show ?thesis by auto
  qed
qed

lemma hist_count_le: "history_inv his \<Longrightarrow> hist_count his \<le> HISTORY_SIZE - 1"
  by (auto simp: hist_count_def history_inv_def HISTORY_SIZE_def)

lemma hist_abs_length [simp]: "length (hist_abs his) = hist_count his"
  by (simp add: hist_abs_def)

lemma hslot_line:
  assumes "history_inv his" "k < hist_count his"
  shows "lines his ! hslot his (Suc k) = Some (hist_abs his ! k)"
proof -
  have "lines his ! hslot his (Suc k) \<noteq> None"
    using assms by (auto simp: history_inv_def hist_count_def hslot_def HISTORY_SIZE_def split: if_splits)
  then show ?thesis
    using assms(2) by (simp add: hist_abs_def)
qed

lemma hist_count_add:
  assumes "history_inv his"
  shows "hist_count (history_add his t) = min (HISTORY_SIZE - 1) (Suc (hist_count his))"
proof -
  have "realpos his < 99 \<Longrightarrow> lines his ! Suc (realpos his) \<noteq> None \<longleftrightarrow> lines his ! realpos his \<noteq> None"
    "realpos his = 99 \<Longrightarrow> lines his ! 0 \<noteq> None"
    using history_slot_filled [OF assms, of "Suc (realpos his)"] history_slot_filled [OF assms, of 0]
    by (auto simp: HISTORY_SIZE_def)
  moreover have "realpos his < 99 \<or> realpos his = 99" "length (lines his) = 100"
    using assms by (auto simp: history_inv_def HISTORY_SIZE_def)
  ultimately show ?thesis
    by (auto simp: hist_count_def history_add_def Let_def HISTORY_SIZE_def nth_list_update)
qed

lemma add_slot_line:
  assumes "history_inv his" "k < HISTORY_SIZE - 1"
  shows "lines (history_add his t) ! hslot (history_add his t) (Suc k) =
           (if k = 0 then Some t else lines his ! hslot his k)"
  using assms
  by (auto simp: history_inv_def history_add_def hslot_def Let_def HISTORY_SIZE_def nth_list_update
      add.commute)

lemma hist_abs_add:
  assumes "history_inv his"
  shows "hist_abs (history_add his t) = take (HISTORY_SIZE - 1) (t # hist_abs his)"
proof (rule nth_equalityI)
  show "length (hist_abs (history_add his t)) = length (take (HISTORY_SIZE - 1) (t # hist_abs his))"
    using assms by (simp add: hist_count_add)
next
  fix k assume "k < length (hist_abs (history_add his t))"
  then have k: "k < HISTORY_SIZE - 1" "k < Suc (hist_count his)"
    using assms by (simp_all add: hist_count_add)
  have "hist_abs (history_add his t) ! k = the (lines (history_add his t) ! hslot (history_add his t) (Suc k))"
    using k assms by (simp add: hist_abs_def hist_count_add)
  also have "\<dots> = (t # hist_abs his) ! k"
    using add_slot_line [OF assms k(1), of t] k(2) hslot_line [OF assms, of "k - 1"]
    by (cases k) auto
  finally show "hist_abs (history_add his t) ! k = take (HISTORY_SIZE - 1) (t # hist_abs his) ! k"
    using k by simp
qed

lemma history_up_total:
  assumes "history_inv his"
  shows "\<exists>l his'. history_up his cur = Some (l, his') \<and> history_inv his' \<and>
     (l \<noteq> None \<longrightarrow> l = lines his ! pos his') \<and> (l = None \<longrightarrow> his' = his)"
proof -
  define nxt where "nxt = (if pos his \<noteq> 0 then pos his - 1 else HISTORY_SIZE - 1)"
  show ?thesis
  proof (cases "(if realpos his = HISTORY_SIZE - 1 then pos his = 0 else pos his = realpos his + 1)
                \<or> lines his ! nxt = None")
    case True
    then show ?thesis
      using assms by (auto simp: history_up_def nxt_def Let_def)
  next
    case False
    then obtain l where l: "lines his ! nxt = Some l" by auto
    have nr: "nxt \<noteq> realpos his" "nxt < HISTORY_SIZE"
      using False assms by (auto simp: nxt_def history_inv_def HISTORY_SIZE_def split: if_splits)
    have safe: "lines his ! realpos his \<noteq> None \<Longrightarrow> lines his ! pos his \<noteq> None"
      using assms by (auto simp: history_inv_def)
    have keep: "history_inv (h\<lparr>pos := nxt\<rparr>)" if "history_inv h" "lines h ! nxt \<noteq> None" for h
      using that nr by (auto simp: history_inv_def)
    let ?h = "history_add his cur"
    have add: "lines ?h ! nxt = Some l"
      using nr l assms by (simp add: history_add_def Let_def)
    have "\<exists>b. history_up his cur =
            Some (Some l, (if b then ?h else his)\<lparr>pos := nxt\<rparr>)"
      using False l safe add
      by (auto simp: history_up_def nxt_def Let_def null_or_differs_def split: option.splits if_splits)
    then show ?thesis
      using keep [OF assms] keep [OF history_inv_add [OF assms], of cur] l add by auto
  qed
qed

lemma history_up_abs:
  assumes inv: "history_inv his" and d: "d \<le> hist_count his" and p: "pos his = hslot his d"
    and cur: "cur = [] \<or> 0 < d \<and> cur = hist_abs his ! (d - 1)"
  shows "history_up his cur =
     Some (if d < hist_count his then (Some (hist_abs his ! d), his\<lparr>pos := hslot his (Suc d)\<rparr>)
           else (None, his))"
proof -
  have prev: "(if pos his \<noteq> 0 then pos his - 1 else HISTORY_SIZE - 1) = hslot his (Suc d)"
    using inv p d hist_count_le [OF inv] by (auto simp: hslot_def history_inv_def HISTORY_SIZE_def)
  have stop: "(if realpos his = HISTORY_SIZE - 1 then pos his = 0 else pos his = realpos his + 1)
      \<longleftrightarrow> d = HISTORY_SIZE - 1"
    using inv p d hist_count_le [OF inv] by (auto simp: hslot_def history_inv_def HISTORY_SIZE_def)
  have shown: "0 < d \<Longrightarrow> lines his ! pos his = Some (hist_abs his ! (d - 1))"
    using hslot_line [OF inv, of "d - 1"] d p by simp
  show ?thesis
  proof (cases "d < hist_count his")
    case True
    then have "d \<noteq> HISTORY_SIZE - 1" using hist_count_le [OF inv] by simp
    with True cur shown show ?thesis
      unfolding history_up_def stop prev Let_def hslot_line [OF inv True]
      by (auto simp: null_or_differs_def Let_def hslot_line [OF inv True])
  next
    case False
    have "d = HISTORY_SIZE - 1 \<or> lines his ! hslot his (Suc d) = None"
      using False d history_slot_filled [OF inv, of 99] inv
      by (auto simp: hist_count_def hslot_def history_inv_def HISTORY_SIZE_def split: if_splits)
    with False show ?thesis
      unfolding history_up_def stop prev Let_def by auto
  qed
qed

lemma history_down_abs:
  assumes inv: "history_inv his" and d: "d \<le> hist_count his" and p: "pos his = hslot his d"
  shows "history_down his =
     (if d = 0 then (None, his)
      else if d = 1 then (Some [], his\<lparr>pos := hslot his 0\<rparr>)
      else (Some (hist_abs his ! (d - 2)), his\<lparr>pos := hslot his (d - 1)\<rparr>))"
proof -
  have le: "d \<le> HISTORY_SIZE - 1" using d hist_count_le [OF inv] by simp
  consider "d = 0" | "d = 1" | "2 \<le> d" by linarith
  then show ?thesis
  proof cases
    case 1
    then show ?thesis using p by (simp add: history_down_def hslot_def)
  next
    case 2
    then show ?thesis
      using p inv by (auto simp: history_down_def hslot_def history_inv_def HISTORY_SIZE_def)
  next
    case 3
    have nxt: "(if pos his < HISTORY_SIZE - 1 then pos his + 1 else 0) = hslot his (d - 1)"
      using inv p 3 le by (auto simp: hslot_def history_inv_def HISTORY_SIZE_def)
    have "pos his \<noteq> realpos his" "\<not> (realpos his = 0 \<and> pos his = HISTORY_SIZE - 1)"
      "\<not> (realpos his \<noteq> 0 \<and> pos his = realpos his - 1)"
      using inv p 3 le by (auto simp: hslot_def history_inv_def HISTORY_SIZE_def)
    moreover have "lines his ! hslot his (d - 1) = Some (hist_abs his ! (d - 2))"
      using hslot_line [OF inv, of "d - 2"] 3 d by (simp add: numeral_2_eq_2 Suc_diff_Suc)
    ultimately show ?thesis
      unfolding history_down_def nxt Let_def using 3 by (simp only: if_False option.case) simp
  qed
qed

section \<open>Properties\<close>

lemma hist_abs_new: "hist_abs history_new = []"
  by (simp add: hist_abs_def hist_count_def history_new_def HISTORY_SIZE_def)

lemma history_add_pos: "history_inv his \<Longrightarrow> pos (history_add his t) = hslot (history_add his t) 0"
  by (simp add: history_add_def hslot_def Let_def)

lemma history_inv_fold: "history_inv his \<Longrightarrow> history_inv (fold (\<lambda>t h. history_add h t) ts his)"
  by (induction ts arbitrary: his) (auto intro: history_inv_add)

lemma hist_abs_fold:
  "history_inv his \<Longrightarrow> hist_abs (fold (\<lambda>t h. history_add h t) ts his) =
     take (HISTORY_SIZE - 1) (rev ts @ hist_abs his)"
proof (induction ts arbitrary: his)
  case Nil
  then show ?case using hist_count_le [of his] by simp
next
  case (Cons t ts)
  then show ?case
    using hist_abs_add [OF Cons.prems, of t] by (simp add: history_inv_add min_def take_append)
qed


text \<open>Browsing is a cursor on that list. At depth \<open>d\<close> (0 is the edit line) \<open>history_up\<close> shows the next
  older line and moves to \<open>d + 1\<close>, and returns \<open>NULL\<close> at the oldest; \<open>history_down\<close> after it brings the
  ring back to where it was and shows the line of depth \<open>d\<close> again, the empty string at depth 0.\<close>

theorem history_up_then_down:
  assumes "history_inv his" "d < hist_count his" "pos his = hslot his d"
    and "cur = [] \<or> 0 < d \<and> cur = hist_abs his ! (d - 1)"
  shows "\<exists>his'. history_up his cur = Some (Some (hist_abs his ! d), his') \<and>
     history_down his' = (Some (if d = 0 then [] else hist_abs his ! (d - 1)), his)"
proof -
  let ?h = "his\<lparr>pos := hslot his (Suc d)\<rparr>"
  have up: "history_up his cur = Some (Some (hist_abs his ! d), ?h)"
    using history_up_abs [OF assms(1) _ assms(3,4)] assms(2) by simp
  have slot: "hslot (his\<lparr>pos := q\<rparr>) k = hslot his k" for q k by (simp add: hslot_def)
  have eq: "hist_count ?h = hist_count his" "hist_abs ?h = hist_abs his"
    by (simp_all add: hist_count_def hist_abs_def slot)
  have inv: "history_inv ?h"
    using history_up_total [OF assms(1), of cur] up by auto
  have "history_down ?h = (Some (if d = 0 then [] else hist_abs his ! (d - 1)), his)"
    using history_down_abs [OF inv, of "Suc d"] assms(2,3) by (auto simp: eq slot)
  with up show ?thesis by blast
qed

theorem history_up_then_down_witness:
  "\<exists>his'. history_up (history_add history_new ''hi'') [] = Some (Some ''hi'', his') \<and>
     history_down his' = (Some [], history_add history_new ''hi'')"
proof -
  let ?h = "history_add history_new ''hi''"
  have a: "hist_abs ?h = [''hi'']"
    using hist_abs_add [OF history_inv_new, of "''hi''"]
    by (simp add: hist_abs_new HISTORY_SIZE_def)
  then have "0 < hist_count ?h" using hist_abs_length [of ?h] by simp
  from history_up_then_down [OF history_inv_add [OF history_inv_new] this history_add_pos [OF history_inv_new], of "[]"] a
  show ?thesis by simp
qed

end
