(* ===== verification/Usertree.thy ===== *)
theory Usertree
  imports Prelude
begin

text \<open>
  The sorted array behind every channel's user list, \<open>src/src/common/tree.c\<close>. The array of
  \<open>void *\<close> grows by \<open>ARRAY_GROW\<close> slots; the comparison callback and its \<open>data\<close> argument are the
  one function \<open>cmp\<close>, which may itself be undefined (it dereferences what the pointers point
  at). The insertion search is the \<open>while (1)\<close> loop of the source, so it is a
  \<open>partial_function\<close>: \<open>None\<close> is undefined behaviour or a loop that never ends, and the lemmas show
  that neither happens on a sorted array.
\<close>

definition ARRAY_GROW :: nat where
  "ARRAY_GROW = 32"

record 'a tree =
  elements :: nat
  array :: "'a option list"

definition tree_new :: "'a tree" where
  "tree_new = \<lparr>elements = 0, array = []\<rparr>"

partial_function (option) insertion_loop ::
  "('k \<Rightarrow> 'a \<Rightarrow> int option) \<Rightarrow> 'a option list \<Rightarrow> 'k \<Rightarrow> nat \<Rightarrow> nat \<Rightarrow> int option" where
  "insertion_loop cmp a key l u =
     (let idx = (l + u) div 2
      in do {
        x \<leftarrow> arr_get a idx;
        c \<leftarrow> cmp key x;
        if c < 0 then insertion_loop cmp a key l idx
        else if 0 < c then do {
          y \<leftarrow> arr_get a (idx + 1);
          c' \<leftarrow> cmp key y;
          if c' < 0 then Some (int (idx + 1)) else insertion_loop cmp a key (idx + 1) u
        }
        else Some (-1)
      })"

text \<open>The result is the position, the \<open>done\<close> flag and the tree.\<close>

definition tree_find_insertion_pos ::
  "('a \<Rightarrow> 'a \<Rightarrow> int option) \<Rightarrow> 'a tree \<Rightarrow> 'a \<Rightarrow> (int \<times> bool \<times> 'a tree) option" where
  "tree_find_insertion_pos cmp t key =
     (if elements t < 1 then do {
        a \<leftarrow> arr_set (array t) 0 key;
        Some (0, True, \<lparr>elements = 1, array = a\<rparr>)
      }
      else if elements t < 2 then do {
        x \<leftarrow> arr_get (array t) 0;
        c \<leftarrow> cmp key x;
        if c = 0 then Some (-1, True, t)
        else if 0 < c then do {
          a \<leftarrow> arr_set (array t) 1 key;
          Some (1, True, \<lparr>elements = 2, array = a\<rparr>)
        }
        else do {
          a \<leftarrow> arr_set (array t) 1 x;
          a' \<leftarrow> arr_set a 0 key;
          Some (0, True, \<lparr>elements = 2, array = a'\<rparr>)
        }
      }
      else do {
        x \<leftarrow> arr_get (array t) 0;
        c \<leftarrow> cmp key x;
        if c < 0 then Some (0, False, t)
        else do {
          y \<leftarrow> arr_get (array t) (elements t - 1);
          c' \<leftarrow> cmp key y;
          if 0 < c' then Some (int (elements t), False, t)
          else do {
            p \<leftarrow> insertion_loop cmp (array t) key 0 (elements t - 1);
            Some (p, False, t)
          }
        }
      })"

definition tree_insert_at_pos :: "'a tree \<Rightarrow> 'a \<Rightarrow> nat \<Rightarrow> 'a tree option" where
  "tree_insert_at_pos t key pos =
     do {
       a \<leftarrow> (if pos \<noteq> elements t then arr_move (array t) (pos + 1) pos (elements t - pos)
             else Some (array t));
       a' \<leftarrow> arr_set a pos key;
       Some \<lparr>elements = elements t + 1, array = a'\<rparr>
     }"

text \<open>The result is \<open>NULL\<close> (\<open>Some None\<close>) or the element and its position.\<close>

function mybsearch ::
  "('k \<Rightarrow> 'a \<Rightarrow> int option) \<Rightarrow> 'a option list \<Rightarrow> 'k \<Rightarrow> nat \<Rightarrow> nat \<Rightarrow> ('a \<times> nat) option option" where
  "mybsearch cmp a key l u =
     (if l < u then
        (let idx = (l + u) div 2
         in do {
           x \<leftarrow> arr_get a idx;
           c \<leftarrow> cmp key x;
           if c < 0 then mybsearch cmp a key l idx
           else if 0 < c then mybsearch cmp a key (idx + 1) u
           else Some (Some (x, idx))
         })
      else Some None)"
  by pat_completeness auto
termination
  by (relation "measure (\<lambda>(cmp, a, key, l, u). u - l)") auto

declare mybsearch.simps [simp del]

definition tree_find ::
  "('k \<Rightarrow> 'a \<Rightarrow> int option) \<Rightarrow> 'a tree \<Rightarrow> 'k \<Rightarrow> ('a \<times> nat) option option" where
  "tree_find cmp t key =
     (if array t = [] then Some None else mybsearch cmp (array t) key 0 (elements t))"

definition tree_remove_at_pos :: "'a tree \<Rightarrow> nat \<Rightarrow> ('a \<times> 'a tree) option" where
  "tree_remove_at_pos t pos =
     do {
       ret \<leftarrow> arr_get (array t) pos;
       let n = elements t - 1;
       a \<leftarrow> (if pos \<noteq> n then arr_move (array t) pos (pos + 1) (n - pos) else Some (array t));
       Some (ret, \<lparr>elements = n, array = a\<rparr>)
     }"

definition tree_remove ::
  "('a \<Rightarrow> 'a \<Rightarrow> int option) \<Rightarrow> 'a tree \<Rightarrow> 'a \<Rightarrow> (bool \<times> 'a tree) option" where
  "tree_remove cmp t key =
     do {
       r \<leftarrow> tree_find cmp t key;
       case r of
         None \<Rightarrow> Some (False, t)
       | Some (_, pos) \<Rightarrow> do {
           (_, t') \<leftarrow> tree_remove_at_pos t pos;
           Some (True, t')
         }
     }"

text \<open>\<open>tree_foreach\<close> stops when the callback returns 0; the callback threads the state \<open>'s\<close>.\<close>

fun foreach_from :: "('a \<Rightarrow> 's \<Rightarrow> bool \<times> 's) \<Rightarrow> 'a option list \<Rightarrow> 's \<Rightarrow> 's option" where
  "foreach_from f [] s = Some s"
| "foreach_from f (None # xs) s = None"
| "foreach_from f (Some x # xs) s = (case f x s of (go, s') \<Rightarrow> if go then foreach_from f xs s' else Some s')"

definition tree_foreach :: "('a \<Rightarrow> 's \<Rightarrow> bool \<times> 's) \<Rightarrow> 'a tree \<Rightarrow> 's \<Rightarrow> 's option" where
  "tree_foreach f t s =
     (if array t = [] then Some s else foreach_from f (take (elements t) (array t)) s)"

definition tree_grow :: "'a tree \<Rightarrow> 'a tree" where
  "tree_grow t =
     (if length (array t) < elements t + 1
      then t\<lparr>array := array t @ replicate ARRAY_GROW None\<rparr> else t)"

definition tree_insert ::
  "('a \<Rightarrow> 'a \<Rightarrow> int option) \<Rightarrow> 'a tree \<Rightarrow> 'a \<Rightarrow> (int \<times> 'a tree) option" where
  "tree_insert cmp t key =
     do {
       (pos, dn, t1) \<leftarrow> tree_find_insertion_pos cmp (tree_grow t) key;
       if \<not> dn \<and> pos \<noteq> -1 then do {
         t2 \<leftarrow> tree_insert_at_pos t1 key (nat pos);
         Some (pos, t2)
       }
       else Some (pos, t1)
     }"

definition tree_append :: "'a tree \<Rightarrow> 'a \<Rightarrow> 'a tree option" where
  "tree_append t key = (let t1 = tree_grow t in tree_insert_at_pos t1 key (elements t1))"

definition tree_size :: "'a tree \<Rightarrow> nat" where
  "tree_size t = elements t"

section \<open>Abstraction to a list\<close>

definition tree_list :: "'a tree \<Rightarrow> 'a list" where
  "tree_list t = map the (take (elements t) (array t))"

definition tree_wf :: "'a tree \<Rightarrow> bool" where
  "tree_wf t \<longleftrightarrow> elements t \<le> length (array t) \<and> None \<notin> set (take (elements t) (array t))"

text \<open>A tree that holds \<open>xs\<close>: the first slots are \<open>xs\<close>, the rest is allocated and unused.\<close>

definition holds :: "'a tree \<Rightarrow> 'a list \<Rightarrow> bool" where
  "holds t xs \<longleftrightarrow> elements t = length xs \<and> (\<exists>r. array t = map Some xs @ r)"

lemma holds_tree_list: "tree_wf t \<Longrightarrow> holds t (tree_list t)"
proof -
  assume wf: "tree_wf t"
  have "map Some (tree_list t) = take (elements t) (array t)"
    using wf by (auto simp: tree_wf_def tree_list_def intro!: map_idI) (metis option.exhaust_sel)
  then have "array t = map Some (tree_list t) @ drop (elements t) (array t)"
    by (metis append_take_drop_id)
  then show ?thesis
    using wf by (auto simp: holds_def tree_list_def tree_wf_def)
qed

lemma holds_iff: "holds t xs \<longleftrightarrow> tree_wf t \<and> tree_list t = xs"
proof
  assume "holds t xs"
  then show "tree_wf t \<and> tree_list t = xs"
    by (auto simp: holds_def tree_wf_def tree_list_def comp_def)
next
  assume "tree_wf t \<and> tree_list t = xs"
  then show "holds t xs" using holds_tree_list by blast
qed

lemma holds_new [simp]: "holds tree_new []"
  by (simp add: holds_def tree_new_def)

lemma holds_elements: "holds t xs \<Longrightarrow> elements t = length xs"
  by (simp add: holds_def)

lemma holds_get: "holds t xs \<Longrightarrow> i < length xs \<Longrightarrow> arr_get (array t) i = Some (xs ! i)"
  by (auto simp: holds_def arr_simps)

section \<open>Searching\<close>

text \<open>What a search sees of a sorted array: once an element is not below the key, every later
  element is above it.\<close>

definition descending :: "('a \<Rightarrow> int) \<Rightarrow> 'a list \<Rightarrow> bool" where
  "descending c xs \<longleftrightarrow> (\<forall>i j. i < j \<longrightarrow> j < length xs \<longrightarrow> c (xs ! i) \<le> 0 \<longrightarrow> c (xs ! j) < 0)"

lemma descendingD:
  "descending c xs \<Longrightarrow> i < j \<Longrightarrow> j < length xs \<Longrightarrow> c (xs ! i) \<le> 0 \<Longrightarrow> c (xs ! j) < 0"
  by (simp add: descending_def)

lemma mybsearch_correct:
  assumes get: "\<And>i. i < length xs \<Longrightarrow> arr_get a i = Some (xs ! i)"
    and cmp: "\<And>x. x \<in> set xs \<Longrightarrow> cmp key x = Some (c x)"
    and desc: "descending c xs"
  shows "u \<le> length xs \<Longrightarrow> (\<forall>i < length xs. i < l \<longrightarrow> 0 < c (xs ! i)) \<Longrightarrow>
     (\<forall>i < length xs. u \<le> i \<longrightarrow> c (xs ! i) < 0) \<Longrightarrow>
     (case mybsearch cmp a key l u of
        None \<Rightarrow> False
      | Some None \<Rightarrow> \<forall>x \<in> set xs. c x \<noteq> 0
      | Some (Some (x, p)) \<Rightarrow> p < length xs \<and> x = xs ! p \<and> c x = 0)"
proof (induction "u - l" arbitrary: l u rule: less_induct)
  case less
  show ?case
  proof (cases "l < u")
    case False
    have "c (xs ! i) \<noteq> 0" if "i < length xs" for i
      using less.prems that False by (cases "i < l") auto
    then show ?thesis
      using False by (auto simp: mybsearch.simps [of cmp a key l u] in_set_conv_nth)
  next
    case True
    define idx where "idx = (l + u) div 2"
    have idx: "l \<le> idx" "idx < u" "idx < length xs"
      using True less.prems(1) by (auto simp: idx_def)
    have unf: "mybsearch cmp a key l u =
        (if c (xs ! idx) < 0 then mybsearch cmp a key l idx
         else if 0 < c (xs ! idx) then mybsearch cmp a key (idx + 1) u
         else Some (Some (xs ! idx, idx)))"
      using True get [OF idx(3)] cmp [of "xs ! idx"] idx
      by (subst mybsearch.simps) (simp add: Let_def flip: idx_def)
    consider "c (xs ! idx) < 0" | "0 < c (xs ! idx)" | "c (xs ! idx) = 0" by linarith
    then show ?thesis
    proof cases
      case 1
      have "\<forall>i < length xs. idx \<le> i \<longrightarrow> c (xs ! i) < 0"
        using descendingD [OF desc, of idx] 1 by (metis le_neq_implies_less less_imp_le)
      with less.hyps [of idx l] less.prems idx 1 show ?thesis
        by (simp add: unf diff_less_mono)
    next
      case 2
      have below: "0 < c (xs ! i)" if "i < length xs" "i < idx + 1" for i
        using descendingD [OF desc, of i idx] 2 that idx by (cases "i = idx") force+
      have "mybsearch cmp a key l u = mybsearch cmp a key (idx + 1) u"
        using 2 by (simp add: unf)
      with less.hyps [of u "idx + 1"] less.prems idx below show ?thesis by simp
    next
      case 3
      then show ?thesis using idx by (simp add: unf)
    qed
  qed
qed

lemma tree_find_correct:
  assumes "holds t xs" "\<And>x. x \<in> set xs \<Longrightarrow> cmp key x = Some (c x)" "descending c xs"
  shows "(case tree_find cmp t key of
        None \<Rightarrow> False
      | Some None \<Rightarrow> \<forall>x \<in> set xs. c x \<noteq> 0
      | Some (Some (x, p)) \<Rightarrow> p < length xs \<and> x = xs ! p \<and> c x = 0)"
proof (cases "array t = []")
  case True
  with assms(1) show ?thesis by (auto simp: tree_find_def holds_def)
next
  case False
  have "case mybsearch cmp (array t) key 0 (elements t) of
        None \<Rightarrow> False
      | Some None \<Rightarrow> \<forall>x \<in> set xs. c x \<noteq> 0
      | Some (Some (x, p)) \<Rightarrow> p < length xs \<and> x = xs ! p \<and> c x = 0"
    by (rule mybsearch_correct) (use assms holds_get holds_elements [OF assms(1)] in auto)
  then show ?thesis using False by (simp add: tree_find_def)
qed

section \<open>Insertion and removal\<close>

text \<open>Where the key belongs: after the elements below it.\<close>

definition ins_pos :: "('a \<Rightarrow> int) \<Rightarrow> 'a list \<Rightarrow> nat" where
  "ins_pos c xs = length (takeWhile (\<lambda>x. 0 < c x) xs)"

definition insert_nth :: "nat \<Rightarrow> 'a \<Rightarrow> 'a list \<Rightarrow> 'a list" where
  "insert_nth p x xs = take p xs @ x # drop p xs"

lemma insert_nth_set [simp]: "set (insert_nth p x xs) = insert x (set xs)"
  unfolding insert_nth_def
  by (metis Un_insert_right append_take_drop_id list.simps(15) set_append)

lemma insert_nth_length [simp]: "length (insert_nth p x xs) = Suc (length xs)"
  by (simp add: insert_nth_def)

lemma insert_nth_distinct [simp]:
  "distinct (insert_nth p x xs) \<longleftrightarrow> distinct xs \<and> x \<notin> set xs"
proof -
  obtain ys zs where xs: "xs = ys @ zs" "take p xs = ys" "drop p xs = zs"
    by (metis append_take_drop_id)
  then show ?thesis by (auto simp: insert_nth_def)
qed

lemma ins_pos_le: "ins_pos c xs \<le> length xs"
  by (simp add: ins_pos_def length_takeWhile_le)

lemma ins_pos_eqI:
  assumes "p \<le> length xs" "\<And>i. i < p \<Longrightarrow> 0 < c (xs ! i)" "p < length xs \<Longrightarrow> c (xs ! p) \<le> 0"
  shows "ins_pos c xs = p"
proof -
  have "takeWhile (\<lambda>x. 0 < c x) xs = take p xs"
    using assms by (intro takeWhile_eq_take_P_nth) auto
  then show ?thesis using assms(1) by (simp add: ins_pos_def)
qed

lemma insertion_loop_correct:
  assumes get: "\<And>i. i < length xs \<Longrightarrow> arr_get a i = Some (xs ! i)"
    and cmp: "\<And>x. x \<in> set xs \<Longrightarrow> cmp key x = Some (c x)"
    and desc: "descending c xs"
  shows "u < length xs \<Longrightarrow> l \<le> u \<Longrightarrow> 0 \<le> c (xs ! l) \<Longrightarrow> c (xs ! u) \<le> 0 \<Longrightarrow>
    insertion_loop cmp a key l u =
      Some (if \<exists>x \<in> set xs. c x = 0 then -1 else int (ins_pos c xs))"
proof (induction "u - l" arbitrary: l u rule: less_induct)
  case less
  define idx where "idx = (l + u) div 2"
  have idx: "l \<le> idx" "idx \<le> u" "idx < length xs" "l < u \<Longrightarrow> idx < u"
    using less.prems(1,2) by (auto simp: idx_def)
  have unf: "insertion_loop cmp a key l u =
      (if c (xs ! idx) < 0 then insertion_loop cmp a key l idx
       else if 0 < c (xs ! idx) then do {
          y \<leftarrow> arr_get a (idx + 1);
          c' \<leftarrow> cmp key y;
          if c' < 0 then Some (int (idx + 1)) else insertion_loop cmp a key (idx + 1) u
        }
       else Some (-1))"
    using get [OF idx(3)] cmp [of "xs ! idx"] idx
    by (subst insertion_loop.simps) (simp add: Let_def flip: idx_def)
  consider "c (xs ! idx) < 0" | "0 < c (xs ! idx)" | "c (xs ! idx) = 0" by linarith
  then show ?case
  proof cases
    case 1
    then have "l < u" "l \<noteq> idx" using less.prems idx by (cases "l = u"; force)+
    with 1 less.hyps [of idx l] less.prems idx show ?thesis by (simp add: unf)
  next
    case 2
    then have "idx < u" using less.prems idx by (cases "idx = u"; force)
    then have i1: "idx + 1 < length xs" using less.prems(1) by simp
    have step: "insertion_loop cmp a key l u =
        (if c (xs ! (idx + 1)) < 0 then Some (int (idx + 1)) else insertion_loop cmp a key (idx + 1) u)"
      using 2 get [OF i1] cmp [OF nth_mem [OF i1]] by (simp add: unf)
    show ?thesis
    proof (cases "c (xs ! (idx + 1)) < 0")
      case True
      have lo: "0 < c (xs ! i)" if "i \<le> idx" for i
        using descendingD [OF desc, of i idx] 2 that idx by (cases "i = idx") force+
      have hi: "c (xs ! i) < 0" if "idx < i" "i < length xs" for i
        using descendingD [OF desc, of "idx + 1" i] True that by (cases "i = idx + 1") auto
      have "ins_pos c xs = idx + 1"
        using i1 lo True by (intro ins_pos_eqI) auto
      moreover have "\<not> (\<exists>x \<in> set xs. c x = 0)"
        using lo hi by (metis in_set_conv_nth less_irrefl linorder_not_le)
      ultimately show ?thesis using True by (simp add: step)
    next
      case False
      with less.hyps [of u "idx + 1"] less.prems idx \<open>idx < u\<close> show ?thesis by (simp add: step)
    qed
  next
    case 3
    then show ?thesis using idx nth_mem by (fastforce simp: unf)
  qed
qed

lemma holds_grow:
  "holds t xs \<Longrightarrow> holds (tree_grow t) xs \<and> length xs < length (array (tree_grow t))"
  by (auto simp: holds_def tree_grow_def ARRAY_GROW_def)

lemma insert_at_pos_holds:
  assumes "holds t xs" "length xs < length (array t)" "p \<le> length xs"
  shows "\<exists>t'. tree_insert_at_pos t key p = Some t' \<and> holds t' (insert_nth p key xs)"
proof -
  define ys zs where "ys = take p xs" and "zs = drop p xs"
  obtain z r where a: "array t = map Some ys @ map Some zs @ z # r"
    using assms(1,2) unfolding holds_def ys_def zs_def
    by (metis append.assoc append_take_drop_id length_append length_map less_irrefl list.exhaust
        map_append add.right_neutral list.size(3))
  have n: "elements t = length ys + length zs" and p: "p = length ys"
    using assms by (auto simp: holds_def ys_def zs_def)
  have ins: "insert_nth p key xs = ys @ key # zs"
    by (simp add: insert_nth_def ys_def zs_def)
  show ?thesis
  proof (cases zs)
    case Nil
    then show ?thesis
      using a n p unfolding ins
      by (simp add: tree_insert_at_pos_def arr_set_def holds_def list_update_append)
  next
    case (Cons b bs)
    then show ?thesis
      using a n p unfolding ins
      by (simp add: tree_insert_at_pos_def arr_set_def arr_move_def holds_def list_update_append)
  qed
qed

text \<open>Inserting into a sorted array refines insertion into the sorted list: a duplicate is refused
  with \<open>-1\<close>, any other key lands after the elements below it and its row is returned.\<close>

lemma tree_insert_correct:
  assumes "holds t xs" "\<And>x. x \<in> set xs \<Longrightarrow> cmp key x = Some (c x)" "descending c xs"
  shows "\<exists>t'. tree_insert cmp t key =
       Some (if \<exists>x \<in> set xs. c x = 0 then -1 else int (ins_pos c xs), t') \<and>
     holds t' (if \<exists>x \<in> set xs. c x = 0 then xs else insert_nth (ins_pos c xs) key xs)"
proof -
  define g where "g = tree_grow t"
  have g: "holds g xs" "length xs < length (array g)"
    using holds_grow [OF assms(1)] by (simp_all add: g_def)
  note el = holds_elements [OF g(1)] and get = holds_get [OF g(1)]
  consider "xs = []" | y where "xs = [y]" | "2 \<le> length xs"
    by (cases xs rule: list.exhaust; cases "tl xs") (auto simp: Suc_le_eq)
  then show ?thesis
  proof cases
    case 1
    with g show ?thesis
      by (auto simp: tree_insert_def tree_find_insertion_pos_def arr_set_def holds_def ins_pos_def
          insert_nth_def list_update_code Cons_eq_append_conv neq_Nil_conv simp flip: g_def)
  next
    case 2
    obtain z r where zr: "array g = Some y # z # r"
      using g 2 by (auto simp: holds_def) (metis length_greater_0_conv list.exhaust)
    show ?thesis
      using 2 zr el assms(2) [of y] get [of 0]
      by (auto simp: tree_insert_def tree_find_insertion_pos_def arr_set_def holds_def ins_pos_def
          insert_nth_def simp flip: g_def)
  next
    case 3
    then have ne: "xs \<noteq> []" "\<not> length xs < 2" by auto
    have x0: "arr_get (array g) 0 = Some (xs ! 0)" "cmp key (xs ! 0) = Some (c (xs ! 0))"
      and xn: "arr_get (array g) (length xs - 1) = Some (xs ! (length xs - 1))"
        "cmp key (xs ! (length xs - 1)) = Some (c (xs ! (length xs - 1)))"
      using get [of 0] get [of "length xs - 1"] 3 assms(2) [OF nth_mem, of 0]
        assms(2) [OF nth_mem, of "length xs - 1"]
      by (cases xs; force)+
    have pos: "tree_find_insertion_pos cmp g key =
        Some (if \<exists>x \<in> set xs. c x = 0 then -1 else int (ins_pos c xs), False, g)"
    proof -
      consider (lo) "c (xs ! 0) < 0" | (hi) "0 \<le> c (xs ! 0)" "0 < c (xs ! (length xs - 1))"
        | (mid) "0 \<le> c (xs ! 0)" "c (xs ! (length xs - 1)) \<le> 0" by linarith
      then show ?thesis
      proof cases
        case lo
        have "c (xs ! i) < 0" if "i < length xs" for i
          using descendingD [OF assms(3), of 0 i] lo that by (cases i) auto
        then have "\<not> (\<exists>x \<in> set xs. c x = 0)" by (metis in_set_conv_nth less_irrefl)
        moreover have "ins_pos c xs = 0" using lo 3 by (intro ins_pos_eqI) auto
        ultimately show ?thesis using ne el x0 lo by (simp add: tree_find_insertion_pos_def)
      next
        case hi
        have all: "0 < c (xs ! i)" if "i < length xs" for i
          using descendingD [OF assms(3), of i "length xs - 1"] hi(2) that 3
          by (cases "i = length xs - 1") force+
        then have "\<not> (\<exists>x \<in> set xs. c x = 0)" by (metis in_set_conv_nth less_irrefl)
        moreover have "ins_pos c xs = length xs" using all by (intro ins_pos_eqI) auto
        ultimately show ?thesis using ne el x0 xn hi by (simp add: tree_find_insertion_pos_def)
      next
        case mid
        have "insertion_loop cmp (array g) key 0 (length xs - 1) =
            Some (if \<exists>x \<in> set xs. c x = 0 then -1 else int (ins_pos c xs))"
          by (rule insertion_loop_correct) (use get assms(2,3) mid 3 in auto)
        then show ?thesis using ne el x0 xn mid by (simp add: tree_find_insertion_pos_def)
      qed
    qed
    show ?thesis
    proof (cases "\<exists>x \<in> set xs. c x = 0")
      case True
      then show ?thesis using pos g by (simp add: tree_insert_def flip: g_def)
    next
      case False
      then show ?thesis
        using pos insert_at_pos_holds [OF g ins_pos_le, of key c] by (auto simp: tree_insert_def simp flip: g_def)
    qed
  qed
qed

lemma tree_append_correct:
  assumes "holds t xs"
  shows "\<exists>t'. tree_append t key = Some t' \<and> holds t' (xs @ [key])"
  using insert_at_pos_holds [of "tree_grow t" xs "length xs" key] holds_grow [OF assms]
  by (auto simp: tree_append_def Let_def holds_elements insert_nth_def)

definition remove_nth :: "nat \<Rightarrow> 'a list \<Rightarrow> 'a list" where
  "remove_nth p xs = take p xs @ drop (Suc p) xs"

lemma remove_nth_split:
  assumes "p < length xs"
  shows "xs = take p xs @ xs ! p # drop (Suc p) xs" "remove_nth p xs = take p xs @ drop (Suc p) xs"
  using assms by (simp_all add: remove_nth_def id_take_nth_drop)

lemma remove_nth_distinct:
  assumes "distinct xs" "p < length xs"
  shows "distinct (remove_nth p xs) \<and> set (remove_nth p xs) = set xs - {xs ! p}"
proof -
  obtain ys x zs where "xs = ys @ x # zs" "remove_nth p xs = ys @ zs" "xs ! p = x"
    using remove_nth_split [OF assms(2)] by blast
  with assms(1) show ?thesis by auto
qed

lemma remove_at_pos_holds:
  assumes "holds t xs" "p < length xs"
  shows "\<exists>t'. tree_remove_at_pos t p = Some (xs ! p, t') \<and> holds t' (remove_nth p xs)"
proof -
  define ys zs where "ys = take p xs" and "zs = drop (Suc p) xs"
  have xs: "xs = ys @ xs ! p # zs"
    using assms(2) by (simp add: ys_def zs_def id_take_nth_drop)
  obtain r where a: "array t = map Some ys @ Some (xs ! p) # map Some zs @ r"
    using assms(1) xs unfolding holds_def
    by (metis (no_types, lifting) append.assoc append_Cons list.simps(9) map_append)
  have n: "elements t = Suc (length ys + length zs)" and p: "p = length ys"
    using assms xs by (auto simp: holds_def ys_def zs_def)
  have rem: "remove_nth p xs = ys @ zs"
    by (simp add: remove_nth_def ys_def zs_def)
  have get: "arr_get (array t) p = Some (xs ! p)"
    using a p by (simp add: arr_get_def nth_append)
  show ?thesis
  proof (cases "zs = []")
    case True
    then show ?thesis
      using a n p get unfolding rem by (simp add: tree_remove_at_pos_def holds_def Let_def)
  next
    case False
    then show ?thesis
      using a n p get unfolding rem by (simp add: tree_remove_at_pos_def arr_move_def holds_def Let_def)
  qed
qed

lemma descending_zero_unique:
  assumes "descending c xs" "p < length xs" "q < length xs" "c (xs ! p) = 0" "c (xs ! q) = 0"
  shows "p = q"
  using descendingD [OF assms(1), of p q] descendingD [OF assms(1), of q p] assms(2-5)
  by (cases p q rule: linorder_cases) auto

lemma tree_find_hit:
  assumes "holds t xs" "\<And>x. x \<in> set xs \<Longrightarrow> cmp key x = Some (c x)" "descending c xs"
    and "p < length xs" "c (xs ! p) = 0"
  shows "tree_find cmp t key = Some (Some (xs ! p, p))"
proof -
  have "case tree_find cmp t key of
        None \<Rightarrow> False
      | Some None \<Rightarrow> \<forall>x \<in> set xs. c x \<noteq> 0
      | Some (Some (x, q)) \<Rightarrow> q < length xs \<and> x = xs ! q \<and> c x = 0"
    by (rule tree_find_correct) (use assms in auto)
  moreover have "xs ! p \<in> set xs" using assms(4) by simp
  ultimately show ?thesis
    using descending_zero_unique [OF assms(3,4) _ assms(5)] assms(5)
    by (cases "tree_find cmp t key") (force split: option.splits prod.splits)+
qed

lemma tree_find_miss:
  assumes "holds t xs" "\<And>x. x \<in> set xs \<Longrightarrow> cmp key x = Some (c x)" "descending c xs"
    and "\<forall>x \<in> set xs. c x \<noteq> 0"
  shows "tree_find cmp t key = Some None"
proof -
  have "case tree_find cmp t key of
        None \<Rightarrow> False
      | Some None \<Rightarrow> \<forall>x \<in> set xs. c x \<noteq> 0
      | Some (Some (x, q)) \<Rightarrow> q < length xs \<and> x = xs ! q \<and> c x = 0"
    by (rule tree_find_correct) (use assms in auto)
  then show ?thesis
    using assms(4) by (cases "tree_find cmp t key") (force split: option.splits prod.splits)+
qed

lemma tree_remove_correct:
  assumes "holds t xs" "\<And>x. x \<in> set xs \<Longrightarrow> cmp key x = Some (c x)" "descending c xs"
    and "p < length xs" "c (xs ! p) = 0"
  shows "\<exists>t'. tree_remove cmp t key = Some (True, t') \<and> holds t' (remove_nth p xs)"
  using tree_find_hit [of t xs cmp key c p] assms remove_at_pos_holds [OF assms(1,4)]
  by (auto simp: tree_remove_def)

lemma foreach_from_fold:
  assumes "\<And>x s. fst (f x s)"
  shows "foreach_from f (map Some xs) s = Some (fold (\<lambda>x s. snd (f x s)) xs s)"
proof (induction xs arbitrary: s)
  case (Cons x xs)
  then show ?case using assms [of x s] by (cases "f x s") simp
qed simp

lemma tree_foreach_fold:
  assumes "holds t xs" "\<And>x s. fst (f x s)"
  shows "tree_foreach f t s = Some (fold (\<lambda>x s. snd (f x s)) xs s)"
  using assms foreach_from_fold [OF assms(2)] by (auto simp: tree_foreach_def holds_def)

section \<open>The contract of a comparison function\<close>

text \<open>Strictly increasing keys, all of them keys for which \<open>ok\<close> holds.\<close>

definition ordered_by :: "('k \<Rightarrow> 'k \<Rightarrow> int) \<Rightarrow> ('k \<Rightarrow> bool) \<Rightarrow> 'k list \<Rightarrow> bool" where
  "ordered_by cmp ok ks \<longleftrightarrow> sorted_wrt (\<lambda>x y. cmp x y < 0) ks \<and> list_all ok ks"

text \<open>What the array needs of the comparison on the keys it is used with: a total preorder, on the
  keys for which \<open>ok\<close> holds.\<close>

locale cmp_order =
  fixes cmp :: "'k \<Rightarrow> 'k \<Rightarrow> int" and ok :: "'k \<Rightarrow> bool"
  assumes anti: "ok x \<Longrightarrow> ok y \<Longrightarrow> sgn (cmp y x) = - sgn (cmp x y)"
    and trans_le: "ok x \<Longrightarrow> ok y \<Longrightarrow> ok z \<Longrightarrow> cmp x y \<le> 0 \<Longrightarrow> cmp y z \<le> 0 \<Longrightarrow> cmp x z \<le> 0"
begin

lemma cmp_flip: "ok x \<Longrightarrow> ok y \<Longrightarrow> cmp y x < 0 \<longleftrightarrow> 0 < cmp x y"
  using anti [of x y] by (auto simp: sgn_if split: if_splits)

lemma cmp_zero_sym: "ok x \<Longrightarrow> ok y \<Longrightarrow> cmp y x = 0 \<longleftrightarrow> cmp x y = 0"
  using anti [of x y] by (auto simp: sgn_if split: if_splits)

lemma le_less_trans': "ok x \<Longrightarrow> ok y \<Longrightarrow> ok z \<Longrightarrow> cmp x y \<le> 0 \<Longrightarrow> cmp y z < 0 \<Longrightarrow> cmp x z < 0"
  using trans_le [of x y z] trans_le [of z x y] cmp_flip [of z y] cmp_zero_sym [of x z] cmp_flip [of z x]
  by (smt (verit))

lemma less_le_trans': "ok x \<Longrightarrow> ok y \<Longrightarrow> ok z \<Longrightarrow> cmp x y < 0 \<Longrightarrow> cmp y z \<le> 0 \<Longrightarrow> cmp x z < 0"
  using trans_le [of x y z] trans_le [of y z x] cmp_flip [of x y] cmp_zero_sym [of x z] cmp_flip [of y x]
  by (smt (verit))

lemma ordered_descending:
  assumes "ordered_by cmp ok (map f xs)" "ok k"
  shows "descending (\<lambda>x. cmp k (f x)) xs"
  unfolding descending_def
proof (intro allI impI)
  fix i j
  assume ij: "i < j" "j < length xs" and le: "cmp k (f (xs ! i)) \<le> 0"
  have "cmp (f (xs ! i)) (f (xs ! j)) < 0"
    using assms(1) ij strict_sorted_wrt_nth_less [of _ "map f xs" i j] by (auto simp: ordered_by_def)
  moreover have "ok (f (xs ! i))" "ok (f (xs ! j))"
    using assms(1) ij by (auto simp: ordered_by_def list_all_length)
  ultimately show "cmp k (f (xs ! j)) < 0"
    using le_less_trans' assms(2) le by blast
qed

lemma ordered_insert:
  assumes "ordered_by cmp ok (map f xs)" "ok (f x)" "\<forall>y \<in> set xs. cmp (f x) (f y) \<noteq> 0"
  shows "ordered_by cmp ok (map f (insert_nth (ins_pos (\<lambda>y. cmp (f x) (f y)) xs) x xs))"
proof -
  let ?c = "\<lambda>y. cmp (f x) (f y)"
  let ?p = "ins_pos ?c xs"
  have tk: "take ?p xs = takeWhile (\<lambda>y. 0 < ?c y) xs"
    unfolding ins_pos_def by (rule takeWhile_eq_take [symmetric])
  have oks: "\<forall>y \<in> set xs. ok (f y)" using assms(1) by (auto simp: ordered_by_def list_all_iff)
  have lo: "cmp (f y) (f x) < 0" if "y \<in> set (take ?p xs)" for y
    using that oks assms(2) set_takeWhileD [of y _ xs] cmp_flip [of "f x" "f y"] unfolding tk by auto
  have hi: "cmp (f x) (f y) < 0" if y: "y \<in> set (drop ?p xs)" for y
  proof -
    obtain i where i: "i < length xs" "?p \<le> i" "y = xs ! i"
      using y by (auto simp: in_set_conv_nth) (metis le_add1 less_diff_conv2 add.commute less_diff_conv)
    have "\<not> 0 < ?c (xs ! ?p)"
      using i nth_length_takeWhile [of "\<lambda>y. 0 < ?c y" xs] unfolding ins_pos_def by simp
    moreover have "xs ! ?p \<in> set xs" using i by simp
    ultimately have "?c (xs ! ?p) < 0" using assms(3) by (meson linorder_neqE)
    then show ?thesis
      using descendingD [OF ordered_descending [OF assms(1,2)], of ?p i] i by (cases "i = ?p") auto
  qed
  define ys zs where "ys = take ?p xs" and "zs = drop ?p xs"
  have "sorted_wrt (\<lambda>x y. cmp x y < 0) (map f (ys @ zs))"
    using assms(1) by (simp add: ordered_by_def ys_def zs_def)
  then have "sorted_wrt (\<lambda>x y. cmp x y < 0) (map f (ys @ x # zs))"
    using lo hi by (auto simp: sorted_wrt_append simp flip: ys_def zs_def)
  moreover have "list_all ok (map f (insert_nth ?p x xs))"
    using oks assms(2) by (auto simp: list_all_iff)
  ultimately show ?thesis by (simp add: ordered_by_def insert_nth_def ys_def zs_def)
qed

lemma ordered_remove: "ordered_by cmp ok (map f xs) \<Longrightarrow> ordered_by cmp ok (map f (remove_nth p xs))"
proof (cases "p < length xs")
  case True
  assume o: "ordered_by cmp ok (map f xs)"
  define ys zs where "ys = take p xs" and "zs = drop (Suc p) xs"
  have xs: "xs = ys @ xs ! p # zs" "remove_nth p xs = ys @ zs"
    using id_take_nth_drop [OF True] by (simp_all add: remove_nth_def ys_def zs_def)
  have "ordered_by cmp ok (map f (ys @ xs ! p # zs))" using o xs(1) by simp
  then show ?thesis unfolding xs(2) by (simp add: ordered_by_def sorted_wrt_append)
next
  case False
  then show "ordered_by cmp ok (map f xs) \<Longrightarrow> ?thesis" by (simp add: remove_nth_def)
qed

end

lemma descending_sorted: "descending c xs \<longleftrightarrow> sorted_wrt (\<lambda>x y. c x \<le> 0 \<longrightarrow> c y < 0) xs"
  by (auto simp: descending_def sorted_wrt_iff_nth_less)

lemma descending_insert:
  assumes "descending c xs" "c key = 0" "\<forall>x \<in> set xs. c x \<noteq> 0"
  shows "descending c (insert_nth (ins_pos c xs) key xs)"
proof -
  let ?l = "takeWhile (\<lambda>x. 0 < c x) xs" and ?r = "dropWhile (\<lambda>x. 0 < c x) xs"
  have split: "sorted_wrt (\<lambda>x y. c x \<le> 0 \<longrightarrow> c y < 0) (?l @ ?r)"
    using assms(1) by (simp add: descending_sorted)
  have r: "\<forall>y \<in> set ?r. c y < 0"
  proof (cases ?r)
    case (Cons y ys)
    then have "\<not> 0 < c y" "y \<in> set xs"
      using hd_dropWhile [of "\<lambda>x. 0 < c x" xs] set_dropWhileD [of y "\<lambda>x. 0 < c x" xs] by auto
    then have "c y < 0" using assms(3) by force
    with split Cons show ?thesis by (auto simp: sorted_wrt_append)
  qed (simp only: list.set ball_empty)
  have l: "\<forall>x \<in> set ?l. 0 < c x" using set_takeWhileD by metis
  have "insert_nth (ins_pos c xs) key xs = ?l @ key # ?r"
    by (simp add: insert_nth_def ins_pos_def takeWhile_eq_take [symmetric] dropWhile_eq_drop [symmetric])
  with split r l assms(2) show ?thesis
    by (auto simp: descending_sorted sorted_wrt_append)
qed

section \<open>Properties\<close>

text \<open>C35: The binary search \<open>tree_find\<close> is correct on every well-formed tree whose keys are sorted for the
  comparison: it ends, reads only filled slots, returns an element and its position only if the
  comparison is 0 there, and returns nothing only if it is 0 nowhere.\<close>

theorem tree_find_search_correct:
  assumes "tree_wf t" "\<And>x. x \<in> set (tree_list t) \<Longrightarrow> cmp key x = Some (c x)" "descending c (tree_list t)"
  shows "(\<exists>p < length (tree_list t). tree_find cmp t key = Some (Some (tree_list t ! p, p)) \<and> c (tree_list t ! p) = 0) \<or>
     (tree_find cmp t key = Some None \<and> (\<forall>x \<in> set (tree_list t). c x \<noteq> 0))"
  using tree_find_correct [where c = c and cmp = cmp and key = key, OF holds_tree_list [OF assms(1)] assms(2,3)]
  by (cases "tree_find cmp t key") (auto split: option.splits)

theorem tree_find_search_correct_witness:
  "tree_find (\<lambda>k x. Some (k - x)) \<lparr>elements = 3, array = [Some 1, Some 4, Some (9::int), None]\<rparr> 4 = Some (Some (4, 1))"
proof -
  let ?t = "\<lparr>elements = 3, array = [Some 1, Some 4, Some (9::int), None]\<rparr>"
  have l: "tree_list ?t = [1, 4, 9]" "tree_wf ?t" by (simp_all add: tree_list_def tree_wf_def)
  have "(\<exists>p < length (tree_list ?t). tree_find (\<lambda>k x. Some (k - x)) ?t 4 = Some (Some (tree_list ?t ! p, p)) \<and>
        4 - tree_list ?t ! p = 0) \<or>
     (tree_find (\<lambda>k x. Some (k - x)) ?t 4 = Some None \<and> (\<forall>x \<in> set (tree_list ?t). 4 - x \<noteq> 0))"
    by (rule tree_find_search_correct [OF l(2), where c = "\<lambda>x. 4 - x"])
       (simp_all add: l descending_sorted)
  then show ?thesis unfolding l by (auto simp: less_Suc_eq)
qed

text \<open>\<open>tree_insert\<close> puts a new key exactly where the order wants it: it grows the array when it is full,
  finds the position by bisection, moves the tail up, and the list of keys becomes the old one with the key inserted
  after all keys below it, the position being returned; a key that is already there is refused with \<open>-1\<close> and
  the list stays the same. A removal of the key then gives the old list back.\<close>

theorem tree_insert_remove:
  assumes "tree_wf t" "\<And>x. x \<in> insert key (set (tree_list t)) \<Longrightarrow> cmp key x = Some (c x)"
    and "descending c (tree_list t)" "c key = 0"
  shows "(if \<exists>x \<in> set (tree_list t). c x = 0
      then \<exists>t'. tree_insert cmp t key = Some (-1, t') \<and> tree_wf t' \<and> tree_list t' = tree_list t
      else \<exists>t' t''. tree_insert cmp t key = Some (int (ins_pos c (tree_list t)), t') \<and> tree_wf t' \<and>
         tree_list t' = insert_nth (ins_pos c (tree_list t)) key (tree_list t) \<and>
         tree_remove cmp t' key = Some (True, t'') \<and> tree_wf t'' \<and> tree_list t'' = tree_list t)"
proof -
  let ?xs = "tree_list t" and ?p = "ins_pos c (tree_list t)"
  obtain t' where ins: "tree_insert cmp t key = Some (if \<exists>x \<in> set ?xs. c x = 0 then -1 else int ?p, t')"
    "holds t' (if \<exists>x \<in> set ?xs. c x = 0 then ?xs else insert_nth ?p key ?xs)"
    using tree_insert_correct [OF holds_tree_list [OF assms(1)], of cmp key c] assms(2,3) by auto
  show ?thesis
  proof (cases "\<exists>x \<in> set ?xs. c x = 0")
    case True
    then show ?thesis using ins by (auto simp: holds_iff)
  next
    case False
    have p: "?p \<le> length ?xs" by (rule ins_pos_le)
    have nth: "insert_nth ?p key ?xs ! ?p = key" and rem: "remove_nth ?p (insert_nth ?p key ?xs) = ?xs"
      using p by (simp_all add: insert_nth_def remove_nth_def nth_append)
    have "\<exists>t''. tree_remove cmp t' key = Some (True, t'') \<and> holds t'' (remove_nth ?p (insert_nth ?p key ?xs))"
      by (rule tree_remove_correct [where c = c])
         (use ins(2) False assms p nth descending_insert [OF assms(3,4)] in auto)
    then show ?thesis using ins False unfolding rem by (auto simp: holds_iff)
  qed
qed

theorem tree_insert_remove_witness:
  "\<exists>t' t''. tree_insert (\<lambda>k x. Some (k - x)) \<lparr>elements = 2, array = [Some 1, Some (9::int)]\<rparr> 4 = Some (1, t') \<and>
     tree_list t' = [1, 4, 9] \<and> tree_remove (\<lambda>k x. Some (k - x)) t' 4 = Some (True, t'') \<and> tree_list t'' = [1, 9]"
proof -
  let ?t = "\<lparr>elements = 2, array = [Some 1, Some (9::int)]\<rparr>"
  have l: "tree_list ?t = [1, 9]" "tree_wf ?t" by (simp_all add: tree_list_def tree_wf_def)
  have d: "descending (\<lambda>x. 4 - x) (tree_list ?t)" by (simp add: l descending_sorted)
  have p: "ins_pos (\<lambda>x. 4 - x) [1, 9::int] = 1" "insert_nth (Suc 0) 4 [1, 9::int] = [1, 4, 9]"
    by (simp_all add: ins_pos_def insert_nth_def)
  from tree_insert_remove [OF l(2) _ d, of 4 "\<lambda>k x. Some (k - x)"] show ?thesis by (auto simp: l p)
qed

end
