(* ===== verification/Wildcard.thy ===== *)
theory Wildcard
  imports Usertree
begin

text \<open>
  Case folding, case-insensitive comparison and wildcard matching of \<open>src/src/common/util.c\<close>
  (\<open>rfc_tolower\<close> of \<open>util.h\<close>). Masks of \<open>/ignore\<close>, bans, notifications and searches go through
  \<open>match\<close>; \<open>rfc_casecmp\<close> is the default \<open>p_cmp\<close> of every server.
\<close>

section \<open>Case folding\<close>

text \<open>The table \<open>rfc_tolowertab\<close>: the control characters and \<open>' '..'@'\<close>, then \<open>'A'..'^'\<close> folded to
  \<open>'a'..'~'\<close>, then the rest unchanged.\<close>

definition rfc_tolowertab :: "nat list" where
  "rfc_tolowertab = [0..<65] @ [97..<127] @ [95..<256]"

definition rfc_tolower :: "char \<Rightarrow> char" where
  "rfc_tolower c = char_of (rfc_tolowertab ! uchar c)"

lemma nth_upt_append: "([i..<j] @ xs) ! n = (if n < j - i then i + n else xs ! (n - (j - i)))"
  by (simp add: nth_append)

lemma rfc_tolower_eq:
  "rfc_tolower c = (if 65 \<le> uchar c \<and> uchar c \<le> 94 then char_of (uchar c + 32) else c)"
proof -
  have "rfc_tolowertab ! n = (if 65 \<le> n \<and> n \<le> 94 then n + 32 else n)" if "n < 256" for n
  proof (cases "n < 95")
    case True
    then show ?thesis unfolding rfc_tolowertab_def nth_upt_append by simp linarith
  next
    case False
    then have "[95..<256] ! (n - 95) = n" using that by (subst nth_upt) auto
    moreover have "\<not> n < 65 - 0" "\<not> n - (65 - 0) < 127 - 97" "n - (65 - 0) - (127 - 97) = n - 95" "\<not> n \<le> 94"
      using False by auto
    ultimately show ?thesis unfolding rfc_tolowertab_def nth_upt_append by (simp only: if_False simp_thms)
  qed
  from this [of "uchar c"] show ?thesis by (simp add: rfc_tolower_def)
qed

lemma uchar_rfc_tolower:
  "uchar (rfc_tolower c) = (if 65 \<le> uchar c \<and> uchar c \<le> 94 then uchar c + 32 else uchar c)"
  by (auto simp: rfc_tolower_eq uchar_char_of)

lemma rfc_tolower_NUL [simp]: "rfc_tolower NUL = NUL"
  by (simp add: rfc_tolower_eq)

lemma rfc_tolower_eq_NUL [simp]: "rfc_tolower c = NUL \<longleftrightarrow> c = NUL"
  using uchar_rfc_tolower [of c] by (metis add_is_0 uchar_zero_iff zero_neq_numeral rfc_tolower_NUL)

lemma rfc_tolower_idem [simp]: "rfc_tolower (rfc_tolower c) = rfc_tolower c"
  by (auto simp: rfc_tolower_eq [of "rfc_tolower c"] uchar_rfc_tolower)

section \<open>Case-insensitive comparison\<close>

text \<open>\<open>(int)*s1 - (int)*s2\<close> at the end compares plain \<open>char\<close>s, hence \<open>schar\<close>.\<close>

fun rfc_casecmp :: "string \<Rightarrow> string \<Rightarrow> int" where
  "rfc_casecmp (a # s) (b # t) =
     (let c1 = int (uchar (rfc_tolower a)); c2 = int (uchar (rfc_tolower b))
      in if c1 \<noteq> c2 then c1 - c2 else rfc_casecmp s t)"
| "rfc_casecmp s t = schar (chd s) - schar (chd t)"

fun rfc_ncasecmp :: "string \<Rightarrow> string \<Rightarrow> nat \<Rightarrow> int" where
  "rfc_ncasecmp (a # s) (b # t) (Suc n) =
     (let c1 = int (uchar (rfc_tolower a)); c2 = int (uchar (rfc_tolower b))
      in if c1 \<noteq> c2 then c1 - c2 else rfc_ncasecmp s t n)"
| "rfc_ncasecmp s t n =
     (if n = 0 then 0 else int (uchar (rfc_tolower (chd s))) - int (uchar (rfc_tolower (chd t))))"

definition rfc_strlower :: "string \<Rightarrow> string" where
  "rfc_strlower s = map rfc_tolower s"

lemma uchar_not_256: "uchar c = 256 \<Longrightarrow> False"
  using uchar_less [of c] by simp

lemma gr0_conv_not_NUL: "0 < uchar c \<longleftrightarrow> c \<noteq> NUL"
  by (metis gr0I less_irrefl uchar_zero_iff)

lemma rfc_casecmp_eq_0:
  "cstring s \<Longrightarrow> cstring t \<Longrightarrow> rfc_casecmp s t = 0 \<longleftrightarrow> rfc_strlower s = rfc_strlower t"
proof (induction s t rule: rfc_casecmp.induct [case_names both left right])
  case (both a s b t)
  then show ?case by (auto simp: rfc_strlower_def Let_def uchar_eq_iff)
next
  case (left t)
  then show ?case
    by (cases t) (auto simp: rfc_strlower_def schar_def dest: uchar_not_256 split: if_splits)
next
  case (right s)
  then show ?case
    by (cases s) (auto simp: rfc_strlower_def schar_def dest: uchar_not_256 split: if_splits)
qed

text \<open>On ASCII strings the comparison is the lexicographic order of the folded strings.\<close>

definition fold_key :: "string \<Rightarrow> nat list" where
  "fold_key s = map (\<lambda>c. uchar (rfc_tolower c)) s"

lemma rfc_casecmp_lex:
  "ascii s \<Longrightarrow> ascii t \<Longrightarrow> cstring s \<Longrightarrow> cstring t \<Longrightarrow>
     (rfc_casecmp s t < 0 \<longleftrightarrow> ord_class.lexordp (fold_key s) (fold_key t)) \<and>
     (0 < rfc_casecmp s t \<longleftrightarrow> ord_class.lexordp (fold_key t) (fold_key s))"
proof (induction s t rule: rfc_casecmp.induct [case_names both left right])
  case (both a s b t)
  then show ?case by (auto simp: fold_key_def Let_def)
next
  case (left t)
  then show ?case
    by (cases t) (auto simp: fold_key_def schar_def gr0_conv_not_NUL)
next
  case (right s)
  then show ?case
    by (cases s) (auto simp: fold_key_def schar_def gr0_conv_not_NUL)
qed

lemma rfc_casecmp_anti: "rfc_casecmp t s = - rfc_casecmp s t"
  by (induction s t rule: rfc_casecmp.induct) (auto simp: Let_def)

text \<open>A nickname the order is sound for: no NUL and no byte above 127.\<close>

definition plain_nick :: "string \<Rightarrow> bool" where
  "plain_nick s \<longleftrightarrow> ascii s \<and> cstring s"

lemma rfc_casecmp_le:
  "plain_nick s \<Longrightarrow> plain_nick t \<Longrightarrow> rfc_casecmp s t \<le> 0 \<longleftrightarrow> \<not> ord_class.lexordp (fold_key t) (fold_key s)"
  using rfc_casecmp_lex [of s t] by (auto simp: plain_nick_def)

interpretation rfc: cmp_order rfc_casecmp plain_nick
proof
  fix x y :: string
  show "sgn (rfc_casecmp y x) = - sgn (rfc_casecmp x y)"
    by (simp add: rfc_casecmp_anti [of y x])
next
  fix x y z :: string
  assume "plain_nick x" "plain_nick y" "plain_nick z" "rfc_casecmp x y \<le> 0" "rfc_casecmp y z \<le> 0"
  then show "rfc_casecmp x z \<le> 0"
    by (metis rfc_casecmp_le lexordp_linear lexordp_trans)
qed

section \<open>Wildcards\<close>

text \<open>A backslash makes the \<open>?\<close> or \<open>*\<close> after it literal.\<close>

definition unescape :: "char \<Rightarrow> string \<Rightarrow> char \<times> string" where
  "unescape ch m =
     (if ch = CHR 0x5C \<and> (chd m = CHR ''?'' \<or> chd m = CHR ''*'') then (chd m, tl m) else (ch, m))"

datatype head_result = Head_Fail | Head_End string | Head_Star string string

lemma unescape_length: "unescape ch m = (c, m') \<Longrightarrow> length m' \<le> length m"
  by (auto simp: unescape_def split: if_splits)

function match_head :: "string \<Rightarrow> string \<Rightarrow> head_result" where
  "match_head [] s = Head_End s"
| "match_head (ch # m) s =
     (if ch = CHR ''*'' then Head_Star m s
      else if ch = CHR ''?'' then (case s of [] \<Rightarrow> Head_Fail | _ # s' \<Rightarrow> match_head m s')
      else
        (case unescape ch m of (c, m') \<Rightarrow>
           if rfc_tolower (chd s) \<noteq> rfc_tolower c then Head_Fail
           else (case s of [] \<Rightarrow> Head_Fail | _ # s' \<Rightarrow> match_head m' s')))"
  by pat_completeness auto
termination
  by (relation "measure (\<lambda>(m, s). length s)") auto

text \<open>After a star: skip further stars, let each \<open>?\<close> eat a character, stop at a literal. The rollback
  point \<open>bm\<close> is the mask from that literal on.\<close>

datatype skip_result = Skip_Fail | Skip_All | Skip_Char char string string string

fun star_skip :: "string \<Rightarrow> string \<Rightarrow> string \<Rightarrow> skip_result" where
  "star_skip [] s bm = Skip_All"
| "star_skip (ch # m) s bm =
     (if ch = CHR ''?'' then (case s of [] \<Rightarrow> Skip_Fail | _ # s' \<Rightarrow> star_skip m s' m)
      else if ch = CHR ''*'' then star_skip m s m
      else (case unescape ch m of (c, m') \<Rightarrow> Skip_Char c m' s bm))"

text \<open>\<open>while (rfc_tolower (*s++) != ch) if (!*s) return 0;\<close>. On the empty string the increment steps
  over the terminator and the test reads behind it.\<close>

fun seek :: "char \<Rightarrow> string \<Rightarrow> string option option" where
  "seek ch [] = None"
| "seek ch (c # s) =
     (if rfc_tolower c = ch then Some (Some s) else if s = [] then Some None else seek ch s)"

datatype chunk_result = Chunk_Fail | Chunk_Retry | Chunk_Star string string | Chunk_Match

function match_chunk :: "string \<Rightarrow> string \<Rightarrow> chunk_result" where
  "match_chunk [] s = (if s = [] then Chunk_Match else Chunk_Retry)"
| "match_chunk (ch # m) s =
     (if ch = CHR ''*'' then Chunk_Star m s
      else if ch = CHR ''?'' then (case s of [] \<Rightarrow> Chunk_Fail | _ # s' \<Rightarrow> match_chunk m s')
      else
        (case unescape ch m of (c, m') \<Rightarrow>
           if rfc_tolower (chd s) \<noteq> rfc_tolower c
           then (if s = [] then Chunk_Fail else Chunk_Retry)
           else (case s of [] \<Rightarrow> Chunk_Fail | _ # s' \<Rightarrow> match_chunk m' s')))"
  by pat_completeness auto
termination
  by (relation "measure (\<lambda>(m, s). length s)") auto

lemma star_skip_length:
  "star_skip m s bm = Skip_Char c m1 s1 bm1 \<Longrightarrow> length bm \<le> n \<Longrightarrow> length m \<le> n \<Longrightarrow>
     length m1 < length m \<and> length s1 \<le> length s \<and> length bm1 \<le> n"
proof (induction m s bm rule: star_skip.induct)
  case (2 ch m s bm)
  then show ?case
    by (fastforce split: if_splits list.splits prod.splits dest: unescape_length)
qed simp

lemma seek_length: "seek ch s = Some (Some s') \<Longrightarrow> length s' < length s"
  by (induction s) (auto split: if_splits)

lemma match_chunk_length:
  "match_chunk m s = Chunk_Star m' s' \<Longrightarrow> length m' < length m \<and> length s' \<le> length s"
proof (induction m s rule: match_chunk.induct)
  case (2 ch m s)
  then show ?case
    by (fastforce split: if_splits list.splits prod.splits dest: unescape_length)
qed (simp split: if_splits)

function got_star :: "string \<Rightarrow> string \<Rightarrow> bool option" where
  "got_star m s =
     (case star_skip m s m of
        Skip_Fail \<Rightarrow> Some False
      | Skip_All \<Rightarrow> Some True
      | Skip_Char c m1 s1 bm \<Rightarrow>
          (case seek (rfc_tolower c) s1 of
             None \<Rightarrow> None
           | Some None \<Rightarrow> Some False
           | Some (Some bs) \<Rightarrow>
               (case match_chunk m1 bs of
                  Chunk_Fail \<Rightarrow> Some False
                | Chunk_Retry \<Rightarrow> got_star bm bs
                | Chunk_Star m' s' \<Rightarrow> got_star m' s'
                | Chunk_Match \<Rightarrow> Some True)))"
  by pat_completeness auto
termination
proof (relation "measure (\<lambda>(m, s). length m + length s)", goal_cases)
  case 1
  then show ?case by simp
next
  case (2 m s c m1 s1 bm r bs)
  then show ?case
    using star_skip_length [of m s m c m1 s1 bm "length m"] seek_length [of _ s1 bs] by fastforce
next
  case (3 m s c m1 s1 bm r bs m' s')
  then show ?case
    using star_skip_length [of m s m c m1 s1 bm "length m"] seek_length [of _ s1 bs]
      match_chunk_length [of m1 bs m' s'] by fastforce
qed

declare got_star.simps [simp del]

text \<open>\<open>match\<close>: \<open>None\<close> is the read behind the terminator of the matched string.\<close>

definition match :: "string \<Rightarrow> string \<Rightarrow> bool option" where
  "match msk str =
     (case match_head msk str of
        Head_Fail \<Rightarrow> Some False
      | Head_End s \<Rightarrow> Some (s = [])
      | Head_Star m s \<Rightarrow> got_star m s)"

section \<open>The reference matcher\<close>

text \<open>What a mask means: \<open>?\<close> is any one character, \<open>*\<close> any string, everything else itself up to
  case.\<close>

function glob :: "string \<Rightarrow> string \<Rightarrow> bool" where
  "glob [] s = (s = [])"
| "glob (ch # m) s =
     (if ch = CHR ''*'' then glob m s \<or> (case s of [] \<Rightarrow> False | _ # s' \<Rightarrow> glob (ch # m) s')
      else
        (case s of
           [] \<Rightarrow> False
         | c # s' \<Rightarrow>
             if ch = CHR ''?'' then glob m s'
             else (case unescape ch m of (c', m') \<Rightarrow> rfc_tolower c = rfc_tolower c' \<and> glob m' s')))"
  by pat_completeness auto
termination
  by (relation "measure (\<lambda>(m, s). length m + length s)") (auto dest: unescape_length [OF sym])

declare glob.simps(2) [simp del]

lemma glob_any [simp]: "glob (CHR ''?'' # m) s \<longleftrightarrow> s \<noteq> [] \<and> glob m (tl s)"
  by (cases s) (simp_all add: glob.simps(2))

lemma glob_literal:
  "ch \<noteq> CHR ''*'' \<Longrightarrow> ch \<noteq> CHR ''?'' \<Longrightarrow> unescape ch m = (c, m') \<Longrightarrow>
     glob (ch # m) s \<longleftrightarrow> s \<noteq> [] \<and> rfc_tolower (hd s) = rfc_tolower c \<and> glob m' (tl s)"
  by (cases s) (auto simp: glob.simps(2))

text \<open>\<open>starred m s\<close>: some suffix of \<open>s\<close> matches \<open>m\<close>, which is what \<open>*m\<close> asks for.\<close>

definition starred :: "string \<Rightarrow> string \<Rightarrow> bool" where
  "starred m s \<longleftrightarrow> (\<exists>k \<le> length s. glob m (drop k s))"

lemma glob_star: "glob (CHR ''*'' # m) s \<longleftrightarrow> starred m s"
proof (induction s)
  case Nil
  show ?case by (simp add: starred_def glob.simps(2))
next
  case (Cons c s)
  have "(\<exists>k \<le> length (c # s). glob m (drop k (c # s))) \<longleftrightarrow>
      glob m (c # s) \<or> (\<exists>k \<le> length s. glob m (drop k s))" (is "?l \<longleftrightarrow> ?r")
  proof
    assume ?l
    then obtain k where "k \<le> length (c # s)" "glob m (drop k (c # s))" by blast
    then show ?r by (cases k) auto
  next
    assume ?r
    then show ?l by (metis drop0 drop_Suc_Cons le0 length_Cons Suc_le_mono)
  qed
  with Cons show ?case by (simp add: starred_def glob.simps(2) [of _ m "c # s"])
qed

lemma starred_Cons: "starred m (c # s) \<longleftrightarrow> glob m (c # s) \<or> starred m s"
  using glob_star [of m "c # s"] glob_star [of m s] by (simp add: glob.simps(2) [of _ m "c # s"])

lemma starred_drop: "starred m (drop n s) \<Longrightarrow> starred m s"
proof (induction s arbitrary: n)
  case (Cons c s)
  then show ?case by (cases n) (auto simp: starred_Cons)
qed simp

lemma starred_star: "starred (CHR ''*'' # m) s \<longleftrightarrow> starred m s"
proof
  assume "starred (CHR ''*'' # m) s"
  then show "starred m s" unfolding starred_def [of "CHR ''*'' # m"] using glob_star starred_drop by blast
next
  assume "starred m s"
  then show "starred (CHR ''*'' # m) s" by (metis drop0 glob_star le0 starred_def)
qed

lemma starred_any: "starred (CHR ''?'' # m) s \<longleftrightarrow> s \<noteq> [] \<and> starred m (tl s)"
proof (induction s)
  case Nil
  show ?case by (simp add: starred_def)
next
  case (Cons c s)
  have "glob (CHR ''?'' # m) (c # s) = glob m s" by simp
  moreover have "glob m s \<Longrightarrow> starred m s" by (metis drop0 le0 starred_def)
  moreover have "s \<noteq> [] \<Longrightarrow> starred m (tl s) \<Longrightarrow> starred m s" by (metis drop_Suc drop0 starred_drop)
  moreover have "starred m s \<Longrightarrow> glob m s \<or> s \<noteq> [] \<and> starred m (tl s)"
  proof (cases s)
    case Nil
    then show "starred m s \<Longrightarrow> ?thesis" by (simp add: starred_def)
  qed (auto simp: starred_Cons)
  ultimately show ?case using Cons by (auto simp: starred_Cons)
qed

lemma starred_Nil: "starred [] s"
  unfolding starred_def by (rule exI [of _ "length s"]) simp

text \<open>The least length a mask can match.\<close>

function min_len :: "string \<Rightarrow> nat" where
  "min_len [] = 0"
| "min_len (ch # m) =
     (if ch = CHR ''*'' then min_len m else case unescape ch m of (c, m') \<Rightarrow> Suc (min_len m'))"
  by pat_completeness auto
termination
  by (relation "measure length") (auto dest: unescape_length [OF sym])

lemma unescape_any [simp]: "unescape (CHR ''?'') m = (CHR ''?'', m)"
  by (simp add: unescape_def)

lemma glob_min_len: "glob m s \<Longrightarrow> min_len m \<le> length s"
proof (induction m arbitrary: s rule: min_len.induct)
  case (2 ch m)
  consider "ch = CHR ''*''" | "ch = CHR ''?''" | "ch \<noteq> CHR ''*''" "ch \<noteq> CHR ''?''" by blast
  then show ?case
  proof cases
    case 1
    with "2.prems" obtain k where "glob m (drop k s)" by (auto simp: glob_star starred_def)
    with "2.IH"(1) 1 have "min_len m \<le> length (drop k s)" by blast
    with 1 show ?thesis by simp
  next
    case 2
    with "2.IH"(2)  "2.prems" show ?thesis by (cases s) auto
  next
    case 3
    obtain c m' where "unescape ch m = (c, m')" by fastforce
    with 3 "2.IH"(2)  "2.prems" show ?thesis
      by (cases s) (auto simp: glob_literal)
  qed
qed simp

lemma starred_min_len: "starred m s \<Longrightarrow> min_len m \<le> length s"
  using glob_min_len [of "CHR ''*'' # m" s] by (simp add: glob_star)

lemma match_chunk_fail: "match_chunk m s = Chunk_Fail \<Longrightarrow> length s < min_len m"
proof (induction m s rule: match_chunk.induct)
  case (2 ch m s)
  then show ?case by (auto split: if_splits list.splits prod.splits)
qed (simp split: if_splits)

lemma match_chunk_retry: "match_chunk m s = Chunk_Retry \<Longrightarrow> \<not> glob m s"
proof (induction m s rule: match_chunk.induct)
  case (2 ch m s)
  then show ?case by (cases s) (auto simp: glob_literal split: if_splits prod.splits)
qed (simp split: if_splits)

lemma match_chunk_match: "match_chunk m s = Chunk_Match \<Longrightarrow> glob m s"
proof (induction m s rule: match_chunk.induct)
  case (2 ch m s)
  then show ?case by (auto simp: glob_literal split: if_splits list.splits prod.splits)
qed (simp split: if_splits)

text \<open>A chunk that ends in a star fixes how many characters it takes: \<open>n\<close>, wherever it matches.\<close>

lemma match_chunk_star:
  "match_chunk m s = Chunk_Star m' s' \<Longrightarrow>
     \<exists>n. n \<le> length s \<and> s' = drop n s \<and> (starred m' s' \<longrightarrow> glob m s) \<and>
         (\<forall>t. glob m t \<longrightarrow> starred m' (drop n t))"
proof (induction m s rule: match_chunk.induct)
  case (2 ch m s)
  consider "ch = CHR ''*''" | "ch = CHR ''?''" | "ch \<noteq> CHR ''*''" "ch \<noteq> CHR ''?''" by blast
  then show ?case
  proof cases
    case 1
    with "2.prems" show ?thesis
      by (intro exI [of _ 0]) (auto simp: glob_star)
  next
    case 2
    with "2.prems" obtain c t where s: "s = c # t" "match_chunk m t = Chunk_Star m' s'"
      by (auto split: list.splits)
    with "2.IH"(1) 2 obtain n where "n \<le> length t" "s' = drop n t" "starred m' s' \<longrightarrow> glob m t"
      "\<forall>t. glob m t \<longrightarrow> starred m' (drop n t)" by auto
    with s 2 show ?thesis by (intro exI [of _ "Suc n"]) (auto simp: drop_Suc)
  next
    case 3
    obtain c' m1 where u: "unescape ch m = (c', m1)" by fastforce
    with 3 "2.prems" obtain c t where s: "s = c # t" "rfc_tolower c = rfc_tolower c'"
        "match_chunk m1 t = Chunk_Star m' s'"
      by (auto split: list.splits if_splits)
    with "2.IH"(2)  [OF 3 u [symmetric]] obtain n where "n \<le> length t" "s' = drop n t"
      "starred m' s' \<longrightarrow> glob m1 t" "\<forall>t. glob m1 t \<longrightarrow> starred m' (drop n t)" by auto
    with s 3 u show ?thesis by (intro exI [of _ "Suc n"]) (auto simp: drop_Suc glob_literal)
  qed
qed (simp split: if_splits)

text \<open>Skipping after a star keeps the question and stops at a literal.\<close>

lemma star_skip_correct:
  "star_skip m s m = r \<Longrightarrow>
     (case r of
        Skip_Fail \<Rightarrow> \<not> starred m s
      | Skip_All \<Rightarrow> starred m s
      | Skip_Char c m1 s1 bm \<Rightarrow>
          (starred m s \<longleftrightarrow> starred bm s1) \<and> min_len bm = Suc (min_len m1) \<and>
          (\<forall>t. glob bm t \<longleftrightarrow> t \<noteq> [] \<and> rfc_tolower (hd t) = rfc_tolower c \<and> glob m1 (tl t)))"
proof (induction m arbitrary: s)
  case Nil
  then show ?case by (auto simp: starred_Nil)
next
  case (Cons ch m)
  consider "ch = CHR ''*''" | "ch = CHR ''?''" | "ch \<noteq> CHR ''*''" "ch \<noteq> CHR ''?''" by blast
  then show ?case
  proof cases
    case 1
    with Cons.prems Cons.IH show ?thesis by (simp add: starred_star cong: skip_result.case_cong)
  next
    case 2
    with Cons.prems Cons.IH show ?thesis
      by (cases s) (auto simp: starred_any split: skip_result.splits)
  next
    case 3
    with Cons.prems show ?thesis by (auto simp: glob_literal split: prod.splits)
  qed
qed

lemma seek_correct:
  assumes lit: "\<And>t. glob bm t \<longleftrightarrow> t \<noteq> [] \<and> rfc_tolower (hd t) = ch \<and> glob m1 (tl t)"
  shows "(case seek ch s of
      None \<Rightarrow> \<not> starred bm s
    | Some None \<Rightarrow> \<not> starred bm s
    | Some (Some bs) \<Rightarrow> (starred bm s \<longleftrightarrow> glob m1 bs \<or> starred bm bs))"
proof (induction s)
  case Nil
  show ?case by (simp add: starred_def lit)
next
  case (Cons c s)
  have nil: "\<not> starred bm []" by (simp add: starred_def lit)
  show ?case
  proof (cases "rfc_tolower c = ch")
    case True
    then show ?thesis by (auto simp: starred_Cons lit)
  next
    case False
    then have "starred bm (c # s) \<longleftrightarrow> starred bm s" by (auto simp: starred_Cons lit)
    with False Cons nil show ?thesis by (auto split: option.splits)
  qed
qed

lemma got_star_correct: "got_star m s = Some (starred m s) \<or> got_star m s = None \<and> \<not> starred m s"
proof (induction m s rule: got_star.induct)
  case (1 m s)
  show ?case
  proof (cases "star_skip m s m")
    case (Skip_Char c m1 s1 bm)
    from star_skip_correct [OF Skip_Char]
    have eq: "starred m s \<longleftrightarrow> starred bm s1" and ml: "min_len bm = Suc (min_len m1)"
      and lit: "\<And>t. glob bm t \<longleftrightarrow> t \<noteq> [] \<and> rfc_tolower (hd t) = rfc_tolower c \<and> glob m1 (tl t)"
      by auto
    note seek = seek_correct [of bm "rfc_tolower c" m1 s1, OF lit]
    consider "seek (rfc_tolower c) s1 = None" | "seek (rfc_tolower c) s1 = Some None"
      | bs where "seek (rfc_tolower c) s1 = Some (Some bs)" by (metis option.exhaust)
    then show ?thesis
    proof cases
      case 3
      with seek have or: "starred bm s1 \<longleftrightarrow> glob m1 bs \<or> starred bm bs" by simp
      show ?thesis
      proof (cases "match_chunk m1 bs")
        case Chunk_Fail
        then have "\<not> glob m1 bs" "\<not> starred bm bs"
          using match_chunk_fail [OF Chunk_Fail] glob_min_len [of m1 bs] starred_min_len [of bm bs] ml by auto
        with or eq Chunk_Fail 3 Skip_Char show ?thesis by (subst (1 2) got_star.simps) simp
      next
        case Chunk_Retry
        with "1.IH"(1) [OF Skip_Char 3 refl] match_chunk_retry [OF Chunk_Retry] or eq 3 Skip_Char
        show ?thesis by (subst (1 2) got_star.simps) simp
      next
        case (Chunk_Star m' s')
        from match_chunk_star [OF Chunk_Star] obtain n where n: "s' = drop n bs"
          "starred m' s' \<longrightarrow> glob m1 bs" "\<forall>t. glob m1 t \<longrightarrow> starred m' (drop n t)" by blast
        have "starred m' s'" if st: "starred bm bs"
        proof -
          obtain k where "glob bm (drop k bs)" using st by (auto simp: starred_def)
          then have "starred m' (drop n (drop (Suc k) bs))" using lit n(3) by (auto simp: tl_drop drop_Suc)
          then have "starred m' (drop (Suc k) (drop n bs))" by (simp add: add.commute)
          then show ?thesis using starred_drop n(1) by blast
        qed
        then have "starred bm s1 \<longleftrightarrow> starred m' s'" using or n by (metis drop0)
        with "1.IH"(2) [OF Skip_Char 3 refl Chunk_Star] eq 3 Skip_Char Chunk_Star
        show ?thesis by (subst (1 2) got_star.simps) simp
      next
        case Chunk_Match
        with match_chunk_match [OF Chunk_Match] or eq 3 Skip_Char
        show ?thesis by (subst (1 2) got_star.simps) simp
      qed
    qed (use seek eq Skip_Char in \<open>subst (1 2) got_star.simps; simp\<close>)+
  qed (use star_skip_correct [of m s] in \<open>subst (1 2) got_star.simps; force\<close>)+
qed

lemma match_head_correct:
  "(case match_head m s of
      Head_Fail \<Rightarrow> \<not> glob m s
    | Head_End s' \<Rightarrow> (glob m s \<longleftrightarrow> s' = [])
    | Head_Star m' s' \<Rightarrow> (glob m s \<longleftrightarrow> starred m' s'))"
proof (induction m s rule: match_head.induct)
  case (2 ch m s)
  consider "ch = CHR ''*''" | "ch = CHR ''?''" | "ch \<noteq> CHR ''*''" "ch \<noteq> CHR ''?''" by blast
  then show ?case
  proof cases
    case 1
    then show ?thesis using glob_star [of m s] by simp
  next
    case 2
    with "2.IH"(1) show ?thesis by (cases s) (auto cong: head_result.case_cong)
  next
    case 3
    obtain c m' where "unescape ch m = (c, m')" by fastforce
    with 3 "2.IH"(2) show ?thesis
      by (cases s) (auto simp: glob_literal cong: head_result.case_cong)
  qed
qed simp

lemma match_glob: "match m s = Some (glob m s) \<or> match m s = None \<and> \<not> glob m s"
  using match_head_correct [of m s] got_star_correct
  by (cases "match_head m s") (force simp: match_def)+

section \<open>Properties\<close>

text \<open>C18: The wildcard matcher used for ignore masks, highlights and bans accepts exactly the strings the mask
  describes. The hand-written backtracking of \<open>match\<close> (with its jumps between three loops) returns true if and only if the
  reference matcher accepts, and every defined result equals the reference's.\<close>

theorem match_correct:
  "(match msk str = Some True) = glob msk str \<and> match msk str \<in> {Some (glob msk str), None}"
  using match_glob [of msk str] by auto

text \<open>\<open>match\<close> reads behind the end of the string: after a star has consumed the whole string and a literal
  follows in the mask, the search loop starts one character behind the terminator (the model's undefined
  result), for instance for mask \<open>a*b\<close> and string \<open>a\<close>. Masks without a star never do.\<close>

theorem match_reads_past_terminator:
  "match ''a*b'' ''a'' = None \<and> (CHR ''*'' \<in> set msk \<or> match msk str = Some (glob msk str))"
proof -
  have "match_head m s \<noteq> Head_Star m' s'" if "CHR ''*'' \<notin> set m" for m s m' s'
    using that
  proof (induction m s rule: match_head.induct)
    case (2 ch m s)
    obtain c m1 where u: "unescape ch m = (c, m1)" by fastforce
    then have "set m1 \<subseteq> set m" by (cases m) (auto simp: unescape_def split: if_splits)
    with 2 u show ?case by (cases s) auto
  qed simp
  then have "match msk str \<noteq> None" if "CHR ''*'' \<notin> set msk"
    using that by (auto simp: match_def split: head_result.splits)
  moreover have "match ''a*b'' ''a'' = None" by code_simp
  ultimately show ?thesis
    using match_glob [of msk str] by (cases "match msk str") auto
qed

text \<open>\<open>rfc_casecmp\<close> is 0 exactly on strings that fold to the same RFC 1459 lower case, is antisymmetric, and
  orders ASCII strings transitively, so it may order the user tree.\<close>

theorem rfc_casecmp_order:
  assumes "plain_nick x" "plain_nick y" "plain_nick z"
  shows "(rfc_casecmp x y = 0 \<longleftrightarrow> rfc_strlower x = rfc_strlower y) \<and> rfc_casecmp y x = - rfc_casecmp x y \<and>
     (rfc_casecmp x y < 0 \<and> rfc_casecmp y z < 0 \<longrightarrow> rfc_casecmp x z < 0)"
  using rfc_casecmp_eq_0 [of x y] rfc_casecmp_anti [of y x] rfc.le_less_trans' [OF assms] assms
  by (auto simp: plain_nick_def)

theorem rfc_casecmp_order_witness:
  "(rfc_casecmp ''Ann'' ''aNN'' = 0 \<longleftrightarrow> rfc_strlower ''Ann'' = rfc_strlower ''aNN'') \<and>
   rfc_casecmp ''aNN'' ''Ann'' = - rfc_casecmp ''Ann'' ''aNN''"
  using rfc_casecmp_order [of "''Ann''" "''aNN''" "''bob''"] by (simp add: plain_nick_def ascii_def uchar_def)

text \<open>With bytes above 127 \<open>rfc_casecmp\<close> is not an order: \<open>a\<close> is below \<open>ab\<close>, \<open>ab\<close> is below
  \<open>a\<close> followed by the byte 0xE9, and that is below \<open>a\<close> again, because the last difference is taken on signed
  characters.\<close>

theorem rfc_casecmp_cycle:
  "rfc_casecmp ''a'' ''ab'' < 0 \<and> rfc_casecmp ''ab'' [CHR ''a'', CHR 0xE9] < 0 \<and>
   rfc_casecmp [CHR ''a'', CHR 0xE9] ''a'' < 0"
  by code_simp

end
