(* ===== verification/Textutil.thy ===== *)
theory Textutil
  imports Wildcard "HOL-Library.Sublist"
begin

text \<open>
  The other text routines of \<open>src/src/common/util.c\<close>: stripping of mIRC formatting, bounded copies,
  tokenising, line reading, path splitting, string hashes and key normalisation.
  The table \<open>g_utf8_skip\<close> of GLib is the parameter \<open>skip\<close>: the length of the UTF-8 sequence that
  starts with a given byte.
\<close>

section \<open>Formatting codes\<close>

abbreviation (input) STRIP_COLOR :: int where "STRIP_COLOR \<equiv> 1"
abbreviation (input) STRIP_ATTRIB :: int where "STRIP_ATTRIB \<equiv> 2"
abbreviation (input) STRIP_HIDDEN :: int where "STRIP_HIDDEN \<equiv> 4"
abbreviation (input) STRIP_ALL :: int where "STRIP_ALL \<equiv> 7"

abbreviation (input) HIDDEN_CHAR :: char where "HIDDEN_CHAR \<equiv> CHR 0x08"
abbreviation (input) ATTR_COLOR :: char where "ATTR_COLOR \<equiv> CHR 0x03"

definition attr_chars :: "char list" where
  "attr_chars =
     [CHR 0x07, CHR 0x0F, CHR 0x16, CHR 0x02, CHR 0x1F, CHR 0x1E, CHR 0x1D]"

text \<open>One character outside a colour number: is it dropped, and does it open a colour?\<close>

definition strip_char :: "int \<Rightarrow> char \<Rightarrow> bool" where
  "strip_char flags c =
     (if c = ATTR_COLOR then flags AND STRIP_COLOR \<noteq> 0
      else if c = HIDDEN_CHAR then flags AND STRIP_HIDDEN \<noteq> 0
      else if c \<in> set attr_chars then flags AND STRIP_ATTRIB \<noteq> 0
      else False)"

text \<open>The loop of \<open>strip_color2\<close>: \<open>n\<close> characters are left, \<open>rcol\<close> digits of a colour number may
  still come, \<open>bg\<close> says that its background part has begun. \<open>src[1]\<close> may lie behind the \<open>n\<close>
  characters; a length beyond the terminator is undefined.\<close>

fun strip_loop :: "int \<Rightarrow> nat \<Rightarrow> string \<Rightarrow> nat \<Rightarrow> bool \<Rightarrow> string option" where
  "strip_loop flags 0 src rcol bg = Some []"
| "strip_loop flags (Suc n) [] rcol bg = (if n = 0 then Some [NUL] else None)"
| "strip_loop flags (Suc n) (c # src) rcol bg =
     (if 0 < rcol \<and> (is_digit c \<or> c = CHR '','' \<and> is_digit (chd src) \<and> \<not> bg)
      then
        (let rcol' = (if chd src \<noteq> CHR '','' then rcol - 1 else rcol)
         in if c = CHR '','' then strip_loop flags n src 2 True
            else strip_loop flags n src rcol' bg)
      else if strip_char flags c
      then strip_loop flags n src (if c = ATTR_COLOR then 2 else 0) False
      else map_option ((#) c) (strip_loop flags n src 0 False))"

text \<open>The length \<open>-1\<close> of the source is \<open>None\<close>. The result is the text written to \<open>dst\<close>.\<close>

definition strip_color2 :: "string \<Rightarrow> nat option \<Rightarrow> int \<Rightarrow> string option" where
  "strip_color2 src len flags =
     strip_loop flags (case len of None \<Rightarrow> length src | Some n \<Rightarrow> n) src 0 False"

definition strip_hidden_attribute :: "string \<Rightarrow> string" where
  "strip_hidden_attribute src = filter (\<lambda>c. c \<noteq> HIDDEN_CHAR) src"

text \<open>\<open>strip_color\<close> with the GLib function \<open>g_markup_escape_text\<close> as a parameter.\<close>

definition strip_color :: "(string \<Rightarrow> string) \<Rightarrow> string \<Rightarrow> nat option \<Rightarrow> int \<Rightarrow> string option" where
  "strip_color markup_escape text len flags =
     map_option (\<lambda>s. if flags AND 8 \<noteq> 0 then markup_escape s else s) (strip_color2 text len flags)"

lemma strip_loop_total:
  "n \<le> length src \<Longrightarrow> \<exists>r. strip_loop flags n src rcol bg = Some r \<and> subseq r (take n src)"
proof (induction flags n src rcol bg rule: strip_loop.induct)
  case (3 flags n c src rcol bg)
  let ?in = "0 < rcol \<and> (is_digit c \<or> c = CHR '','' \<and> is_digit (chd src) \<and> \<not> bg)"
  consider "?in" "c = CHR '',''" | "?in" "c \<noteq> CHR '',''" | "\<not> ?in" "strip_char flags c"
    | "\<not> ?in" "\<not> strip_char flags c" by blast
  then show ?case
  proof cases
    case 1
    with 3 show ?thesis by (auto simp: Let_def intro: list_emb_Cons)
  next
    case 2
    with 3 show ?thesis by (auto simp: Let_def intro: list_emb_Cons)
  next
    case 3
    with "3.IH"(3) "3.prems" show ?thesis by (auto intro: list_emb_Cons)
  next
    case 4
    with "3.IH"(4) "3.prems" show ?thesis by (auto simp: Let_def)
  qed
qed auto

lemma strip_loop_clean:
  "strip_loop flags n src rcol bg = Some r \<Longrightarrow> n \<le> length src \<Longrightarrow> c \<in> set r \<Longrightarrow> \<not> strip_char flags c"
proof (induction flags n src rcol bg arbitrary: r rule: strip_loop.induct)
  case (3 flags n c' src rcol bg)
  then show ?case by (auto simp: Let_def split: if_splits)
qed auto

lemma strip_loop_plain:
  "list_all (\<lambda>c. \<not> strip_char flags c) src \<Longrightarrow> strip_loop flags (length src) src 0 False = Some src"
  by (induction src) auto

section \<open>Bounded copy\<close>

text \<open>\<open>safe_strcpy\<close>: the string left in \<open>dest\<close>, without its terminator. A sequence that claims more
  bytes than the source has runs over the terminator; a table entry 0 would never advance.\<close>

function safe_strcpy :: "(char \<Rightarrow> nat) \<Rightarrow> string \<Rightarrow> int \<Rightarrow> string option" where
  "safe_strcpy skip src bytes_left =
     (let mbl = skip (chd src)
      in if bytes_left < int mbl + 1 then Some []
         else if mbl = 1 then
           (case src of
              [] \<Rightarrow> Some []
            | c # s \<Rightarrow> map_option ((#) c) (safe_strcpy skip s (bytes_left - 1)))
         else if mbl = 0 \<or> length src < mbl then None
         else map_option ((@) (take mbl src)) (safe_strcpy skip (drop mbl src) (bytes_left - int mbl)))"
  by pat_completeness auto
termination
  by (relation "measure (\<lambda>(skip, src, b). length src)") auto

declare safe_strcpy.simps [simp del]

text \<open>Text whose sequences are complete, as the source's comment asks for.\<close>

function valid_utf8 :: "(char \<Rightarrow> nat) \<Rightarrow> string \<Rightarrow> bool" where
  "valid_utf8 skip src =
     (src = [] \<or>
      (if 0 < skip (chd src) \<and> skip (chd src) \<le> length src
       then valid_utf8 skip (drop (skip (chd src)) src) else False))"
  by pat_completeness auto
termination
  by (relation "measure (\<lambda>(skip, src). length src)") auto

declare valid_utf8.simps [simp del]

lemma valid_utf8_Nil [simp]: "valid_utf8 skip []"
  by (subst valid_utf8.simps) simp

lemma valid_utf8_append_seq:
  assumes "0 < skip (chd src)" "skip (chd src) \<le> length src" "valid_utf8 skip r"
  shows "valid_utf8 skip (take (skip (chd src)) src @ r)"
proof -
  have "chd (take (skip (chd src)) src @ r) = chd src"
    using assms(1,2) by (cases src; cases "skip (chd src)") auto
  with assms show ?thesis by (subst valid_utf8.simps) auto
qed

lemma safe_strcpy_spec:
  "skip NUL = 1 \<Longrightarrow> valid_utf8 skip src \<Longrightarrow> 1 \<le> n \<Longrightarrow>
     \<exists>r. safe_strcpy skip src n = Some r \<and> prefix r src \<and> int (length r) < n \<and> valid_utf8 skip r \<and>
         (int (length src) < n \<longrightarrow> r = src)"
proof (induction skip src n rule: safe_strcpy.induct)
  case (1 skip src n)
  define k where "k = skip (chd src)"
  show ?case
  proof (cases "n < int k + 1 \<or> src = []")
    case True
    then have "safe_strcpy skip src n = Some []"
      using "1.prems"(1) by (subst safe_strcpy.simps) (auto simp: k_def Let_def split: list.splits)
    moreover have "int (length src) < n \<longrightarrow> src = []"
      using True "1.prems"(2) by (subst (asm) valid_utf8.simps) (auto simp: k_def split: if_splits)
    ultimately show ?thesis using "1.prems" by auto
  next
    case False
    then have k: "0 < k" "k \<le> length src" and v: "valid_utf8 skip (drop k src)"
      using "1.prems"(2) by (subst (asm) valid_utf8.simps; auto simp: k_def split: if_splits)+
    have unf: "safe_strcpy skip src n =
        map_option ((@) (take k src)) (safe_strcpy skip (drop k src) (n - int k))"
      using False k
      by (subst safe_strcpy.simps)
         (auto simp: Let_def take_Suc simp flip: k_def split: list.splits intro!: option.map_cong)
    obtain r where r: "safe_strcpy skip (drop k src) (n - int k) = Some r" "prefix r (drop k src)"
      "int (length r) < n - int k" "valid_utf8 skip r"
      "int (length (drop k src)) < n - int k \<longrightarrow> r = drop k src"
    proof (cases "k = 1")
      case True
      obtain c s where cs: "src = c # s" using False by (cases src) auto
      then have "skip c = 1" using True by (simp add: k_def)
      with cs "1.IH"(1) [of k c s] "1.prems"(1) True False v that show ?thesis by (auto simp flip: k_def)
    next
      case neq: False
      with "1.IH"(2) [of k] "1.prems"(1) False k v that show ?thesis by (auto simp flip: k_def)
    qed
    have "prefix (take k src @ r) src"
      using r(2) by (metis append_take_drop_id same_prefix_prefix)
    moreover have "valid_utf8 skip (take k src @ r)"
      using valid_utf8_append_seq k r(4) unfolding k_def by blast
    moreover have "int (length src) < n \<longrightarrow> take k src @ r = src"
      using r(5) k(2) by auto
    ultimately show ?thesis using unf r k(2) by auto
  qed
qed

text \<open>What is documented of \<open>g_utf8_skip\<close> and used for ASCII text: one byte per character.\<close>

definition ascii_skip :: "(char \<Rightarrow> nat) \<Rightarrow> bool" where
  "ascii_skip skip \<longleftrightarrow> (\<forall>c. uchar c < 128 \<longrightarrow> skip c = 1)"

lemma safe_strcpy_short_skip:
  assumes "\<And>c. uchar c < 128 \<Longrightarrow> skip c = 1"
  shows "ascii src \<Longrightarrow> 1 \<le> n \<Longrightarrow> safe_strcpy skip src n = Some (take (nat n - 1) src)"
proof (induction src arbitrary: n)
  case Nil
  then show ?case by (subst safe_strcpy.simps) (simp add: assms)
next
  case (Cons c s)
  then show ?case
    by (subst safe_strcpy.simps) (auto simp: assms Let_def take_Cons' nat_diff_distrib)
qed

section \<open>Tokens and lines\<close>

text \<open>\<open>token_foreach\<close> with the callback's user data as the state \<open>'s\<close>; \<open>cur\<close> is the token being
  read, last character first.\<close>

fun token_foreach :: "char \<Rightarrow> (string \<Rightarrow> 's \<Rightarrow> int \<times> 's) \<Rightarrow> string \<Rightarrow> string \<Rightarrow> 's \<Rightarrow> bool \<times> 's" where
  "token_foreach sep f cur [] s = (case f (rev cur) s of (r, s') \<Rightarrow> (\<not> r < 1, s'))"
| "token_foreach sep f cur (c # str) s =
     (if c = sep then
        (case f (rev cur) s of (r, s') \<Rightarrow>
           if r < 1 then (False, s') else token_foreach sep f [] str s')
      else token_foreach sep f (c # cur) str s)"

fun join_sep :: "char \<Rightarrow> string list \<Rightarrow> string" where
  "join_sep sep [] = []"
| "join_sep sep [t] = t"
| "join_sep sep (t # ts) = t @ sep # join_sep sep ts"

lemma token_foreach_skip:
  "sep \<notin> set t \<Longrightarrow> token_foreach sep f cur (t @ rest) s = token_foreach sep f (rev t @ cur) rest s"
  by (induction t arbitrary: cur) auto

text \<open>The callback sees exactly the separator-free tokens of the string, in order, until it refuses
  one.\<close>

fun visit :: "(string \<Rightarrow> 's \<Rightarrow> int \<times> 's) \<Rightarrow> string list \<Rightarrow> 's \<Rightarrow> bool \<times> 's" where
  "visit f [] s = (True, s)"
| "visit f (t # ts) s = (case f t s of (r, s') \<Rightarrow> if r < 1 then (False, s') else visit f ts s')"

lemma token_foreach_visit:
  "ts \<noteq> [] \<Longrightarrow> (\<forall>t \<in> set ts. sep \<notin> set t) \<Longrightarrow>
     token_foreach sep f [] (join_sep sep ts) s = visit f ts s"
proof (induction sep ts arbitrary: s rule: join_sep.induct)
  case (2 sep t)
  then show ?case using token_foreach_skip [of sep t f "[]" "[]"] by (auto split: prod.splits)
next
  case (3 sep t t' ts)
  then show ?case using token_foreach_skip [of sep t f "[]"] by (auto split: prod.splits)
qed simp

text \<open>\<open>buf_get_line\<close>: the next line of the first \<open>len\<close> bytes of \<open>ibuf\<close> from \<open>position\<close> on, without
  \<open>\n\<close> or \<open>\r\n\<close>, and the position behind it; \<open>None\<close> is the result 0.\<close>

definition buf_get_line :: "string \<Rightarrow> nat \<Rightarrow> nat \<Rightarrow> (string \<times> nat) option" where
  "buf_get_line ibuf position len =
     (if position = len then None
      else
        (let seg = take (len - position) (drop position ibuf);
             l = takeWhile (\<lambda>c. c \<noteq> CHR 0x0A) seg
         in if length l = length seg then None
            else Some (if l \<noteq> [] \<and> last l = CHR 0x0D then butlast l else l, position + length l + 1)))"

text \<open>The \<open>while (buf_get_line (...))\<close> loop of its callers.\<close>

function buf_all_lines :: "string \<Rightarrow> nat \<Rightarrow> nat \<Rightarrow> string list" where
  "buf_all_lines ibuf position len =
     (if len \<le> position then []
      else case buf_get_line ibuf position len of
             None \<Rightarrow> []
           | Some (l, p) \<Rightarrow> l # buf_all_lines ibuf p len)"
  by pat_completeness auto
termination
  by (relation "measure (\<lambda>(b, p, n). n - p)")
     (auto simp: buf_get_line_def Let_def split: if_splits)

declare buf_all_lines.simps [simp del]

definition unlines_nl :: "string list \<Rightarrow> string" where
  "unlines_nl ls = concat (map (\<lambda>l. l @ [CHR 0x0A]) ls)"

definition text_line :: "string \<Rightarrow> bool" where
  "text_line l \<longleftrightarrow> CHR 0x0A \<notin> set l \<and> (l \<noteq> [] \<longrightarrow> last l \<noteq> CHR 0x0D)"

lemma buf_get_line_hit:
  assumes "text_line l"
  shows "buf_get_line (pre @ l @ CHR 0x0A # post) (length pre) (length (pre @ l @ CHR 0x0A # post)) =
     Some (l, length pre + length l + 1)"
proof -
  have "takeWhile (\<lambda>c. c \<noteq> CHR 0x0A) (l @ CHR 0x0A # post) = l"
    using assms by (subst takeWhile_append2) (auto simp: text_line_def)
  then show ?thesis
    using assms by (auto simp: buf_get_line_def Let_def text_line_def)
qed

lemma buf_all_lines_from:
  "\<forall>l \<in> set ls. text_line l \<Longrightarrow>
     buf_all_lines (pre @ unlines_nl ls) (length pre) (length (pre @ unlines_nl ls)) = ls"
proof (induction ls arbitrary: pre)
  case Nil
  then show ?case by (subst buf_all_lines.simps) (simp add: unlines_nl_def)
next
  case (Cons l ls)
  have eq: "pre @ unlines_nl (l # ls) = pre @ l @ CHR 0x0A # unlines_nl ls"
    by (simp add: unlines_nl_def)
  have "buf_all_lines ((pre @ l @ [CHR 0x0A]) @ unlines_nl ls) (length (pre @ l @ [CHR 0x0A]))
      (length ((pre @ l @ [CHR 0x0A]) @ unlines_nl ls)) = ls"
    by (rule Cons.IH) (use Cons.prems in simp)
  then show ?case
    using buf_get_line_hit [of l pre "unlines_nl ls"] Cons.prems unfolding eq
    by (subst buf_all_lines.simps) (simp add: ac_simps)
qed

text \<open>\<open>g_strsplit\<close> with a one-character separator and no limit: the empty string has no tokens.\<close>

fun split_sep :: "char \<Rightarrow> string \<Rightarrow> string \<Rightarrow> string list" where
  "split_sep sep cur [] = [rev cur]"
| "split_sep sep cur (c # s) = (if c = sep then rev cur # split_sep sep [] s else split_sep sep (c # cur) s)"

definition g_strsplit :: "string \<Rightarrow> char \<Rightarrow> string list" where
  "g_strsplit s sep = (if s = [] then [] else split_sep sep [] s)"

lemma split_sep_word: "sep \<notin> set w \<Longrightarrow> split_sep sep cur (w @ s) = split_sep sep (rev w @ cur) s"
  by (induction w arbitrary: cur) auto

lemma split_sep_join: "ts \<noteq> [] \<Longrightarrow> \<forall>t \<in> set ts. sep \<notin> set t \<Longrightarrow> split_sep sep [] (join_sep sep ts) = ts"
proof (induction sep ts rule: join_sep.induct)
  case (2 sep t)
  then show ?case using split_sep_word [of sep t "[]" "[]"] by simp
next
  case (3 sep t t' ts)
  then show ?case using split_sep_word [of sep t "[]"] by simp
qed simp

lemma g_strsplit_join:
  assumes "ts \<noteq> []" "ts \<noteq> [[]]" "\<forall>t \<in> set ts. sep \<notin> set t"
  shows "g_strsplit (join_sep sep ts) sep = ts"
proof -
  obtain t ts' where ts: "ts = t # ts'" using assms(1) by (cases ts) auto
  have "join_sep sep ts \<noteq> []" using assms(2) by (cases ts') (auto simp: ts)
  then show ?thesis using split_sep_join [OF assms(1,3)] by (simp add: g_strsplit_def)
qed

section \<open>Paths, keys, hashes\<close>

text \<open>\<open>filepart\<close> follows the last slash (POSIX build).\<close>

fun file_part_from :: "string \<Rightarrow> string \<Rightarrow> string" where
  "file_part_from filepart [] = filepart"
| "file_part_from filepart (c # file) = file_part_from (if c = CHR ''/'' then file else filepart) file"

definition file_part :: "string option \<Rightarrow> string" where
  "file_part file = (case file of None \<Rightarrow> [] | Some f \<Rightarrow> file_part_from f f)"

definition path_part :: "(char \<Rightarrow> nat) \<Rightarrow> string \<Rightarrow> int \<Rightarrow> string option" where
  "path_part skip file pathlen =
     safe_strcpy skip (take (length file - length (file_part (Some file))) file) pathlen"

lemma file_part_from_suffix:
  "suffix fp f0 \<Longrightarrow> suffix rest f0 \<Longrightarrow> suffix (file_part_from fp rest) f0"
  by (induction rest arbitrary: fp) (auto dest: suffix_ConsD)

lemma file_part_from_no_slash:
  "(CHR ''/'' \<in> set fp \<Longrightarrow> CHR ''/'' \<in> set rest) \<Longrightarrow> CHR ''/'' \<notin> set (file_part_from fp rest)"
  by (induction rest arbitrary: fp) auto

definition text_has_interior_newline :: "string option \<Rightarrow> bool" where
  "text_has_interior_newline text =
     (case text of
        None \<Rightarrow> False
      | Some t \<Rightarrow>
          (case c_strchr_at t (CHR 0x0A) of None \<Rightarrow> False | Some nl \<Rightarrow> chd (tl nl) \<noteq> NUL))"

text \<open>\<open>canonalize_key\<close>; \<open>tolower\<close> acts on letters only here.\<close>

definition canon_char :: "char \<Rightarrow> char" where
  "canon_char c =
     (if c \<noteq> CHR ''_'' \<and> \<not> is_digit c \<and> \<not> (65 \<le> uchar c \<and> uchar c \<le> 90) \<and> \<not> (97 \<le> uchar c \<and> uchar c \<le> 122)
      then CHR ''_''
      else if 65 \<le> uchar c \<and> uchar c \<le> 90 then char_of (uchar c + 32) else c)"

definition canonalize_key :: "string \<Rightarrow> string" where
  "canonalize_key key = map canon_char key"

text \<open>\<open>h = (h << 5) - h + *p\<close> on 32 bits, the bytes sign-extended.\<close>

definition str_hash :: "string \<Rightarrow> u32" where
  "str_hash key =
     foldl (\<lambda>h c. push_bit 5 h - h + word_of_int (schar c)) (word_of_int (schar (chd key))) (tl key)"

text \<open>\<open>rfc_tolowertab [(guint)*p]\<close> with a plain \<open>char\<close>: a byte above 127 is sign-extended and indexes
  far outside the table.\<close>

definition ihash_char :: "char \<Rightarrow> u32 option" where
  "ihash_char c = (if 0 \<le> schar c then Some (of_nat (rfc_tolowertab ! nat (schar c))) else None)"

fun ihash_loop :: "u32 \<Rightarrow> string \<Rightarrow> u32 option" where
  "ihash_loop h [] = Some h"
| "ihash_loop h (c # s) = do { v \<leftarrow> ihash_char c; ihash_loop (push_bit 5 h - h + v) s }"

definition str_ihash :: "string \<Rightarrow> u32 option" where
  "str_ihash key = do { h \<leftarrow> ihash_char (chd key); ihash_loop h (tl key) }"

text \<open>\<open>waitline\<close>: \<open>inp\<close> is what the socket delivers until a read fails. The result is \<open>-1\<close> (\<open>None\<close>) or
  the line with what is left to read; \<open>i\<close> bytes are in the buffer.\<close>

fun waitline_from :: "nat \<Rightarrow> int \<Rightarrow> string \<Rightarrow> string \<Rightarrow> (string \<times> string) option" where
  "waitline_from i bufsize buf [] = None"
| "waitline_from i bufsize buf (c # inp) =
     (if c = CHR 0x0A \<or> bufsize = int (i + 1) then Some (rev buf, inp)
      else waitline_from (i + 1) bufsize (c # buf) inp)"

definition waitline :: "int \<Rightarrow> string \<Rightarrow> (string \<times> string) option" where
  "waitline bufsize inp = waitline_from 0 bufsize [] inp"

lemma waitline_from_fits:
  "waitline_from i bufsize buf inp = Some (l, rest) \<Longrightarrow> length buf = i \<Longrightarrow> int i < bufsize \<Longrightarrow>
     int (length l) < bufsize"
  by (induction inp arbitrary: i buf) (auto split: if_splits)

lemma canon_char_range:
  "canon_char c = CHR ''_'' \<or> is_digit (canon_char c) \<or> 97 \<le> uchar (canon_char c) \<and> uchar (canon_char c) \<le> 122"
  by (auto simp: canon_char_def uchar_char_of)

lemma canon_char_idem: "canon_char (canon_char c) = canon_char c"
  using canon_char_range [of c]
  by (auto simp: canon_char_def [of "canon_char c"] is_digit_def) (simp_all add: uchar_def)

lemma ihash_char_fold:
  "ascii [c] \<Longrightarrow> ascii [d] \<Longrightarrow> rfc_tolower c = rfc_tolower d \<Longrightarrow> ihash_char c = ihash_char d"
proof -
  assume a: "ascii [c]" "ascii [d]" "rfc_tolower c = rfc_tolower d"
  have "ihash_char x = Some (of_nat (uchar (rfc_tolower x)))" if "uchar x < 128" for x
  proof -
    have "rfc_tolowertab ! uchar x < 256"
      using nth_mem [of "uchar x" rfc_tolowertab] uchar_less [of x] by (auto simp: rfc_tolowertab_def simp del: upt_rec_numeral)
    then show ?thesis
      using that by (simp add: ihash_char_def schar_def rfc_tolower_def uchar_char_of)
  qed
  with a show ?thesis by simp
qed

section \<open>Properties\<close>

text \<open>Stripping formatting codes from a text is always defined, only deletes characters (the result is a subsequence
  of the text), leaves none of the selected control characters, and returns a text that contains none of them
  unchanged.\<close>

theorem strip_color2_correct:
  "\<exists>r. strip_color2 src None flags = Some r \<and> subseq r src \<and> list_all (\<lambda>c. \<not> strip_char flags c) r \<and>
     (list_all (\<lambda>c. \<not> strip_char flags c) src \<longrightarrow> r = src)"
proof -
  obtain r where r: "strip_loop flags (length src) src 0 False = Some r" "subseq r (take (length src) src)"
    using strip_loop_total [of "length src" src flags 0 False] by auto
  have "list_all (\<lambda>c. \<not> strip_char flags c) r"
    using strip_loop_clean [OF r(1)] by (simp add: list_all_iff)
  with r strip_loop_plain [of flags src] show ?thesis by (auto simp: strip_color2_def)
qed

theorem strip_color2_correct_witness:
  "\<exists>r. strip_color2 (CHR 0x03 # ''4,12red'' @ [CHR 0x02]) None 3 = Some r \<and>
     subseq r (CHR 0x03 # ''4,12red'' @ [CHR 0x02]) \<and> list_all (\<lambda>c. \<not> strip_char 3 c) r \<and>
     strip_color2 (CHR 0x03 # ''4,12red'' @ [CHR 0x02]) None 3 = Some ''red''"
proof -
  have "strip_color2 (CHR 0x03 # ''4,12red'' @ [CHR 0x02]) None 3 = Some ''red''" by code_simp
  with strip_color2_correct [of "CHR 0x03 # ''4,12red'' @ [CHR 0x02]" 3] show ?thesis by blast
qed

text \<open>C37: \<open>safe_strcpy\<close> copies UTF-8 text into a buffer of \<open>n\<close> bytes: on complete sequences it is defined, the copy
  with its terminator fits, is a prefix of the source, never ends inside a sequence, and is the whole source
  when that fits.\<close>

theorem safe_strcpy_correct:
  assumes "skip NUL = 1" "valid_utf8 skip src" "1 \<le> n"
  shows "\<exists>r. safe_strcpy skip src n = Some r \<and> prefix r src \<and> int (length r) + 1 \<le> n \<and> valid_utf8 skip r \<and>
     (int (length src) < n \<longrightarrow> r = src)"
  using safe_strcpy_spec [OF assms] by force

theorem safe_strcpy_correct_witness:
  "\<exists>r. safe_strcpy (\<lambda>c. if uchar c < 192 then 1 else 2) [CHR ''a'', CHR 0xC3, CHR 0xA9] 3 = Some r \<and>
     int (length r) + 1 \<le> 3 \<and> valid_utf8 (\<lambda>c. if uchar c < 192 then 1 else 2) r"
proof -
  let ?skip = "\<lambda>c. if uchar c < 192 then 1 else 2 :: nat"
  have "valid_utf8 ?skip [CHR ''a'', CHR 0xC3, CHR 0xA9]" by code_simp
  from safe_strcpy_correct [OF _ this, of 3] show ?thesis by auto
qed

text \<open>Reading a text buffer line by line with \<open>buf_get_line\<close> inverts writing lines: from lines without line
  feed or trailing carriage return, each ended by a line feed, the loop over the buffer returns exactly those lines in
  order and ends.\<close>

theorem buf_get_line_roundtrip:
  assumes "\<forall>l \<in> set ls. text_line l"
  shows "buf_all_lines (unlines_nl ls) 0 (length (unlines_nl ls)) = ls"
  using buf_all_lines_from [OF assms, of "[]"] by simp

theorem buf_get_line_roundtrip_witness:
  "buf_all_lines (unlines_nl [''a'', [], ''bc'']) 0 (length (unlines_nl [''a'', [], ''bc''])) = [''a'', [], ''bc'']"
  by (rule buf_get_line_roundtrip) (simp add: text_line_def)

lemma ihash_loop_fold:
  "ascii s \<Longrightarrow> ascii t \<Longrightarrow> map rfc_tolower s = map rfc_tolower t \<Longrightarrow> ihash_loop h s = ihash_loop h t"
proof (induction s arbitrary: h t)
  case (Cons c s)
  then obtain d t' where t: "t = d # t'" by (cases t) auto
  with Cons.prems have "ihash_char c = ihash_char d" by (intro ihash_char_fold) (auto simp: ascii_def)
  with Cons t show ?case by (cases "ihash_char d") (auto simp: ascii_def)
qed simp

text \<open>\<open>str_ihash\<close> is compatible with \<open>rfc_casecmp\<close>: ASCII strings that compare equal hash equal, and the
  hash is defined; on a byte above 127 it indexes the folding table out of bounds.\<close>

theorem str_ihash_respects_casecmp:
  assumes "plain_nick s" "plain_nick t" "rfc_casecmp s t = 0"
  shows "str_ihash s = str_ihash t \<and> str_ihash [CHR 0xE9] = None"
proof -
  have eq: "map rfc_tolower s = map rfc_tolower t"
    using assms rfc_casecmp_eq_0 [of s t] by (simp add: plain_nick_def rfc_strlower_def)
  have "str_ihash s = str_ihash t"
  proof (cases s)
    case (Cons c s')
    then obtain d t' where t: "t = d # t'" using eq by (cases t) auto
    have "ihash_char c = ihash_char d"
      by (rule ihash_char_fold) (use assms eq Cons t in \<open>auto simp: plain_nick_def ascii_def\<close>)
    moreover have "ihash_loop h s' = ihash_loop h t'" for h
      by (rule ihash_loop_fold) (use assms eq Cons t in \<open>auto simp: plain_nick_def ascii_def\<close>)
    ultimately show ?thesis using Cons t by (simp add: str_ihash_def)
  qed (use eq in auto)
  then show ?thesis by (simp add: str_ihash_def ihash_char_def schar_def uchar_def)
qed

theorem str_ihash_respects_casecmp_witness: "str_ihash ''Nick[1]'' = str_ihash ''nICK{1}''"
proof -
  have "rfc_casecmp ''Nick[1]'' ''nICK{1}'' = 0" by code_simp
  from str_ihash_respects_casecmp [OF _ _ this] show ?thesis by (simp add: plain_nick_def ascii_def uchar_def)
qed

end
