(* ===== verification/Chat_State.thy ===== *)
theory Chat_State
  imports Textutil
begin

text \<open>
  The state the chat components share: \<open>struct User\<close> of \<open>src/src/common/userlist.h\<close> and the
  fields of \<open>struct session\<close> and \<open>struct server\<close> of \<open>src/src/common/poxchat.h\<close> that the modelled
  operations read or write. Users live in an explicit store, because the user tree, \<open>sess->me\<close>
  and the front end hold pointers to the same objects: an address that is not in the store is
  freed memory, and reading it is undefined.
  Calls into the front end (\<open>fe_*\<close>), printed text events (\<open>EMIT_SIGNAL\<close>), lines sent to the server
  and calls into components that are not modelled (\<open>Call\<close>) are recorded, in order, in the session's \<open>log\<close>.
\<close>

section \<open>Data\<close>

definition NICKLEN :: int where "NICKLEN = 64"
definition CHANLEN :: int where "CHANLEN = 300"
definition USERACCESS_SIZE :: nat where "USERACCESS_SIZE = 12"
definition PDIWORDS :: nat where "PDIWORDS = 32"

record user =
  u_nick :: string
  u_hostname :: "string option"
  u_realname :: "string option"
  u_servername :: "string option"
  u_account :: "string option"
  u_access :: u32
  u_prefix :: char
  u_op :: bool
  u_hop :: bool
  u_voice :: bool
  u_me :: bool
  u_away :: bool

definition new_user :: user where
  "new_user =
     \<lparr>u_nick = [], u_hostname = None, u_realname = None, u_servername = None, u_account = None,
      u_access = 0, u_prefix = NUL, u_op = False, u_hop = False, u_voice = False, u_me = False,
      u_away = False\<rparr>"

text \<open>What leaves the model.\<close>

datatype event =
    Fe_Userlist_Rehash addr
  | Fe_Userlist_Update addr
  | Fe_Userlist_Insert addr
  | Fe_Userlist_Remove addr
  | Fe_Userlist_Clear
  | Fe_Userlist_Numbers
  | Fe_Update_Channel_Key
  | Fe_Update_Channel_Limit
  | Fe_Update_Mode_Buttons char char
  | Fe_Set_Title
  | Notify_Set_Online string
  | Inbound_Identified
  | Fe_Set_Channel
  | Account_Required_Hint
  | Tcp_Send string
  | Retention_Published
  | Network_Icon_Fetch
  | Network_Icon_Clear
  | Emit string "string option list"
  | P_Mode string string
  | P_Join string string
  | Fe_Set_Topic string string
  | Write_Log string
  | Call string

datatype session_type = SESS_SERVER | SESS_CHANNEL | SESS_DIALOG | SESS_NOTICES | SESS_SNOTICES

record session =
  sess_type :: session_type
  users :: "addr \<rightharpoonup> user"
  next_addr :: addr
  usertree :: "addr tree option"
  sess_me :: "addr option"
  channel :: string
  channelkey :: string
  limit :: int
  ops :: int
  hops :: int
  voices :: int
  total :: int
  current_modes :: string
  ignore_mode :: bool
  ignore_date :: bool
  end_of_names :: bool
  ignore_names :: bool
  waitchannel :: string
  sess_topic :: "string option"
  doing_who :: bool
  done_away_check :: bool
  log_open :: bool
  mode_timer :: bool
  log :: "event list"

text \<open>\<open>p_cmp\<close> is a function pointer in the source too. A \<open>current_modes\<close> that is \<open>NULL\<close> is the empty
  string, as \<open>g_string_new\<close> treats it.\<close>

record server =
  p_cmp :: "string \<Rightarrow> string \<Rightarrow> int"
  my_nick :: string
  chantypes :: string
  chanmodes :: string
  nick_prefixes :: string
  nick_modes :: string
  bad_prefix :: bool
  bad_nick_prefixes :: string
  modes_per_line :: int
  have_extjoin :: bool
  supports_watch :: bool
  supports_monitor :: bool
  account_required :: bool
  end_of_motd :: bool
  client_tag_deny :: "string option"
  utf8only :: bool
  encoding :: "string option"
  have_namesx :: bool
  have_whox :: bool
  have_except :: bool
  have_invite :: bool
  use_listargs :: bool
  chathistory_limit :: int
  chathistory_retention_secs :: int
  multiline_max_bytes :: int
  multiline_max_lines :: int
  network_icon_url :: "string option"
  have_uhnames :: bool

text \<open>A server with the defaults of a plain connection.\<close>

definition blank_server :: server where
  "blank_server =
     \<lparr>p_cmp = rfc_casecmp, my_nick = ''me'', chantypes = ''#'', chanmodes = [], nick_prefixes = ''@+'', nick_modes = ''ov'',
      bad_prefix = False, bad_nick_prefixes = [], modes_per_line = 6, have_extjoin = False, supports_watch = False,
      supports_monitor = False, account_required = False, end_of_motd = True, client_tag_deny = None, utf8only = False,
      encoding = None, have_namesx = False, have_whox = False, have_except = False, have_invite = False, use_listargs = False,
      chathistory_limit = 0, chathistory_retention_secs = 0, multiline_max_bytes = 0, multiline_max_lines = 0,
      network_icon_url = None, have_uhnames = False\<rparr>"

text \<open>\<open>find_channel\<close> of \<open>src/src/common/poxchat.c\<close> over the sessions of one server, in the order of
  \<open>sess_list\<close>; the position of the session is returned.\<close>

fun find_channel :: "server \<Rightarrow> session list \<Rightarrow> string \<Rightarrow> nat option" where
  "find_channel serv [] chan = None"
| "find_channel serv (s # ss) chan =
     (if sess_type s = SESS_CHANNEL \<and> p_cmp serv chan (channel s) = 0 then Some 0
      else map_option Suc (find_channel serv ss chan))"

lemma find_channel_Some:
  "find_channel serv ss chan = Some i \<Longrightarrow>
     i < length ss \<and> sess_type (ss ! i) = SESS_CHANNEL \<and> p_cmp serv chan (channel (ss ! i)) = 0"
  by (induction ss arbitrary: i) (auto split: if_splits)

definition emit :: "event \<Rightarrow> session \<Rightarrow> session" where
  "emit e s = s\<lparr>log := log s @ [e]\<rparr>"

definition set_user :: "addr \<Rightarrow> user \<Rightarrow> session \<Rightarrow> session" where
  "set_user a u s = s\<lparr>users := (users s)(a \<mapsto> u)\<rparr>"

lemma emit_sel [simp]:
  "sess_type (emit e s) = sess_type s" "users (emit e s) = users s" "next_addr (emit e s) = next_addr s" "usertree (emit e s) = usertree s"
  "sess_me (emit e s) = sess_me s" "channel (emit e s) = channel s" "channelkey (emit e s) = channelkey s"
  "limit (emit e s) = limit s" "ops (emit e s) = ops s" "hops (emit e s) = hops s"
  "voices (emit e s) = voices s" "total (emit e s) = total s" "current_modes (emit e s) = current_modes s"
  "ignore_mode (emit e s) = ignore_mode s" "ignore_date (emit e s) = ignore_date s" "end_of_names (emit e s) = end_of_names s"
  "ignore_names (emit e s) = ignore_names s" "waitchannel (emit e s) = waitchannel s" "sess_topic (emit e s) = sess_topic s"
  "log (emit e s) = log s @ [e]"
  by (simp_all add: emit_def)

lemma set_user_sel [simp]:
  "sess_type (set_user a u s) = sess_type s" "users (set_user a u s) = (users s)(a \<mapsto> u)" "next_addr (set_user a u s) = next_addr s"
  "usertree (set_user a u s) = usertree s" "sess_me (set_user a u s) = sess_me s"
  "channel (set_user a u s) = channel s" "channelkey (set_user a u s) = channelkey s"
  "limit (set_user a u s) = limit s" "ops (set_user a u s) = ops s" "hops (set_user a u s) = hops s"
  "voices (set_user a u s) = voices s" "total (set_user a u s) = total s"
  "current_modes (set_user a u s) = current_modes s" "ignore_mode (set_user a u s) = ignore_mode s"
  "end_of_names (set_user a u s) = end_of_names s" "ignore_names (set_user a u s) = ignore_names s"
  "waitchannel (set_user a u s) = waitchannel s" "sess_topic (set_user a u s) = sess_topic s" "log (set_user a u s) = log s"
  by (simp_all add: set_user_def)

section \<open>Nickname prefixes\<close>

text \<open>\<open>src/src/common/modes.c\<close>: the tables of ISUPPORT \<open>PREFIX=(modes)prefixes\<close>, read in parallel.\<close>

fun index_of :: "char \<Rightarrow> string \<Rightarrow> nat option" where
  "index_of c [] = None"
| "index_of c (x # xs) = (if x = c then Some 0 else map_option Suc (index_of c xs))"

lemma index_of_None: "index_of c xs = None \<longleftrightarrow> c \<notin> set xs"
  by (induction xs) auto

lemma index_of_Some: "index_of c xs = Some i \<Longrightarrow> i < length xs \<and> xs ! i = c"
  by (induction xs arbitrary: i) (auto split: if_splits)

lemma index_of_distinct: "distinct xs \<Longrightarrow> i < length xs \<Longrightarrow> index_of (xs ! i) xs = Some i"
proof (induction xs arbitrary: i)
  case (Cons x xs)
  then show ?case by (cases i) auto
qed simp

definition is_channel :: "server \<Rightarrow> string \<Rightarrow> bool" where
  "is_channel serv chan = c_strchr (chantypes serv) (chd chan)"

definition is_prefix_char :: "server \<Rightarrow> char \<Rightarrow> int" where
  "is_prefix_char serv c =
     (case index_of c (nick_prefixes serv) of
        Some i \<Rightarrow> int i
      | None \<Rightarrow> (if bad_prefix serv \<and> c_strchr (bad_nick_prefixes serv) c then -2 else -1))"

definition get_nick_prefix :: "server \<Rightarrow> u32 \<Rightarrow> char" where
  "get_nick_prefix serv access =
     (case find (\<lambda>i. test_bit access i) [0..<min USERACCESS_SIZE (length (nick_prefixes serv))] of
        Some i \<Rightarrow> nick_prefixes serv ! i
      | None \<Rightarrow> NUL)"

text \<open>The access bits and the number of prefix characters.\<close>

fun nick_access_from :: "server \<Rightarrow> string \<Rightarrow> u32 \<Rightarrow> nat \<Rightarrow> (u32 \<times> nat) option" where
  "nick_access_from serv [] access n = Some (access, n)"
| "nick_access_from serv (c # nick) access n =
     (let i = is_prefix_char serv c
      in if i = -1 then Some (access, n)
         else if i \<noteq> -2 then
           do { m \<leftarrow> bit_mask i; nick_access_from serv nick (access OR m) (n + 1) }
         else nick_access_from serv nick access (n + 1))"

definition nick_access :: "server \<Rightarrow> string \<Rightarrow> (u32 \<times> nat) option" where
  "nick_access serv nick = nick_access_from serv nick 0 0"

text \<open>The bit number of a nick mode (\<open>-1\<close> when unknown) and its prefix character, which is read at the
  same index of the other table.\<close>

definition mode_access :: "server \<Rightarrow> char \<Rightarrow> (int \<times> char) option" where
  "mode_access serv mode =
     (case index_of mode (nick_modes serv) of
        Some pos \<Rightarrow> do { p \<leftarrow> c_at (nick_prefixes serv) pos; Some (int pos, p) }
      | None \<Rightarrow> Some (-1, NUL))"

text \<open>Tables a server can announce sensibly: as many modes as prefixes, no duplicates, within the
  bits of an \<open>int\<close>.\<close>

definition prefix_ok :: "server \<Rightarrow> bool" where
  "prefix_ok serv \<longleftrightarrow>
     length (nick_modes serv) = length (nick_prefixes serv) \<and> length (nick_prefixes serv) < 32 \<and>
     distinct (nick_modes serv) \<and> distinct (nick_prefixes serv) \<and>
     cstring (nick_modes serv) \<and> cstring (nick_prefixes serv)"

text \<open>Does the access field contain the bit of prefix \<open>p\<close>?\<close>

definition has_prefix :: "server \<Rightarrow> u32 \<Rightarrow> char \<Rightarrow> bool" where
  "has_prefix serv access p \<longleftrightarrow>
     (case index_of p (nick_prefixes serv) of None \<Rightarrow> False | Some i \<Rightarrow> bit access i)"

lemma mode_access_total:
  assumes "prefix_ok serv"
  shows "mode_access serv mode =
     Some (case index_of mode (nick_modes serv) of
             Some i \<Rightarrow> (int i, nick_prefixes serv ! i) | None \<Rightarrow> (-1, NUL))"
  using assms by (auto simp: mode_access_def prefix_ok_def cstr_simps split: option.splits dest!: index_of_Some)

lemma get_nick_prefix_highest:
  assumes "cstring (nick_prefixes serv)" "get_nick_prefix serv access = p" "p \<noteq> NUL"
  shows "\<exists>i < USERACCESS_SIZE. i < length (nick_prefixes serv) \<and> nick_prefixes serv ! i = p \<and>
     bit access i \<and> (\<forall>j < i. \<not> bit access j)"
  using assms
  by (auto simp: get_nick_prefix_def find_Some_iff test_bit_iff split: option.splits)

lemma bit_mask_Some: "i < 32 \<Longrightarrow> bit_mask (int i) = Some (bitval i)"
  by (simp add: bit_mask_def)

lemma nick_access_from_spec:
  assumes "prefix_ok serv" "\<not> bad_prefix serv"
  shows "\<exists>acc'. nick_access_from serv name acc n =
       Some (acc', n + length (takeWhile (\<lambda>c. c \<in> set (nick_prefixes serv)) name)) \<and>
     (\<forall>i < length (nick_prefixes serv). bit acc' i \<longleftrightarrow> bit acc i \<or>
        nick_prefixes serv ! i \<in> set (takeWhile (\<lambda>c. c \<in> set (nick_prefixes serv)) name))"
proof (induction name arbitrary: acc n)
  case (Cons c name)
  show ?case
  proof (cases "index_of c (nick_prefixes serv)")
    case None
    then show ?thesis
      using assms(2) index_of_None [of c "nick_prefixes serv"] by (simp add: is_prefix_char_def)
  next
    case (Some i)
    then have i: "i < length (nick_prefixes serv)" "nick_prefixes serv ! i = c" "i < 32"
      using index_of_Some [OF Some] assms(1) by (auto simp: prefix_ok_def)
    have c: "c \<in> set (nick_prefixes serv)" using i by auto
    have uniq: "nick_prefixes serv ! j = c \<longleftrightarrow> j = i" if "j < length (nick_prefixes serv)" for j
      using that i assms(1) by (auto simp: prefix_ok_def nth_eq_iff_index_eq)
    have "nick_access_from serv (c # name) acc n =
        nick_access_from serv name (acc OR bitval i) (n + 1)"
      using Some i by (simp add: is_prefix_char_def bit_mask_Some)
    moreover have "bit (acc OR bitval i) j \<longleftrightarrow> bit acc j \<or> j = i" for j
      using i by (auto simp: bit_or_iff bit_bitval)
    ultimately show ?thesis
      using Cons [of "acc OR bitval i" "n + 1"] c uniq by auto
  qed
qed simp

definition prefix_len :: "server \<Rightarrow> string \<Rightarrow> nat" where
  "prefix_len serv name = length (takeWhile (\<lambda>c. c \<in> set (nick_prefixes serv)) name)"

lemma nick_access_spec:
  assumes "prefix_ok serv" "\<not> bad_prefix serv"
  shows "\<exists>acc. nick_access serv name = Some (acc, prefix_len serv name) \<and>
     (\<forall>p. has_prefix serv acc p \<longleftrightarrow> p \<in> set (take (prefix_len serv name) name))"
proof -
  let ?tw = "takeWhile (\<lambda>c. c \<in> set (nick_prefixes serv)) name"
  obtain acc where acc: "nick_access serv name = Some (acc, prefix_len serv name)"
    "\<forall>i < length (nick_prefixes serv). bit acc i \<longleftrightarrow> nick_prefixes serv ! i \<in> set ?tw"
    using nick_access_from_spec [OF assms, of name 0 0] by (auto simp: nick_access_def prefix_len_def)
  have "take (prefix_len serv name) name = ?tw"
    unfolding prefix_len_def by (rule takeWhile_eq_take [symmetric])
  moreover have "has_prefix serv acc p \<longleftrightarrow> p \<in> set ?tw" for p
    using acc(2) by (auto simp: has_prefix_def index_of_None split: option.splits
        dest!: index_of_Some dest: set_takeWhileD)
  ultimately show ?thesis using acc(1) by auto
qed

section \<open>Sessions of all servers\<close>

text \<open>A server among others: its number, its record, whether it is connected, and the name that \<open>server_get_network\<close> returns.
  The list of all sessions has the number of its server with each session.\<close>

record nserver =
  ns_id :: nat
  ns_server :: server
  ns_connected :: bool
  ns_network :: string

fun first_sess :: "(session \<Rightarrow> bool) \<Rightarrow> nserver \<Rightarrow> (nat \<times> session) list \<Rightarrow> nat option" where
  "first_sess P serv [] = None"
| "first_sess P serv ((sid, s) # ss) =
     (if sid = ns_id serv \<and> P s then Some 0 else map_option Suc (first_sess P serv ss))"

definition serv_channel :: "nserver \<Rightarrow> (nat \<times> session) list \<Rightarrow> string \<Rightarrow> nat option" where
  "serv_channel serv ss chan =
     first_sess (\<lambda>s. sess_type s = SESS_CHANNEL \<and> p_cmp (ns_server serv) chan (channel s) = 0) serv ss"

definition find_dialog :: "nserver \<Rightarrow> (nat \<times> session) list \<Rightarrow> string \<Rightarrow> nat option" where
  "find_dialog serv ss nick =
     first_sess (\<lambda>s. sess_type s = SESS_DIALOG \<and> p_cmp (ns_server serv) nick (channel s) = 0) serv ss"

definition find_unused_session :: "nserver \<Rightarrow> (nat \<times> session) list \<Rightarrow> nat option" where
  "find_unused_session serv ss =
     first_sess (\<lambda>s. sess_type s = SESS_CHANNEL \<and> channel s = [] \<and> waitchannel s = []) serv ss"

definition find_session_from_waitchannel :: "nserver \<Rightarrow> (nat \<times> session) list \<Rightarrow> string \<Rightarrow> nat option" where
  "find_session_from_waitchannel serv ss chan =
     first_sess (\<lambda>s. channel s = [] \<and> sess_type s = SESS_CHANNEL \<and> p_cmp (ns_server serv) chan (waitchannel s) = 0) serv ss"

end
