(* ===== verification/Userlist.thy ===== *)
theory Userlist
  imports Chat_State
begin

text \<open>
  The user list of a channel, \<open>src/src/common/userlist.c\<close>: lookup, insertion, removal, renaming,
  mode changes and the counters of operators, half-operators, voiced users and all users.
  The operations run in the option monad; \<open>None\<close> is undefined behaviour (a freed user, a shift out
  of range, a search that does not end).
\<close>

section \<open>Operations\<close>

text \<open>Sorting of the GUI list by access level first.\<close>

fun access_cmp :: "u32 \<Rightarrow> u32 \<Rightarrow> nat list \<Rightarrow> int option" where
  "access_cmp a1 a2 [] = None"
| "access_cmp a1 a2 (pos # ps) =
     (if test_bit a1 pos \<and> test_bit a2 pos then None
      else if test_bit a1 pos then Some (-1)
      else if test_bit a2 pos then Some 1
      else access_cmp a1 a2 ps)"

definition nick_cmp_az_ops :: "server \<Rightarrow> user \<Rightarrow> user \<Rightarrow> int" where
  "nick_cmp_az_ops serv user1 user2 =
     (case (if u_access user1 \<noteq> u_access user2
            then access_cmp (u_access user1) (u_access user2) [0..<USERACCESS_SIZE] else None) of
        Some r \<Rightarrow> r
      | None \<Rightarrow> p_cmp serv (u_nick user1) (u_nick user2))"

text \<open>The comparisons given to the tree dereference the users they compare.\<close>

definition nick_cmp_alpha :: "server \<Rightarrow> (addr \<rightharpoonup> user) \<Rightarrow> addr \<Rightarrow> addr \<Rightarrow> int option" where
  "nick_cmp_alpha serv heap a b =
     do { u \<leftarrow> heap a; v \<leftarrow> heap b; Some (p_cmp serv (u_nick u) (u_nick v)) }"

definition find_cmp :: "server \<Rightarrow> (addr \<rightharpoonup> user) \<Rightarrow> string \<Rightarrow> addr \<Rightarrow> int option" where
  "find_cmp serv heap name a = do { u \<leftarrow> heap a; Some (p_cmp serv name (u_nick u)) }"

definition userlist_insertname :: "server \<Rightarrow> session \<Rightarrow> addr \<Rightarrow> (int \<times> session) option" where
  "userlist_insertname serv s newuser =
     do {
       let t = (case usertree s of None \<Rightarrow> tree_new | Some t \<Rightarrow> t);
       (row, t') \<leftarrow> tree_insert (nick_cmp_alpha serv (users s)) t newuser;
       Some (row, s\<lparr>usertree := Some t'\<rparr>)
     }"

definition userlist_find :: "server \<Rightarrow> session \<Rightarrow> string \<Rightarrow> addr option option" where
  "userlist_find serv s name =
     (case usertree s of
        None \<Rightarrow> Some None
      | Some t \<Rightarrow> map_option (map_option fst) (tree_find (find_cmp serv (users s)) t name))"

text \<open>\<open>away\<close> is an \<open>unsigned int\<close>; the field is one bit wide.\<close>

definition userlist_set_away :: "server \<Rightarrow> session \<Rightarrow> string \<Rightarrow> nat \<Rightarrow> session option" where
  "userlist_set_away serv s nick away =
     do {
       r \<leftarrow> userlist_find serv s nick;
       case r of
         None \<Rightarrow> Some s
       | Some a \<Rightarrow> do {
           u \<leftarrow> users s a;
           if of_bool (u_away u) \<noteq> away
           then (let s1 = emit (Fe_Userlist_Rehash a) (set_user a (u\<lparr>u_away := odd away\<rparr>) s)
                 in Some (if away \<noteq> 0 then emit (Fe_Userlist_Update a) s1 else s1))
           else Some s
         }
     }"

definition userlist_set_account :: "server \<Rightarrow> session \<Rightarrow> string \<Rightarrow> string \<Rightarrow> session option" where
  "userlist_set_account serv s nick account =
     do {
       r \<leftarrow> userlist_find serv s nick;
       case r of
         None \<Rightarrow> Some s
       | Some a \<Rightarrow> do {
           u \<leftarrow> users s a;
           if account = ''*'' then Some (set_user a (u\<lparr>u_account := None\<rparr>) s)
           else if u_account u \<noteq> Some account then Some (set_user a (u\<lparr>u_account := Some account\<rparr>) s)
           else Some s
         }
     }"

text \<open>The fields \<open>userlist_add_hostname\<close> fills in.\<close>

definition hostname_fields ::
  "string option \<Rightarrow> string option \<Rightarrow> string option \<Rightarrow> string option \<Rightarrow> nat \<Rightarrow> user \<Rightarrow> user" where
  "hostname_fields hostname realname servername account away u =
     (let u1 = (if hostname \<noteq> None \<and> u_hostname u \<noteq> hostname then u\<lparr>u_hostname := hostname\<rparr> else u);
          u2 = (case realname of Some (c # cs) \<Rightarrow> u1\<lparr>u_realname := realname\<rparr> | _ \<Rightarrow> u1);
          u3 = (if u_servername u2 = None \<and> servername \<noteq> None then u2\<lparr>u_servername := servername\<rparr> else u2);
          u4 = (if u_account u3 = None \<and> account \<noteq> None \<and> account \<noteq> Some ''0''
                then u3\<lparr>u_account := account\<rparr> else u3)
      in if away \<noteq> 255 then u4\<lparr>u_away := odd away\<rparr> else u4)"

definition userlist_add_hostname ::
  "bool \<Rightarrow> server \<Rightarrow> session \<Rightarrow> string \<Rightarrow> string option \<Rightarrow> string option \<Rightarrow> string option \<Rightarrow>
     string option \<Rightarrow> nat \<Rightarrow> (bool \<times> session) option" where
  "userlist_add_hostname show_hosts serv s nick hostname realname servername account away =
     do {
       r \<leftarrow> userlist_find serv s nick;
       case r of
         None \<Rightarrow> Some (False, s)
       | Some a \<Rightarrow> do {
           u \<leftarrow> users s a;
           let do_rehash = (hostname \<noteq> None \<and> u_hostname u \<noteq> hostname \<and> show_hosts) \<or>
                           (away \<noteq> 255 \<and> of_bool (u_away u) \<noteq> away);
           let u' = hostname_fields hostname realname servername account away u;
           let s1 = emit (Fe_Userlist_Update a) (set_user a u' s);
           Some (True, if do_rehash then emit (Fe_Userlist_Rehash a) s1 else s1)
         }
     }"

text \<open>Freeing a user that is not allocated is undefined.\<close>

definition free_user :: "addr \<Rightarrow> (addr \<rightharpoonup> user) option \<Rightarrow> (addr \<rightharpoonup> user) option" where
  "free_user a heap = do { h \<leftarrow> heap; _ \<leftarrow> h a; Some (h(a := None)) }"

definition userlist_free :: "session \<Rightarrow> session option" where
  "userlist_free s =
     do {
       heap \<leftarrow> (case usertree s of
                  None \<Rightarrow> Some (Some (users s))
                | Some t \<Rightarrow> tree_foreach (\<lambda>a h. (True, free_user a h)) t (Some (users s)));
       heap' \<leftarrow> heap;
       Some (s\<lparr>users := heap', usertree := None, sess_me := None,
               ops := 0, hops := 0, voices := 0, total := 0\<rparr>)
     }"

definition userlist_clear :: "session \<Rightarrow> session option" where
  "userlist_clear s =
     do {
       s1 \<leftarrow> userlist_free (emit Fe_Userlist_Clear s);
       Some (emit Fe_Userlist_Numbers s1)
     }"

text \<open>The first session of the server that knows the nick; \<open>sess_list\<close> pairs every session with the
  number of its server.\<close>

fun userlist_find_global ::
  "server \<Rightarrow> nat \<Rightarrow> (nat \<times> session) list \<Rightarrow> string \<Rightarrow> (session \<times> addr) option option" where
  "userlist_find_global serv sid [] name = Some None"
| "userlist_find_global serv sid ((i, s) # rest) name =
     (if i = sid then
        do {
          r \<leftarrow> userlist_find serv s name;
          case r of Some a \<Rightarrow> Some (Some (s, a)) | None \<Rightarrow> userlist_find_global serv sid rest name
        }
      else userlist_find_global serv sid rest name)"

definition update_counts :: "char \<Rightarrow> bool \<Rightarrow> int \<Rightarrow> session \<times> user \<Rightarrow> session \<times> user" where
  "update_counts pfx level offset su =
     (case su of (s, u) \<Rightarrow>
        if pfx = CHR ''@'' then (s\<lparr>ops := ops s + offset\<rparr>, u\<lparr>u_op := level\<rparr>)
        else if pfx = CHR ''%'' then (s\<lparr>hops := hops s + offset\<rparr>, u\<lparr>u_hop := level\<rparr>)
        else if pfx = CHR ''+'' then (s\<lparr>voices := voices s + offset\<rparr>, u\<lparr>u_voice := level\<rparr>)
        else (s, u))"

definition tree_remove_user :: "server \<Rightarrow> session \<Rightarrow> addr \<Rightarrow> session option" where
  "tree_remove_user serv s a =
     do {
       t \<leftarrow> usertree s;
       (_, t') \<leftarrow> tree_remove (nick_cmp_alpha serv (users s)) t a;
       Some (s\<lparr>usertree := Some t'\<rparr>)
     }"

definition userlist_update_mode :: "server \<Rightarrow> session \<Rightarrow> string \<Rightarrow> char \<Rightarrow> char \<Rightarrow> session option" where
  "userlist_update_mode serv s name mode sign =
     do {
       r \<leftarrow> userlist_find serv s name;
       case r of
         None \<Rightarrow> Some s
       | Some a \<Rightarrow> do {
           s1 \<leftarrow> tree_remove_user serv s a;
           let s2 = emit (Fe_Userlist_Remove a) s1;
           (pos, pfx) \<leftarrow> mode_access serv mode;
           m \<leftarrow> bit_mask pos;
           u \<leftarrow> users s2 a;
           let was = (u_access u AND m \<noteq> 0);
           let level = (sign = CHR ''+'');
           let offset = (if level \<and> \<not> was then 1 else if \<not> level \<and> was then -1 else 0);
           let u1 = u\<lparr>u_access := (if level then u_access u OR m else u_access u AND NOT m)\<rparr>;
           let u2 = u1\<lparr>u_prefix := get_nick_prefix serv (u_access u1)\<rparr>;
           let (s3, u3) = update_counts pfx level offset (s2, u2);
           let s4 = set_user a u3 s3;
           (_, s5) \<leftarrow> userlist_insertname serv s4 a;
           Some (emit Fe_Userlist_Numbers (emit (Fe_Userlist_Insert a) s5))
         }
     }"

definition userlist_change ::
  "(char \<Rightarrow> nat) \<Rightarrow> server \<Rightarrow> session \<Rightarrow> string \<Rightarrow> string \<Rightarrow> (bool \<times> session) option" where
  "userlist_change skip serv s oldname newname =
     do {
       r \<leftarrow> userlist_find serv s oldname;
       case r of
         None \<Rightarrow> Some (False, s)
       | Some a \<Rightarrow> do {
           s1 \<leftarrow> tree_remove_user serv s a;
           let s2 = emit (Fe_Userlist_Remove a) s1;
           nick' \<leftarrow> safe_strcpy skip newname NICKLEN;
           u \<leftarrow> users s2 a;
           (_, s3) \<leftarrow> userlist_insertname serv (set_user a (u\<lparr>u_nick := nick'\<rparr>) s2) a;
           Some (True, emit (Fe_Userlist_Insert a) s3)
         }
     }"

definition userlist_remove_user :: "server \<Rightarrow> session \<Rightarrow> addr \<Rightarrow> session option" where
  "userlist_remove_user serv s a =
     do {
       u \<leftarrow> users s a;
       let s1 = s\<lparr>voices := voices s - of_bool (u_voice u), ops := ops s - of_bool (u_op u),
                  hops := hops s - of_bool (u_hop u), total := total s - 1\<rparr>;
       let s2 = emit (Fe_Userlist_Remove a) (emit Fe_Userlist_Numbers s1);
       let s3 = s2\<lparr>sess_me := (if sess_me s2 = Some a then None else sess_me s2)\<rparr>;
       s4 \<leftarrow> tree_remove_user serv s3 a;
       heap \<leftarrow> free_user a (Some (users s4));
       Some (s4\<lparr>users := heap\<rparr>)
     }"

definition userlist_remove :: "server \<Rightarrow> session \<Rightarrow> string \<Rightarrow> (bool \<times> session) option" where
  "userlist_remove serv s name =
     do {
       r \<leftarrow> userlist_find serv s name;
       case r of
         None \<Rightarrow> Some (False, s)
       | Some a \<Rightarrow> do { s' \<leftarrow> userlist_remove_user serv s a; Some (True, s') }
     }"

text \<open>\<open>userlist_add\<close> in its three steps: the fields of the new user, its entry into the list with the
  counters (or its release when the server named it twice), and the whole.\<close>

definition make_user ::
  "server \<Rightarrow> string \<Rightarrow> u32 \<Rightarrow> nat \<Rightarrow> string \<Rightarrow> string option \<Rightarrow> string option \<Rightarrow> string option \<Rightarrow> user" where
  "make_user serv name acc prefix_chars nick hostname account realname =
     new_user\<lparr>u_access := acc, u_prefix := (if prefix_chars \<noteq> 0 then chd name else NUL),
              u_hostname := hostname, u_nick := nick,
              u_me := (p_cmp serv nick (my_nick serv) = 0),
              u_account := (if have_extjoin serv \<and> account \<noteq> Some [] then account else None),
              u_realname := (if have_extjoin serv \<and> realname \<noteq> Some [] then realname else None)\<rparr>"

definition userlist_enter :: "server \<Rightarrow> session \<Rightarrow> user \<Rightarrow> string \<Rightarrow> session option" where
  "userlist_enter serv s u pfxs =
     do {
       let a = next_addr s;
       (row, s1) \<leftarrow> userlist_insertname serv ((set_user a u s)\<lparr>next_addr := Suc a\<rparr>) a;
       if row = -1 then do {
         heap \<leftarrow> free_user a (Some (users s1));
         Some (s1\<lparr>users := heap\<rparr>)
       }
       else do {
         let (s2, u') = fold (\<lambda>p su. update_counts p True 1 su) pfxs (s1\<lparr>total := total s1 + 1\<rparr>, u);
         let s3 = set_user a u' s2;
         let s4 = (if u_me u' then s3\<lparr>sess_me := Some a\<rparr> else s3);
         let s5 = emit (Fe_Userlist_Insert a) s4;
         Some (if end_of_names s5 then emit Fe_Userlist_Numbers s5 else s5)
       }
     }"

definition userlist_add ::
  "(char \<Rightarrow> nat) \<Rightarrow> server \<Rightarrow> session \<Rightarrow> string \<Rightarrow> string option \<Rightarrow> string option \<Rightarrow> string option \<Rightarrow>
     session option" where
  "userlist_add skip serv s name hostname account realname =
     do {
       (acc, prefix_chars) \<leftarrow> nick_access serv name;
       nick \<leftarrow> safe_strcpy skip (drop prefix_chars name) NICKLEN;
       userlist_enter serv (emit (Notify_Set_Online (drop prefix_chars name)) s)
         (make_user serv name acc prefix_chars nick hostname account realname) (take prefix_chars name)
     }"

definition userlist_rehash :: "session \<Rightarrow> session option" where
  "userlist_rehash s =
     (case usertree s of
        None \<Rightarrow> Some s
      | Some t \<Rightarrow> tree_foreach (\<lambda>a s'. (True, emit (Fe_Userlist_Rehash a) s')) t s)"

text \<open>\<open>userlist_flat_list\<close> prepends every user and reverses; \<open>userlist_double_list\<close> does not reverse.\<close>

definition collect_users :: "session \<Rightarrow> addr list option" where
  "collect_users s =
     (case usertree s of None \<Rightarrow> Some [] | Some t \<Rightarrow> tree_foreach (\<lambda>a l. (True, a # l)) t [])"

definition userlist_flat_list :: "session \<Rightarrow> addr list option" where
  "userlist_flat_list s = map_option rev (collect_users s)"

definition userlist_double_list :: "session \<Rightarrow> addr list option" where
  "userlist_double_list s = collect_users s"

section \<open>The invariant\<close>

definition nick_at :: "(addr \<rightharpoonup> user) \<Rightarrow> addr \<Rightarrow> string" where
  "nick_at heap a = (case heap a of Some u \<Rightarrow> u_nick u | None \<Rightarrow> [])"

definition cnt :: "(user \<Rightarrow> bool) \<Rightarrow> (addr \<rightharpoonup> user) \<Rightarrow> addr set \<Rightarrow> int" where
  "cnt P heap A = (\<Sum>a \<in> A. of_bool (P (the (heap a))))"

text \<open>The tree holds the addresses \<open>xs\<close>: every allocated user exactly once, in strictly increasing
  order of nicknames.\<close>

definition tree_inv :: "(string \<Rightarrow> string \<Rightarrow> int) \<Rightarrow> (string \<Rightarrow> bool) \<Rightarrow> session \<Rightarrow> addr list \<Rightarrow> bool" where
  "tree_inv cmp ok s xs \<longleftrightarrow>
     (case usertree s of None \<Rightarrow> xs = [] | Some t \<Rightarrow> holds t xs) \<and> distinct xs \<and>
     set xs = dom (users s) \<and> ordered_by cmp ok (map (nick_at (users s)) xs) \<and>
     (\<forall>a \<in> set xs. a < next_addr s)"

text \<open>The counters are the numbers of flagged users, and \<open>sess->me\<close> does not dangle.\<close>

definition count_inv :: "session \<Rightarrow> bool" where
  "count_inv s \<longleftrightarrow>
     ops s = cnt u_op (users s) (dom (users s)) \<and> hops s = cnt u_hop (users s) (dom (users s)) \<and>
     voices s = cnt u_voice (users s) (dom (users s)) \<and> total s = int (card (dom (users s))) \<and>
     (\<forall>a. sess_me s = Some a \<longrightarrow> a \<in> dom (users s))"

text \<open>The flags \<open>op\<close>, \<open>hop\<close>, \<open>voice\<close> of a user repeat the access bits of \<open>@\<close>, \<open>%\<close>, \<open>+\<close>.\<close>

definition flag_inv :: "server \<Rightarrow> session \<Rightarrow> bool" where
  "flag_inv serv s \<longleftrightarrow>
     (\<forall>u \<in> ran (users s).
        u_op u = has_prefix serv (u_access u) (CHR ''@'') \<and>
        u_hop u = has_prefix serv (u_access u) (CHR ''%'') \<and>
        u_voice u = has_prefix serv (u_access u) (CHR ''+''))"

definition userlist_inv :: "(string \<Rightarrow> string \<Rightarrow> int) \<Rightarrow> (string \<Rightarrow> bool) \<Rightarrow> server \<Rightarrow> session \<Rightarrow> bool" where
  "userlist_inv cmp ok serv s \<longleftrightarrow> (\<exists>xs. tree_inv cmp ok s xs) \<and> count_inv s \<and> flag_inv serv s"

lemma cnt_remove: "finite A \<Longrightarrow> a \<in> A \<Longrightarrow> cnt P h A = cnt P h (A - {a}) + of_bool (P (the (h a)))"
  unfolding cnt_def by (subst sum.remove) auto

lemma cnt_other: "a \<notin> A \<Longrightarrow> cnt P (h(a := x)) A = cnt P h A"
  unfolding cnt_def by (intro sum.cong) auto

lemma cnt_insert: "finite A \<Longrightarrow> cnt P (h(a \<mapsto> u)) (insert a A) = cnt P h (A - {a}) + of_bool (P u)"
proof -
  assume "finite A"
  then have "cnt P (h(a \<mapsto> u)) (insert a A) = cnt P (h(a \<mapsto> u)) (insert a A - {a}) + of_bool (P u)"
    by (subst cnt_remove) auto
  then show ?thesis by (simp add: cnt_other)
qed

lemma cnt_update:
  assumes "finite (dom h)" "h a = Some v"
  shows "cnt P (h(a \<mapsto> u)) (dom (h(a \<mapsto> u))) = cnt P h (dom h) - of_bool (P v) + of_bool (P u)"
proof -
  have "a \<in> dom h" using assms(2) by auto
  then show ?thesis
    using cnt_insert [OF assms(1), of P h a u] cnt_remove [OF assms(1), of a P h] assms(2)
    by (simp add: insert_absorb)
qed

lemma tree_inv_finite: "tree_inv cmp ok s xs \<Longrightarrow> finite (dom (users s))"
  by (metis List.finite_set tree_inv_def)

section \<open>The tree under a sound comparison\<close>

lemma find_cmp_val:
  "a \<in> dom heap \<Longrightarrow> find_cmp serv heap name a = Some (p_cmp serv name (nick_at heap a))"
  by (auto simp: find_cmp_def nick_at_def)

lemma nick_cmp_alpha_val:
  "a \<in> dom heap \<Longrightarrow> b \<in> dom heap \<Longrightarrow>
     nick_cmp_alpha serv heap a b = Some (p_cmp serv (nick_at heap a) (nick_at heap b))"
  by (auto simp: nick_cmp_alpha_def nick_at_def)

text \<open>A tree that holds some of the allocated users, sorted.\<close>

definition part_inv :: "(string \<Rightarrow> string \<Rightarrow> int) \<Rightarrow> (string \<Rightarrow> bool) \<Rightarrow> session \<Rightarrow> addr list \<Rightarrow> bool" where
  "part_inv cmp ok s xs \<longleftrightarrow>
     (case usertree s of None \<Rightarrow> xs = [] | Some t \<Rightarrow> holds t xs) \<and> distinct xs \<and>
     set xs \<subseteq> dom (users s) \<and> ordered_by cmp ok (map (nick_at (users s)) xs)"

lemma tree_inv_part:
  "tree_inv cmp ok s xs \<longleftrightarrow>
     part_inv cmp ok s xs \<and> set xs = dom (users s) \<and> (\<forall>a \<in> set xs. a < next_addr s)"
  by (auto simp: tree_inv_def part_inv_def)

text \<open>The contract between the user list and the server's comparison of nicknames.\<close>

locale nick_order = cmp_order cmp ok
  for cmp :: "string \<Rightarrow> string \<Rightarrow> int" and ok :: "string \<Rightarrow> bool"
begin

lemma cmp_refl: "ok x \<Longrightarrow> cmp x x = 0"
  using anti [of x x] by (auto simp: sgn_if split: if_splits)

lemma part_descending:
  "part_inv cmp ok s xs \<Longrightarrow> ok k \<Longrightarrow> descending (\<lambda>a. cmp k (nick_at (users s) a)) xs"
  by (auto simp: part_inv_def intro: ordered_descending)

lemma part_ok: "part_inv cmp ok s xs \<Longrightarrow> a \<in> set xs \<Longrightarrow> ok (nick_at (users s) a)"
  by (auto simp: part_inv_def ordered_by_def list_all_iff)

lemma find_hit:
  assumes "part_inv cmp ok s xs" "p_cmp serv = cmp" "ok name" "a \<in> set xs"
    and "cmp name (nick_at (users s) a) = 0"
  shows "userlist_find serv s name = Some (Some a)"
proof -
  obtain t where t: "usertree s = Some t" "holds t xs"
    using assms(1,4) by (auto simp: part_inv_def split: option.splits)
  obtain p where p: "p < length xs" "xs ! p = a" using assms(4) by (auto simp: in_set_conv_nth)
  have "tree_find (find_cmp serv (users s)) t name = Some (Some (xs ! p, p))"
    by (rule tree_find_hit [where c = "\<lambda>a. cmp name (nick_at (users s) a)"])
       (use t p assms part_descending find_cmp_val in \<open>auto simp: part_inv_def subset_iff\<close>)
  then show ?thesis using t p by (simp add: userlist_find_def)
qed

lemma find_miss:
  assumes "part_inv cmp ok s xs" "p_cmp serv = cmp" "ok name"
    and "\<forall>a \<in> set xs. cmp name (nick_at (users s) a) \<noteq> 0"
  shows "userlist_find serv s name = Some None"
proof (cases "usertree s")
  case None
  then show ?thesis by (simp add: userlist_find_def)
next
  case (Some t)
  have "tree_find (find_cmp serv (users s)) t name = Some None"
    by (rule tree_find_miss [where c = "\<lambda>a. cmp name (nick_at (users s) a)" and xs = xs])
       (use Some assms part_descending find_cmp_val in \<open>auto simp: part_inv_def subset_iff\<close>)
  then show ?thesis using Some by (simp add: userlist_find_def)
qed

lemma find_cases:
  assumes "part_inv cmp ok s xs" "p_cmp serv = cmp" "ok name"
  obtains (hit) a where "a \<in> set xs" "cmp name (nick_at (users s) a) = 0"
      "userlist_find serv s name = Some (Some a)"
    | (miss) "\<forall>a \<in> set xs. cmp name (nick_at (users s) a) \<noteq> 0" "userlist_find serv s name = Some None"
  using find_hit [OF assms] find_miss [OF assms] by blast

lemma remove_part:
  assumes "part_inv cmp ok s xs" "p_cmp serv = cmp" "a \<in> set xs"
  shows "\<exists>t' xs'. tree_remove_user serv s a = Some (s\<lparr>usertree := Some t'\<rparr>) \<and>
     part_inv cmp ok (s\<lparr>usertree := Some t'\<rparr>) xs' \<and> set xs' = set xs - {a}"
proof -
  obtain t where t: "usertree s = Some t" "holds t xs"
    using assms(1,3) by (auto simp: part_inv_def split: option.splits)
  obtain p where p: "p < length xs" "xs ! p = a" using assms(3) by (auto simp: in_set_conv_nth)
  let ?c = "\<lambda>b. cmp (nick_at (users s) a) (nick_at (users s) b)"
  have oka: "ok (nick_at (users s) a)" using part_ok [OF assms(1,3)] .
  have "\<exists>t'. tree_remove (nick_cmp_alpha serv (users s)) t a = Some (True, t') \<and>
      holds t' (remove_nth p xs)"
  proof (rule tree_remove_correct [where c = ?c])
    show "nick_cmp_alpha serv (users s) a x = Some (?c x)" if "x \<in> set xs" for x
      using that assms by (subst nick_cmp_alpha_val) (auto simp: part_inv_def)
  qed (use t p oka part_descending [OF assms(1)] cmp_refl in auto)
  moreover have "distinct (remove_nth p xs) \<and> set (remove_nth p xs) = set xs - {a}"
    using remove_nth_distinct [of xs p] assms(1) p by (simp add: part_inv_def)
  ultimately show ?thesis
    using assms(1,2) t ordered_remove [of "nick_at (users s)" xs p]
    by (fastforce simp: tree_remove_user_def part_inv_def)
qed

lemma insert_part:
  assumes "part_inv cmp ok s xs" "p_cmp serv = cmp" "a \<notin> set xs" "a \<in> dom (users s)"
    and "ok (nick_at (users s) a)"
    and "\<forall>b \<in> set xs. cmp (nick_at (users s) a) (nick_at (users s) b) \<noteq> 0"
  shows "\<exists>row t' xs'. userlist_insertname serv s a = Some (row, s\<lparr>usertree := Some t'\<rparr>) \<and> row \<noteq> -1 \<and>
     part_inv cmp ok (s\<lparr>usertree := Some t'\<rparr>) xs' \<and> set xs' = insert a (set xs)"
proof -
  define t where "t = (case usertree s of None \<Rightarrow> tree_new | Some t \<Rightarrow> t)"
  let ?c = "\<lambda>b. cmp (nick_at (users s) a) (nick_at (users s) b)"
  have "holds t xs" using assms(1) by (auto simp: t_def part_inv_def split: option.splits)
  moreover have val: "nick_cmp_alpha serv (users s) a x = Some (?c x)" if "x \<in> set xs" for x
    using that assms by (subst nick_cmp_alpha_val) (auto simp: part_inv_def)
  ultimately obtain t' where "tree_insert (nick_cmp_alpha serv (users s)) t a =
       Some (int (ins_pos ?c xs), t')" "holds t' (insert_nth (ins_pos ?c xs) a xs)"
    using tree_insert_correct [of t xs "nick_cmp_alpha serv (users s)" a ?c]
      part_descending [OF assms(1,5)] assms(6) by (auto split: if_splits)
  moreover have "ordered_by cmp ok (map (nick_at (users s)) (insert_nth (ins_pos ?c xs) a xs))"
    by (rule ordered_insert) (use assms in \<open>auto simp: part_inv_def\<close>)
  ultimately show ?thesis
    using assms(1,3,4) by (fastforce simp: userlist_insertname_def part_inv_def simp flip: t_def)
qed

lemma insert_part_duplicate:
  assumes "part_inv cmp ok s xs" "p_cmp serv = cmp" "a \<in> dom (users s)" "ok (nick_at (users s) a)"
    and "b \<in> set xs" "cmp (nick_at (users s) a) (nick_at (users s) b) = 0"
  shows "\<exists>t'. userlist_insertname serv s a = Some (-1, s\<lparr>usertree := Some t'\<rparr>) \<and>
     part_inv cmp ok (s\<lparr>usertree := Some t'\<rparr>) xs"
proof -
  define t where "t = (case usertree s of None \<Rightarrow> tree_new | Some t \<Rightarrow> t)"
  let ?c = "\<lambda>b. cmp (nick_at (users s) a) (nick_at (users s) b)"
  have "holds t xs" using assms(1) by (auto simp: t_def part_inv_def split: option.splits)
  moreover have val: "nick_cmp_alpha serv (users s) a x = Some (?c x)" if "x \<in> set xs" for x
    using that assms by (subst nick_cmp_alpha_val) (auto simp: part_inv_def)
  ultimately obtain t' where "tree_insert (nick_cmp_alpha serv (users s)) t a = Some (-1, t')" "holds t' xs"
    using tree_insert_correct [of t xs "nick_cmp_alpha serv (users s)" a ?c]
      part_descending [OF assms(1,4)] assms(5,6) by (auto split: if_splits)
  then show ?thesis
    using assms(1) by (auto simp: userlist_insertname_def part_inv_def simp flip: t_def)
qed

end

section \<open>Every operation keeps the invariant\<close>

lemma nick_at_upd: "nick_at (h(a \<mapsto> u)) b = (if b = a then u_nick u else nick_at h b)"
  by (simp add: nick_at_def)

lemma nick_at_del: "b \<noteq> a \<Longrightarrow> nick_at (h(a := None)) b = nick_at h b"
  by (simp add: nick_at_def)

lemma part_inv_frame:
  assumes "part_inv cmp ok s xs" "usertree s' = usertree s" "set xs \<subseteq> dom (users s')"
    and "\<forall>a \<in> set xs. nick_at (users s') a = nick_at (users s) a"
  shows "part_inv cmp ok s' xs"
proof -
  have "map (nick_at (users s')) xs = map (nick_at (users s)) xs" using assms(4) by simp
  with assms show ?thesis unfolding part_inv_def by (metis (no_types, lifting))
qed

lemma update_counts_session [simp]:
  "users (fst (update_counts p l k (s, u))) = users s"
  "usertree (fst (update_counts p l k (s, u))) = usertree s"
  "next_addr (fst (update_counts p l k (s, u))) = next_addr s"
  "sess_me (fst (update_counts p l k (s, u))) = sess_me s"
  "total (fst (update_counts p l k (s, u))) = total s"
  "log (fst (update_counts p l k (s, u))) = log s"
  "ops (fst (update_counts p l k (s, u))) = ops s + (if p = CHR ''@'' then k else 0)"
  "hops (fst (update_counts p l k (s, u))) = hops s + (if p = CHR ''%'' then k else 0)"
  "voices (fst (update_counts p l k (s, u))) = voices s + (if p = CHR ''+'' then k else 0)"
  by (simp_all add: update_counts_def)

lemma update_counts_user [simp]:
  "u_nick (snd (update_counts p l k (s, u))) = u_nick u"
  "u_access (snd (update_counts p l k (s, u))) = u_access u"
  "u_prefix (snd (update_counts p l k (s, u))) = u_prefix u"
  "u_me (snd (update_counts p l k (s, u))) = u_me u"
  "u_op (snd (update_counts p l k (s, u))) = (if p = CHR ''@'' then l else u_op u)"
  "u_hop (snd (update_counts p l k (s, u))) = (if p = CHR ''%'' then l else u_hop u)"
  "u_voice (snd (update_counts p l k (s, u))) = (if p = CHR ''+'' then l else u_voice u)"
  by (simp_all add: update_counts_def)

lemma flag_inv_user:
  "flag_inv serv s \<Longrightarrow> users s a = Some u \<Longrightarrow>
     u_op u = has_prefix serv (u_access u) (CHR ''@'') \<and>
     u_hop u = has_prefix serv (u_access u) (CHR ''%'') \<and>
     u_voice u = has_prefix serv (u_access u) (CHR ''+'')"
  by (auto simp: flag_inv_def ran_def)

lemma flag_inv_upd:
  assumes "flag_inv serv s" "users s' = (users s)(a \<mapsto> u)"
    and "u_op u = has_prefix serv (u_access u) (CHR ''@'')"
    and "u_hop u = has_prefix serv (u_access u) (CHR ''%'')"
    and "u_voice u = has_prefix serv (u_access u) (CHR ''+'')"
  shows "flag_inv serv s'"
  using assms by (auto simp: flag_inv_def ran_def)

text \<open>Setting or clearing the bit of one mode changes that prefix and no other.\<close>

lemma has_prefix_set:
  assumes "prefix_ok serv" "i < length (nick_prefixes serv)"
  shows "has_prefix serv (acc OR bitval i) p \<longleftrightarrow> has_prefix serv acc p \<or> p = nick_prefixes serv ! i"
    and "has_prefix serv (acc AND NOT (bitval i)) p \<longleftrightarrow>
      has_prefix serv acc p \<and> p \<noteq> nick_prefixes serv ! i"
    and "has_prefix serv acc (nick_prefixes serv ! i) \<longleftrightarrow> acc AND bitval i \<noteq> 0"
proof -
  have i: "i < 32" and d: "distinct (nick_prefixes serv)" using assms by (auto simp: prefix_ok_def)
  have idx: "index_of (nick_prefixes serv ! i) (nick_prefixes serv) = Some i"
    using index_of_distinct [OF d assms(2)] .
  have j: "j < 32" if "index_of p (nick_prefixes serv) = Some j" for j
    using index_of_Some [OF that] assms(1) by (auto simp: prefix_ok_def)
  have eq: "p = nick_prefixes serv ! i \<longleftrightarrow> index_of p (nick_prefixes serv) = Some i"
    using idx index_of_Some by metis
  show "has_prefix serv (acc OR bitval i) p \<longleftrightarrow> has_prefix serv acc p \<or> p = nick_prefixes serv ! i"
    using i unfolding eq by (auto simp: has_prefix_def bit_or_iff bit_bitval split: option.splits)
  show "has_prefix serv (acc AND NOT (bitval i)) p \<longleftrightarrow>
      has_prefix serv acc p \<and> p \<noteq> nick_prefixes serv ! i"
    using i j unfolding eq
    by (auto simp: has_prefix_def bit_and_iff bit_not_iff bit_bitval split: option.splits)
  show "has_prefix serv acc (nick_prefixes serv ! i) \<longleftrightarrow> acc AND bitval i \<noteq> 0"
    using idx test_bit_iff [of acc i] by (simp add: has_prefix_def test_bit_def)
qed

lemma tree_inv_emit [simp]: "tree_inv cmp ok (emit e s) xs = tree_inv cmp ok s xs"
  by (simp add: tree_inv_def)

lemma count_inv_emit [simp]: "count_inv (emit e s) = count_inv s"
  by (simp add: count_inv_def)

lemma flag_inv_emit [simp]: "flag_inv serv (emit e s) = flag_inv serv s"
  by (simp add: flag_inv_def)

lemma userlist_inv_emit [simp]: "userlist_inv cmp ok serv (emit e s) = userlist_inv cmp ok serv s"
  by (simp add: userlist_inv_def)

context nick_order
begin

lemma others_differ:
  assumes "part_inv cmp ok s xs" "a \<in> set xs" "b \<in> set xs" "a \<noteq> b"
  shows "cmp (nick_at (users s) a) (nick_at (users s) b) \<noteq> 0"
proof
  assume eq: "cmp (nick_at (users s) a) (nick_at (users s) b) = 0"
  obtain i j where ij: "i < length xs" "xs ! i = a" "j < length xs" "xs ! j = b"
    using assms(2,3) by (auto simp: in_set_conv_nth)
  have "i = j"
    using descending_zero_unique [OF part_descending [OF assms(1) part_ok [OF assms(1,2)]] ij(1,3)]
      eq ij cmp_refl part_ok [OF assms(1,2)] by auto
  with ij assms(4) show False by simp
qed

text \<open>Taking a user out of the tree, changing it and putting it back.\<close>

lemma reinsert:
  assumes ti: "tree_inv cmp ok s xs" and serv: "p_cmp serv = cmp" and a: "a \<in> set xs"
  obtains t1 where "tree_remove_user serv s a = Some (s\<lparr>usertree := Some t1\<rparr>)"
    and "\<And>(s4 :: session) u'. users s4 = (users s)(a \<mapsto> u') \<Longrightarrow> usertree s4 = Some t1 \<Longrightarrow> next_addr s4 = next_addr s \<Longrightarrow>
       ok (u_nick u') \<Longrightarrow> \<forall>b \<in> set xs - {a}. cmp (u_nick u') (nick_at (users s) b) \<noteq> 0 \<Longrightarrow>
       \<exists>row t5 xs5. userlist_insertname serv s4 a = Some (row, s4\<lparr>usertree := Some t5\<rparr>) \<and>
          tree_inv cmp ok (s4\<lparr>usertree := Some t5\<rparr>) xs5"
proof -
  have pi: "part_inv cmp ok s xs" and dom: "set xs = dom (users s)" and nx: "\<forall>a \<in> set xs. a < next_addr s"
    using ti by (auto simp: tree_inv_part)
  obtain t1 xs1 where rm: "tree_remove_user serv s a = Some (s\<lparr>usertree := Some t1\<rparr>)"
    "part_inv cmp ok (s\<lparr>usertree := Some t1\<rparr>) xs1" "set xs1 = set xs - {a}"
    using remove_part [OF pi serv a] by blast
  show ?thesis
  proof (rule that [OF rm(1)])
    fix s4 :: session and u'
    assume s4: "users s4 = (users s)(a \<mapsto> u')" "usertree s4 = Some t1" "next_addr s4 = next_addr s"
      and okn: "ok (u_nick u')" and nodup: "\<forall>b \<in> set xs - {a}. cmp (u_nick u') (nick_at (users s) b) \<noteq> 0"
    have p4: "part_inv cmp ok s4 xs1"
      by (rule part_inv_frame [OF rm(2)]) (use rm(3) dom s4 in \<open>auto simp: nick_at_upd\<close>)
    have nd: "\<forall>b \<in> set xs1. cmp (nick_at (users s4) a) (nick_at (users s4) b) \<noteq> 0"
      using nodup rm(3) by (simp add: s4(1) nick_at_upd)
    obtain row t5 xs5 where ins: "userlist_insertname serv s4 a = Some (row, s4\<lparr>usertree := Some t5\<rparr>)"
      "part_inv cmp ok (s4\<lparr>usertree := Some t5\<rparr>) xs5" "set xs5 = insert a (set xs1)"
      using insert_part [OF p4 serv _ _ _ nd] rm(3) s4(1) okn by (auto simp: nick_at_upd)
    have "tree_inv cmp ok (s4\<lparr>usertree := Some t5\<rparr>) xs5"
      unfolding tree_inv_part using ins(2,3) rm(3) dom nx a s4 by auto
    with ins(1) show "\<exists>row t5 xs5. userlist_insertname serv s4 a = Some (row, s4\<lparr>usertree := Some t5\<rparr>) \<and>
        tree_inv cmp ok (s4\<lparr>usertree := Some t5\<rparr>) xs5" by blast
  qed
qed

lemma find_inv:
  assumes "tree_inv cmp ok s xs" "p_cmp serv = cmp" "ok name" "userlist_find serv s name = Some (Some a)"
  shows "a \<in> set xs \<and> cmp name (nick_at (users s) a) = 0"
proof -
  have "part_inv cmp ok s xs" using assms(1) by (simp add: tree_inv_part)
  from find_cases [OF this assms(2,3)] assms(4) show ?thesis by (metis option.inject option.distinct(1))
qed

end

text \<open>The flags and counters after setting or clearing one mode of one user.\<close>

lemma mode_change_counts:
  assumes "count_inv s" "flag_inv serv s" "finite (dom (users s))" "users s a = Some u" "prefix_ok serv"
    and i: "i < length (nick_prefixes serv)"
    and l: "was = (u_access u AND bitval i \<noteq> 0)"
    and acc: "acc = (if l then u_access u OR bitval i else u_access u AND NOT (bitval i))"
    and su: "su = update_counts (nick_prefixes serv ! i) l
        (if l \<and> \<not> was then 1 else if \<not> l \<and> was then -1 else 0)
        (s2, u\<lparr>u_access := acc, u_prefix := pfx\<rparr>)"
    and s2: "users s2 = users s" "ops s2 = ops s" "hops s2 = hops s" "voices s2 = voices s"
      "total s2 = total s" "sess_me s2 = sess_me s"
  shows "count_inv (set_user a (snd su) (fst su))" "flag_inv serv (set_user a (snd su) (fst su))"
proof -
  let ?p = "nick_prefixes serv ! i"
  have us: "users (set_user a (snd su) (fst su)) = (users s)(a \<mapsto> snd su)" by (simp add: su s2)
  have hp: "has_prefix serv acc q = (if q = ?p then l else has_prefix serv (u_access u) q)" for q
    using has_prefix_set(1,2) [OF assms(5) i, of "u_access u" q] by (auto simp: acc)
  have su_f: "u_op (snd su) = (if ?p = CHR ''@'' then l else u_op u)"
    "u_hop (snd su) = (if ?p = CHR ''%'' then l else u_hop u)"
    "u_voice (snd su) = (if ?p = CHR ''+'' then l else u_voice u)"
    "u_access (snd su) = acc"
    by (simp_all add: su)
  show "flag_inv serv (set_user a (snd su) (fst su))"
    by (rule flag_inv_upd [OF assms(2) us]) (use flag_inv_user [OF assms(2,4)] in \<open>auto simp: su_f hp\<close>)
  have flags: "u_op u = (if ?p = CHR ''@'' then was else u_op u)"
    "u_hop u = (if ?p = CHR ''%'' then was else u_hop u)"
    "u_voice u = (if ?p = CHR ''+'' then was else u_voice u)"
    using flag_inv_user [OF assms(2,4)] has_prefix_set(3) [OF assms(5) i, of "u_access u"] l by auto
  have dom: "dom (users (set_user a (snd su) (fst su))) = dom (users s)"
    using assms(4) unfolding us by auto
  show "count_inv (set_user a (snd su) (fst su))"
    using assms(1) dom cnt_update [OF assms(3,4)] flags
    by (auto simp: count_inv_def us su_f s2) (auto simp: su s2)
qed

context nick_order
begin

lemma update_mode_inv:
  assumes inv: "userlist_inv cmp ok serv s" and serv: "p_cmp serv = cmp" "prefix_ok serv"
    and hit: "userlist_find serv s name = Some (Some a)" "ok name"
    and mode: "index_of mode (nick_modes serv) = Some i"
  shows "\<exists>s' u u'. userlist_update_mode serv s name mode sign = Some s' \<and> userlist_inv cmp ok serv s' \<and>
     users s a = Some u \<and> users s' = (users s)(a \<mapsto> u') \<and> u_nick u' = u_nick u \<and>
     u_access u' = (if sign = CHR ''+'' then u_access u OR bitval i
                    else u_access u AND NOT (bitval i)) \<and>
     u_prefix u' = get_nick_prefix serv (u_access u')"
proof -
  obtain xs where ti: "tree_inv cmp ok s xs" and ci: "count_inv s" and fi: "flag_inv serv s"
    using inv by (auto simp: userlist_inv_def)
  have pi: "part_inv cmp ok s xs" and dom: "set xs = dom (users s)" using ti by (auto simp: tree_inv_part)
  have a: "a \<in> set xs" using find_inv [OF ti serv(1) hit(2,1)] by simp
  then obtain u where u: "users s a = Some u" using dom by auto
  have i: "i < length (nick_prefixes serv)" "i < 32"
    using index_of_Some [OF mode] serv(2) by (auto simp: prefix_ok_def)
  obtain t1 where rm: "tree_remove_user serv s a = Some (s\<lparr>usertree := Some t1\<rparr>)"
    and put: "\<And>(s4 :: session) u'. users s4 = (users s)(a \<mapsto> u') \<Longrightarrow> usertree s4 = Some t1 \<Longrightarrow> next_addr s4 = next_addr s \<Longrightarrow>
       ok (u_nick u') \<Longrightarrow> \<forall>b \<in> set xs - {a}. cmp (u_nick u') (nick_at (users s) b) \<noteq> 0 \<Longrightarrow>
       \<exists>row t5 xs5. userlist_insertname serv s4 a = Some (row, s4\<lparr>usertree := Some t5\<rparr>) \<and>
          tree_inv cmp ok (s4\<lparr>usertree := Some t5\<rparr>) xs5"
    using reinsert [OF ti serv(1) a] by blast
  let ?l = "sign = CHR ''+''" and ?was = "u_access u AND bitval i \<noteq> 0"
  let ?acc = "if ?l then u_access u OR bitval i else u_access u AND NOT (bitval i)"
  define su where "su = update_counts (nick_prefixes serv ! i) ?l
      (if ?l \<and> \<not> ?was then 1 else if \<not> ?l \<and> ?was then -1 else 0)
      (emit (Fe_Userlist_Remove a) (s\<lparr>usertree := Some t1\<rparr>),
       u\<lparr>u_access := ?acc, u_prefix := get_nick_prefix serv ?acc\<rparr>)"
  define s4 where "s4 = set_user a (snd su) (fst su)"
  have s4: "users s4 = (users s)(a \<mapsto> snd su)" "usertree s4 = Some t1" "next_addr s4 = next_addr s"
    and nick: "u_nick (snd su) = nick_at (users s) a"
    by (simp_all add: s4_def su_def nick_at_def u)
  have cf: "count_inv s4" "flag_inv serv s4"
    unfolding s4_def by (rule mode_change_counts [OF ci fi tree_inv_finite [OF ti] u serv(2) i(1) refl refl su_def]; simp)+
  have nodup: "\<forall>b \<in> set xs - {a}. cmp (u_nick (snd su)) (nick_at (users s) b) \<noteq> 0"
    using others_differ [OF pi a] nick by auto
  have okn: "ok (u_nick (snd su))" using nick part_ok [OF pi a] by simp
  obtain row t5 xs5 where ins: "userlist_insertname serv s4 a = Some (row, s4\<lparr>usertree := Some t5\<rparr>)"
    "tree_inv cmp ok (s4\<lparr>usertree := Some t5\<rparr>) xs5"
    using put [OF s4 okn nodup] by blast
  have run: "userlist_update_mode serv s name mode sign =
      Some (emit Fe_Userlist_Numbers (emit (Fe_Userlist_Insert a) (s4\<lparr>usertree := Some t5\<rparr>)))"
    using hit(1) rm mode_access_total [OF serv(2), of mode] mode bit_mask_Some [OF i(2)] u ins(1)
    by (simp add: userlist_update_mode_def Let_def case_prod_beta s4_def su_def)
  have "userlist_inv cmp ok serv (s4\<lparr>usertree := Some t5\<rparr>)"
    using ins(2) cf by (auto simp: userlist_inv_def count_inv_def flag_inv_def)
  then show ?thesis
    using run u s4(1) by (auto simp: su_def)
qed

lemma change_inv:
  assumes inv: "userlist_inv cmp ok serv s" and serv: "p_cmp serv = cmp"
    and hit: "userlist_find serv s oldname = Some (Some a)" "ok oldname"
    and new: "safe_strcpy skip newname NICKLEN = Some nick'" "ok nick'"
    and nodup: "\<forall>b \<in> dom (users s) - {a}. cmp nick' (nick_at (users s) b) \<noteq> 0"
  shows "\<exists>s' u. userlist_change skip serv s oldname newname = Some (True, s') \<and> userlist_inv cmp ok serv s' \<and>
     users s a = Some u \<and> users s' = (users s)(a \<mapsto> u\<lparr>u_nick := nick'\<rparr>)"
proof -
  obtain xs where ti: "tree_inv cmp ok s xs" and ci: "count_inv s" and fi: "flag_inv serv s"
    using inv by (auto simp: userlist_inv_def)
  have dom: "set xs = dom (users s)" using ti by (auto simp: tree_inv_part)
  have a: "a \<in> set xs" using find_inv [OF ti serv(1) hit(2,1)] by simp
  then obtain u where u: "users s a = Some u" using dom by auto
  obtain t1 where rm: "tree_remove_user serv s a = Some (s\<lparr>usertree := Some t1\<rparr>)"
    and put: "\<And>(s4 :: session) u'. users s4 = (users s)(a \<mapsto> u') \<Longrightarrow> usertree s4 = Some t1 \<Longrightarrow> next_addr s4 = next_addr s \<Longrightarrow>
       ok (u_nick u') \<Longrightarrow> \<forall>b \<in> set xs - {a}. cmp (u_nick u') (nick_at (users s) b) \<noteq> 0 \<Longrightarrow>
       \<exists>row t5 xs5. userlist_insertname serv s4 a = Some (row, s4\<lparr>usertree := Some t5\<rparr>) \<and>
          tree_inv cmp ok (s4\<lparr>usertree := Some t5\<rparr>) xs5"
    using reinsert [OF ti serv(1) a] by blast
  let ?u = "u\<lparr>u_nick := nick'\<rparr>"
  define s4 where "s4 = set_user a ?u (emit (Fe_Userlist_Remove a) (s\<lparr>usertree := Some t1\<rparr>))"
  have s4: "users s4 = (users s)(a \<mapsto> ?u)" "usertree s4 = Some t1" "next_addr s4 = next_addr s"
    by (simp_all add: s4_def)
  obtain row t5 xs5 where ins: "userlist_insertname serv s4 a = Some (row, s4\<lparr>usertree := Some t5\<rparr>)"
    "tree_inv cmp ok (s4\<lparr>usertree := Some t5\<rparr>) xs5"
    using put [OF s4] new(2) nodup dom by auto
  have doms: "insert a (dom (users s)) = dom (users s)" using u by auto
  have "count_inv (s4\<lparr>usertree := Some t5\<rparr>)"
    using ci cnt_update [OF tree_inv_finite [OF ti] u, of _ ?u] unfolding count_inv_def
    by (simp add: s4(1) doms) (simp add: s4_def)
  moreover have "flag_inv serv (s4\<lparr>usertree := Some t5\<rparr>)"
    by (rule flag_inv_upd [OF fi, where a = a and u = ?u]) (use flag_inv_user [OF fi u] s4(1) in auto)
  ultimately have "userlist_inv cmp ok serv (s4\<lparr>usertree := Some t5\<rparr>)"
    using ins(2) by (auto simp: userlist_inv_def)
  then show ?thesis
    using hit(1) rm new(1) u ins(1) s4(1) by (simp add: userlist_change_def s4_def Let_def)
qed

lemma remove_user_inv:
  assumes inv: "userlist_inv cmp ok serv s" and serv: "p_cmp serv = cmp" and a: "a \<in> dom (users s)"
  shows "\<exists>s'. userlist_remove_user serv s a = Some s' \<and> userlist_inv cmp ok serv s' \<and>
     users s' = (users s)(a := None)"
proof -
  obtain xs where ti: "tree_inv cmp ok s xs" and ci: "count_inv s" and fi: "flag_inv serv s"
    using inv by (auto simp: userlist_inv_def)
  have pi: "part_inv cmp ok s xs" and dom: "set xs = dom (users s)" and nx: "\<forall>a \<in> set xs. a < next_addr s"
    using ti by (auto simp: tree_inv_part)
  have fin: "finite (dom (users s))" using tree_inv_finite [OF ti] .
  obtain u where u: "users s a = Some u" using a by auto
  define s3 where "s3 = (emit (Fe_Userlist_Remove a) (emit Fe_Userlist_Numbers
      (s\<lparr>voices := voices s - of_bool (u_voice u), ops := ops s - of_bool (u_op u),
         hops := hops s - of_bool (u_hop u), total := total s - 1\<rparr>)))\<lparr>sess_me :=
         (if sess_me s = Some a then None else sess_me s)\<rparr>"
  have s3: "users s3 = users s" "usertree s3 = usertree s" "next_addr s3 = next_addr s"
    by (simp_all add: s3_def)
  have p3: "part_inv cmp ok s3 xs"
    by (rule part_inv_frame [OF pi]) (use s3 dom in auto)
  have "a \<in> set xs" using a dom by simp
  then obtain t' xs' where rm: "tree_remove_user serv s3 a = Some (s3\<lparr>usertree := Some t'\<rparr>)"
    "part_inv cmp ok (s3\<lparr>usertree := Some t'\<rparr>) xs'" "set xs' = set xs - {a}"
    using remove_part [OF p3 serv] by blast
  let ?s' = "s3\<lparr>usertree := Some t', users := (users s)(a := None)\<rparr>"
  have "userlist_remove_user serv s a =
      do { s4 \<leftarrow> tree_remove_user serv s3 a; heap \<leftarrow> free_user a (Some (users s4)); Some (s4\<lparr>users := heap\<rparr>) }"
    unfolding userlist_remove_user_def u s3_def Let_def by simp
  then have run: "userlist_remove_user serv s a = Some ?s'"
    using u rm(1) s3(1) by (simp add: free_user_def)
  have "part_inv cmp ok ?s' xs'"
    by (rule part_inv_frame [OF rm(2)]) (use rm(3) dom s3 in \<open>auto simp: nick_at_del\<close>)
  then have "tree_inv cmp ok ?s' xs'"
    unfolding tree_inv_part using rm(3) dom nx s3 by auto
  moreover have "0 < card (dom (users s))" using fin a by (auto simp: card_gt_0_iff)
  then have "int (card (dom (users s)) - Suc 0) = int (card (dom (users s))) - 1" by simp
  then have "count_inv ?s'"
    using ci cnt_remove [OF fin a] fin a u cnt_other [of a "dom (users s) - {a}" _ "users s" None]
    by (auto simp: count_inv_def card_Diff_singleton s3_def)
  moreover have "flag_inv serv ?s'"
    using fi by (auto simp: flag_inv_def ran_def split: if_splits)
  ultimately show ?thesis using run by (auto simp: userlist_inv_def)
qed

end

text \<open>Writing fields that are neither the nickname nor a privilege.\<close>

lemma set_user_inv:
  assumes "userlist_inv cmp ok serv s" "users s a = Some u"
    and "u_nick u' = u_nick u" "u_access u' = u_access u" "u_op u' = u_op u" "u_hop u' = u_hop u"
      "u_voice u' = u_voice u"
  shows "userlist_inv cmp ok serv (set_user a u' s)"
proof -
  obtain xs where ti: "tree_inv cmp ok s xs" and ci: "count_inv s" and fi: "flag_inv serv s"
    using assms(1) by (auto simp: userlist_inv_def)
  have doms: "insert a (dom (users s)) = dom (users s)" using assms(2) by auto
  have "nick_at (users (set_user a u' s)) b = nick_at (users s) b" for b
    using assms(2,3) by (simp add: nick_at_upd nick_at_def)
  then have "map (nick_at (users (set_user a u' s))) xs = map (nick_at (users s)) xs"
    by (intro map_cong) auto
  then have "tree_inv cmp ok (set_user a u' s) xs"
    using ti doms unfolding tree_inv_def by (simp del: map_eq_conv)
  moreover have "count_inv (set_user a u' s)"
    using ci cnt_update [OF tree_inv_finite [OF ti] assms(2), of _ u'] assms doms by (simp add: count_inv_def)
  moreover have "flag_inv serv (set_user a u' s)"
    by (rule flag_inv_upd [OF fi, where a = a and u = u']) (use flag_inv_user [OF fi assms(2)] assms in auto)
  ultimately show ?thesis by (auto simp: userlist_inv_def)
qed

text \<open>The loop of \<open>userlist_add\<close> over the prefix characters.\<close>

lemma fold_update_counts:
  "let r = fold (\<lambda>p su. update_counts p True 1 su) ps (s, u)
   in users (fst r) = users s \<and> usertree (fst r) = usertree s \<and> next_addr (fst r) = next_addr s \<and>
      sess_me (fst r) = sess_me s \<and> total (fst r) = total s \<and>
      ops (fst r) = ops s + int (count_list ps (CHR ''@'')) \<and>
      hops (fst r) = hops s + int (count_list ps (CHR ''%'')) \<and>
      voices (fst r) = voices s + int (count_list ps (CHR ''+'')) \<and>
      u_nick (snd r) = u_nick u \<and> u_access (snd r) = u_access u \<and> u_me (snd r) = u_me u \<and>
      u_op (snd r) = (u_op u \<or> CHR ''@'' \<in> set ps) \<and>
      u_hop (snd r) = (u_hop u \<or> CHR ''%'' \<in> set ps) \<and>
      u_voice (snd r) = (u_voice u \<or> CHR ''+'' \<in> set ps)"
proof (induction ps arbitrary: s u)
  case (Cons p ps)
  show ?case
    using Cons [of "fst (update_counts p True 1 (s, u))" "snd (update_counts p True 1 (s, u))"]
    by (auto simp: Let_def)
qed simp

lemma count_list_distinct: "distinct ps \<Longrightarrow> count_list ps c = of_bool (c \<in> set ps)"
  by (induction ps) auto

lemma new_user_counts:
  assumes "count_inv s" "finite (dom (users s))" "a \<notin> dom (users s)"
    and "users s' = (users s)(a \<mapsto> u)" "total s' = total s + 1"
    and "ops s' = ops s + of_bool (u_op u)" "hops s' = hops s + of_bool (u_hop u)"
    and "voices s' = voices s + of_bool (u_voice u)" "sess_me s' = sess_me s \<or> sess_me s' = Some a"
  shows "count_inv s'"
  using assms cnt_insert [OF assms(2), of _ "users s" a u] by (auto simp: count_inv_def)

context nick_order
begin

lemma enter_duplicate:
  assumes ti: "tree_inv cmp ok s xs" and ci: "count_inv s" and fi: "flag_inv serv s"
    and serv: "p_cmp serv = cmp" and nick: "ok (u_nick u)"
    and dup: "b \<in> dom (users s)" "cmp (u_nick u) (nick_at (users s) b) = 0"
  shows "\<exists>s'. userlist_enter serv s u ps = Some s' \<and> userlist_inv cmp ok serv s' \<and> users s' = users s"
proof -
  have pi: "part_inv cmp ok s xs" and dom: "set xs = dom (users s)" and nx: "\<forall>a \<in> set xs. a < next_addr s"
    using ti by (auto simp: tree_inv_part)
  define a where "a = next_addr s"
  have fresh: "a \<notin> dom (users s)" using nx dom by (auto simp: a_def)
  define s2 where "s2 = (set_user a u s)\<lparr>next_addr := Suc a\<rparr>"
  have s2: "users s2 = (users s)(a \<mapsto> u)" "usertree s2 = usertree s" by (simp_all add: s2_def)
  have nk: "nick_at (users s2) a = u_nick u" "\<And>b. b \<in> set xs \<Longrightarrow> nick_at (users s2) b = nick_at (users s) b"
    using dom fresh by (auto simp: s2(1) nick_at_upd)
  have p2: "part_inv cmp ok s2 xs"
    by (rule part_inv_frame [OF pi]) (use s2 dom fresh in \<open>auto simp: nick_at_upd\<close>)
  obtain t' where ins: "userlist_insertname serv s2 a = Some (-1, s2\<lparr>usertree := Some t'\<rparr>)"
    "part_inv cmp ok (s2\<lparr>usertree := Some t'\<rparr>) xs"
    using insert_part_duplicate [OF p2 serv, of a b] dup nk nick s2(1) dom by auto
  let ?s' = "s2\<lparr>usertree := Some t', users := users s\<rparr>"
  have "((users s)(a \<mapsto> u))(a := None) = users s" using fresh by (auto simp: domIff)
  then have run: "userlist_enter serv s u ps = Some ?s'"
    using ins(1) s2(1) by (simp add: userlist_enter_def free_user_def Let_def flip: a_def s2_def)
  have "part_inv cmp ok ?s' xs"
    by (rule part_inv_frame [OF ins(2)]) (use dom nk in auto)
  then have "tree_inv cmp ok ?s' xs"
    unfolding tree_inv_part using dom nx by (force simp: a_def s2_def less_Suc_eq)
  moreover have "count_inv ?s'" "flag_inv serv ?s'"
    using ci fi by (auto simp: count_inv_def flag_inv_def s2_def)
  ultimately show ?thesis using run by (auto simp: userlist_inv_def)
qed

lemma enter_new:
  assumes ti: "tree_inv cmp ok s xs" and ci: "count_inv s" and fi: "flag_inv serv s"
    and serv: "p_cmp serv = cmp" and nick: "ok (u_nick u)"
    and new: "\<forall>b \<in> dom (users s). cmp (u_nick u) (nick_at (users s) b) \<noteq> 0"
    and flags: "\<not> u_op u" "\<not> u_hop u" "\<not> u_voice u" "distinct ps"
      "\<forall>p. has_prefix serv (u_access u) p \<longleftrightarrow> p \<in> set ps"
  shows "\<exists>s' u'. userlist_enter serv s u ps = Some s' \<and> userlist_inv cmp ok serv s' \<and>
     users s' = (users s)(next_addr s \<mapsto> u') \<and> u_nick u' = u_nick u \<and> u_access u' = u_access u"
proof -
  have pi: "part_inv cmp ok s xs" and dom: "set xs = dom (users s)" and nx: "\<forall>a \<in> set xs. a < next_addr s"
    using ti by (auto simp: tree_inv_part)
  define a where "a = next_addr s"
  have fresh: "a \<notin> dom (users s)" using nx dom by (auto simp: a_def)
  define s2 where "s2 = (set_user a u s)\<lparr>next_addr := Suc a\<rparr>"
  have p2: "part_inv cmp ok s2 xs"
    by (rule part_inv_frame [OF pi]) (use dom fresh in \<open>auto simp: nick_at_upd s2_def\<close>)
  have nd: "\<forall>b \<in> set xs. cmp (nick_at (users s2) a) (nick_at (users s2) b) \<noteq> 0"
    using dom new fresh by (auto simp: s2_def nick_at_upd)
  obtain row t' xs' where ins: "userlist_insertname serv s2 a = Some (row, s2\<lparr>usertree := Some t'\<rparr>)" "row \<noteq> -1"
    "part_inv cmp ok (s2\<lparr>usertree := Some t'\<rparr>) xs'" "set xs' = insert a (set xs)"
    using insert_part [OF p2 serv _ _ _ nd] fresh dom nick by (auto simp: s2_def nick_at_upd)
  define r where "r = fold (\<lambda>p su. update_counts p True 1 su) ps
      (s2\<lparr>usertree := Some t', total := total s2 + 1\<rparr>, u)"
  note R = fold_update_counts [of ps "s2\<lparr>usertree := Some t', total := total s2 + 1\<rparr>" u,
      folded r_def, unfolded Let_def]
  have op: "u_op (snd r) = has_prefix serv (u_access u) (CHR ''@'')"
    "u_hop (snd r) = has_prefix serv (u_access u) (CHR ''%'')"
    "u_voice (snd r) = has_prefix serv (u_access u) (CHR ''+'')"
    using R flags by auto
  have r: "users (fst r) = (users s)(a \<mapsto> u)" "usertree (fst r) = Some t'" "next_addr (fst r) = Suc a"
    "sess_me (fst r) = sess_me s" "total (fst r) = total s + 1"
    "u_nick (snd r) = u_nick u" "u_access (snd r) = u_access u"
    "ops (fst r) = ops s + of_bool (u_op (snd r))" "hops (fst r) = hops s + of_bool (u_hop (snd r))"
    "voices (fst r) = voices s + of_bool (u_voice (snd r))"
    using R by (auto simp: s2_def op flags(5) count_list_distinct [OF flags(4)])
  define s4 where "s4 = (let s3 = set_user a (snd r) (fst r) in if u_me (snd r) then s3\<lparr>sess_me := Some a\<rparr> else s3)"
  have s4: "users s4 = (users s)(a \<mapsto> snd r)" "usertree s4 = Some t'" "next_addr s4 = Suc a"
    by (simp_all add: s4_def Let_def r)
  have run: "userlist_enter serv s u ps =
      Some (let s5 = emit (Fe_Userlist_Insert a) s4 in if end_of_names s5 then emit Fe_Userlist_Numbers s5 else s5)"
    using ins(1,2) unfolding userlist_enter_def s4_def by (simp add: case_prod_beta Let_def r_def flip: a_def s2_def)
  have "part_inv cmp ok s4 xs'"
    by (rule part_inv_frame [OF ins(3)]) (use ins(4) dom s4 r in \<open>auto simp: nick_at_upd s2_def\<close>)
  then have "tree_inv cmp ok s4 xs'"
    unfolding tree_inv_part using ins(4) dom nx s4 by (auto simp: a_def less_Suc_eq)
  moreover have "count_inv s4"
    by (rule new_user_counts [OF ci tree_inv_finite [OF ti] fresh s4(1)]) (simp_all add: s4_def Let_def r)
  moreover have "flag_inv serv s4"
    by (rule flag_inv_upd [OF fi s4(1)]) (simp_all add: r op)
  ultimately show ?thesis
    using run s4(1) r by (auto simp: Let_def userlist_inv_def a_def)
qed

lemma add_inv:
  assumes inv: "userlist_inv cmp ok serv s" and serv: "p_cmp serv = cmp" "prefix_ok serv" "\<not> bad_prefix serv"
    and n: "n = prefix_len serv name" and nick: "safe_strcpy skip (drop n name) NICKLEN = Some nick" "ok nick"
    and dist: "distinct (take n name)"
  shows "\<exists>s'. userlist_add skip serv s name hostname account realname = Some s' \<and>
     userlist_inv cmp ok serv s' \<and>
     (if \<exists>b \<in> dom (users s). cmp nick (nick_at (users s) b) = 0 then users s' = users s
      else \<exists>u'. users s' = (users s)(next_addr s \<mapsto> u') \<and> u_nick u' = nick \<and>
             (\<forall>p. has_prefix serv (u_access u') p \<longleftrightarrow> p \<in> set (take n name)))"
proof -
  obtain acc where acc: "nick_access serv name = Some (acc, n)"
    "\<forall>p. has_prefix serv acc p \<longleftrightarrow> p \<in> set (take n name)"
    using nick_access_spec [OF serv(2,3), of name] n by blast
  define s1 where "s1 = emit (Notify_Set_Online (drop n name)) s"
  define u where "u = make_user serv name acc n nick hostname account realname"
  have u: "u_nick u = nick" "u_access u = acc" "\<not> u_op u" "\<not> u_hop u" "\<not> u_voice u"
    by (simp_all add: u_def make_user_def new_user_def)
  obtain xs where ti: "tree_inv cmp ok s1 xs" and ci: "count_inv s1" and fi: "flag_inv serv s1"
    using inv by (auto simp: userlist_inv_def s1_def)
  have run: "userlist_add skip serv s name hostname account realname = userlist_enter serv s1 u (take n name)"
    using acc(1) nick(1) by (simp add: userlist_add_def s1_def u_def)
  show ?thesis
  proof (cases "\<exists>b \<in> dom (users s). cmp nick (nick_at (users s) b) = 0")
    case True
    then obtain b where "b \<in> dom (users s1)" "cmp (u_nick u) (nick_at (users s1) b) = 0"
      using u(1) by (auto simp: s1_def)
    from enter_duplicate [OF ti ci fi serv(1) _ this] True run u(1) nick(2) show ?thesis
      by (auto simp: s1_def)
  next
    case False
    then have "\<forall>b \<in> dom (users s1). cmp (u_nick u) (nick_at (users s1) b) \<noteq> 0"
      using u(1) by (auto simp: s1_def)
    from enter_new [OF ti ci fi serv(1) _ this u(3-5) dist] u nick(2) acc(2)
    obtain s' u' where "userlist_enter serv s1 u (take n name) = Some s'" "userlist_inv cmp ok serv s'"
      "users s' = (users s)(next_addr s \<mapsto> u')" "u_nick u' = nick" "u_access u' = acc"
      by (auto simp: s1_def)
    with False run acc(2) show ?thesis by auto
  qed
qed

end

context nick_order
begin

lemma remove_inv:
  assumes inv: "userlist_inv cmp ok serv s" and serv: "p_cmp serv = cmp" and nick: "ok name"
  shows "\<exists>b s'. userlist_remove serv s name = Some (b, s') \<and> userlist_inv cmp ok serv s' \<and>
     (if b then \<exists>a. cmp name (nick_at (users s) a) = 0 \<and> a \<in> dom (users s) \<and> users s' = (users s)(a := None)
      else s' = s \<and> (\<forall>a \<in> dom (users s). cmp name (nick_at (users s) a) \<noteq> 0))"
proof -
  obtain xs where ti: "tree_inv cmp ok s xs" using inv by (auto simp: userlist_inv_def)
  have pi: "part_inv cmp ok s xs" and dom: "set xs = dom (users s)" using ti by (auto simp: tree_inv_part)
  show ?thesis
  proof (cases rule: find_cases [OF pi serv nick, case_names hit miss])
    case (hit a)
    then obtain s' where "userlist_remove_user serv s a = Some s'" "userlist_inv cmp ok serv s'"
      "users s' = (users s)(a := None)"
      using remove_user_inv [OF inv serv, of a] dom by auto
    with hit dom show ?thesis
      by (intro exI [of _ True] exI [of _ s']) (auto simp: userlist_remove_def)
  next
    case miss
    with inv dom show ?thesis by (auto simp: userlist_remove_def intro!: exI [of _ False])
  qed
qed

text \<open>The operations that look a nick up and change fields that carry neither order nor privileges.\<close>

lemma lookup_total:
  assumes inv: "userlist_inv cmp ok serv s" and serv: "p_cmp serv = cmp" and nick: "ok name"
  obtains "userlist_find serv s name = Some None"
    | a u where "userlist_find serv s name = Some (Some a)" "users s a = Some u"
proof -
  obtain xs where ti: "tree_inv cmp ok s xs" using inv by (auto simp: userlist_inv_def)
  have pi: "part_inv cmp ok s xs" and dom: "set xs = dom (users s)" using ti by (auto simp: tree_inv_part)
  from find_cases [OF pi serv nick] dom that show ?thesis by (metis domD)
qed

lemma set_away_inv:
  assumes "userlist_inv cmp ok serv s" "p_cmp serv = cmp" "ok name"
  shows "\<exists>s'. userlist_set_away serv s name away = Some s' \<and> userlist_inv cmp ok serv s'"
proof (rule lookup_total [OF assms])
  fix a u
  assume "userlist_find serv s name = Some (Some a)" "users s a = Some u"
  with set_user_inv [OF assms(1), of a u "u\<lparr>u_away := odd away\<rparr>"] assms(1) show ?thesis
    by (auto simp: userlist_set_away_def Let_def)
qed (use assms(1) in \<open>simp add: userlist_set_away_def\<close>)

lemma set_account_inv:
  assumes "userlist_inv cmp ok serv s" "p_cmp serv = cmp" "ok name"
  shows "\<exists>s'. userlist_set_account serv s name account = Some s' \<and> userlist_inv cmp ok serv s'"
proof (rule lookup_total [OF assms])
  fix a u
  assume "userlist_find serv s name = Some (Some a)" "users s a = Some u"
  with set_user_inv [OF assms(1), of a u "u\<lparr>u_account := x\<rparr>" for x] assms(1) show ?thesis
    by (auto simp: userlist_set_account_def)
qed (use assms(1) in \<open>simp add: userlist_set_account_def\<close>)

end

lemma hostname_fields_keep:
  "u_nick (hostname_fields h r sv ac aw u) = u_nick u" "u_access (hostname_fields h r sv ac aw u) = u_access u"
  "u_op (hostname_fields h r sv ac aw u) = u_op u" "u_hop (hostname_fields h r sv ac aw u) = u_hop u"
  "u_voice (hostname_fields h r sv ac aw u) = u_voice u"
  by (simp_all add: hostname_fields_def Let_def split: option.split list.split)

context nick_order
begin

lemma add_hostname_inv:
  assumes "userlist_inv cmp ok serv s" "p_cmp serv = cmp" "ok name"
  shows "\<exists>b s'. userlist_add_hostname sh serv s name h r sv ac aw = Some (b, s') \<and> userlist_inv cmp ok serv s'"
proof (rule lookup_total [OF assms])
  fix a u
  assume *: "userlist_find serv s name = Some (Some a)" "users s a = Some u"
  have "userlist_inv cmp ok serv (set_user a (hostname_fields h r sv ac aw u) s)"
    by (rule set_user_inv [OF assms(1) *(2)]) (simp_all add: hostname_fields_keep)
  with * show ?thesis by (auto simp: userlist_add_hostname_def Let_def)
qed (use assms(1) in \<open>auto simp: userlist_add_hostname_def\<close>)

end

section \<open>Traversals\<close>

lemma fold_free_user:
  "distinct xs \<Longrightarrow> set xs \<subseteq> dom h \<Longrightarrow>
     fold (\<lambda>a h. free_user a h) xs (Some h) = Some (\<lambda>b. if b \<in> set xs then None else h b)"
proof (induction xs arbitrary: h)
  case (Cons a xs)
  have "free_user a (Some h) = Some (h(a := None))" using Cons.prems by (auto simp: free_user_def)
  moreover have "set xs \<subseteq> dom (h(a := None))" using Cons.prems by auto
  ultimately have "fold free_user (a # xs) (Some h) = Some (\<lambda>b. if b \<in> set xs then None else (h(a := None)) b)"
    using Cons.IH [of "h(a := None)"] Cons.prems by (simp del: fun_upd_apply)
  then show ?case by (auto simp: fun_eq_iff)
qed simp

lemma userlist_free_all:
  assumes "tree_inv cmp ok s xs"
  shows "userlist_free s = Some (s\<lparr>users := Map.empty, usertree := None, sess_me := None,
     ops := 0, hops := 0, voices := 0, total := 0\<rparr>)"
proof (cases "usertree s")
  case None
  then have "dom (users s) = {}" using assms by (auto simp: tree_inv_def simp del: dom_eq_empty_conv)
  then have "users s = Map.empty" by simp
  with None show ?thesis by (simp add: userlist_free_def)
next
  case (Some t)
  then have h: "holds t xs" "distinct xs" "set xs = dom (users s)" using assms by (auto simp: tree_inv_def)
  have "(\<lambda>b. if b \<in> set xs then None else users s b) = Map.empty"
    using h(3) by (auto simp: fun_eq_iff)
  then have "tree_foreach (\<lambda>a h. (True, free_user a h)) t (Some (users s)) = Some (Some Map.empty)"
    using tree_foreach_fold [OF h(1), of "\<lambda>a h. (True, free_user a h)"] fold_free_user [OF h(2), of "users s"] h(3)
    by simp
  with Some show ?thesis by (simp add: userlist_free_def)
qed

lemma fold_push: "fold (\<lambda>a l. a # l) xs acc = rev xs @ acc"
  by (induction xs arbitrary: acc) auto

lemma userlist_flat_list_sorted:
  assumes "tree_inv cmp ok s xs"
  shows "userlist_flat_list s = Some xs" "userlist_double_list s = Some (rev xs)"
proof -
  have "collect_users s = Some (rev xs)"
  proof (cases "usertree s")
    case None
    then show ?thesis using assms by (simp add: collect_users_def tree_inv_def)
  next
    case (Some t)
    then have "holds t xs" using assms by (simp add: tree_inv_def)
    from tree_foreach_fold [OF this, of "\<lambda>a l. (True, a # l)"] Some show ?thesis
      by (simp add: collect_users_def fold_push)
  qed
  then show "userlist_flat_list s = Some xs" "userlist_double_list s = Some (rev xs)"
    by (simp_all add: userlist_flat_list_def userlist_double_list_def)
qed

interpretation nicks: nick_order rfc_casecmp plain_nick
  by unfold_locales

section \<open>Histories of operations\<close>

text \<open>The operations a server's messages trigger, with the inputs the invariant is claimed for: ASCII
  nicknames, prefixes that are not repeated, known modes, and renames that do not hit another user.\<close>

datatype ul_op =
    Op_Add string "string option" "string option" "string option"
  | Op_Remove string
  | Op_Change string string
  | Op_Mode string char char
  | Op_Away string nat
  | Op_Account string string
  | Op_Hostname bool string "string option" "string option" "string option" "string option" nat
  | Op_Clear

definition ul_apply :: "(char \<Rightarrow> nat) \<Rightarrow> server \<Rightarrow> session \<Rightarrow> ul_op \<Rightarrow> session option" where
  "ul_apply skip serv s opn =
     (case opn of
        Op_Add name h ac r \<Rightarrow> userlist_add skip serv s name h ac r
      | Op_Remove name \<Rightarrow> map_option snd (userlist_remove serv s name)
      | Op_Change old new \<Rightarrow> map_option snd (userlist_change skip serv s old new)
      | Op_Mode name mode sign \<Rightarrow> userlist_update_mode serv s name mode sign
      | Op_Away name aw \<Rightarrow> userlist_set_away serv s name aw
      | Op_Account name ac \<Rightarrow> userlist_set_account serv s name ac
      | Op_Hostname sh name h r sv ac aw \<Rightarrow> map_option snd (userlist_add_hostname sh serv s name h r sv ac aw)
      | Op_Clear \<Rightarrow> userlist_clear s)"

definition ul_admissible :: "server \<Rightarrow> session \<Rightarrow> ul_op \<Rightarrow> bool" where
  "ul_admissible serv s opn \<longleftrightarrow>
     (case opn of
        Op_Add name h ac r \<Rightarrow> plain_nick name \<and> distinct (take (prefix_len serv name) name)
      | Op_Remove name \<Rightarrow> plain_nick name
      | Op_Change old new \<Rightarrow> plain_nick old \<and> plain_nick new \<and>
          (\<forall>a \<in> dom (users s). rfc_casecmp old (nick_at (users s) a) \<noteq> 0 \<longrightarrow>
             rfc_casecmp (take 63 new) (nick_at (users s) a) \<noteq> 0)
      | Op_Mode name mode sign \<Rightarrow> plain_nick name \<and> mode \<in> set (nick_modes serv)
      | Op_Away name aw \<Rightarrow> plain_nick name
      | Op_Account name ac \<Rightarrow> plain_nick name
      | Op_Hostname sh name h r sv ac aw \<Rightarrow> plain_nick name
      | Op_Clear \<Rightarrow> True)"

definition empty_session :: session where
  "empty_session =
     \<lparr>sess_type = SESS_CHANNEL, users = Map.empty, next_addr = 0, usertree = None, sess_me = None, channel = [], channelkey = [],
      limit = 0, ops = 0, hops = 0, voices = 0, total = 0, current_modes = [], ignore_mode = False, ignore_date = False,
      end_of_names = False, ignore_names = False, waitchannel = [], sess_topic = None, doing_who = False,
      done_away_check = False, log_open = False, mode_timer = False, log = []\<rparr>"

inductive ul_reachable :: "(char \<Rightarrow> nat) \<Rightarrow> server \<Rightarrow> session \<Rightarrow> bool" for skip serv where
  ul_init: "ul_reachable skip serv empty_session"
| ul_step: "ul_reachable skip serv s \<Longrightarrow> ul_admissible serv s opn \<Longrightarrow> ul_apply skip serv s opn = Some s' \<Longrightarrow>
     ul_reachable skip serv s'"

definition nick_server :: "server \<Rightarrow> bool" where
  "nick_server serv \<longleftrightarrow> p_cmp serv = rfc_casecmp \<and> prefix_ok serv \<and> \<not> bad_prefix serv"

abbreviation nicks_inv :: "server \<Rightarrow> session \<Rightarrow> bool" where
  "nicks_inv \<equiv> userlist_inv rfc_casecmp plain_nick"

lemma plain_nick_take_drop:
  "plain_nick s \<Longrightarrow> plain_nick (take n s)" "plain_nick s \<Longrightarrow> plain_nick (drop n s)"
  by (auto simp: plain_nick_def ascii_def cstring_def list_all_iff dest: in_set_takeD in_set_dropD)

lemma nick_copy:
  assumes "ascii_skip skip" "plain_nick s"
  shows "safe_strcpy skip s NICKLEN = Some (take 63 s)"
  using safe_strcpy_short_skip [of skip s NICKLEN] assms by (simp add: ascii_skip_def plain_nick_def NICKLEN_def)

lemma empty_session_inv: "nicks_inv serv empty_session"
  by (simp add: userlist_inv_def tree_inv_def count_inv_def flag_inv_def empty_session_def cnt_def ordered_by_def)

lemma clear_inv:
  assumes "userlist_inv cmp ok serv s"
  shows "\<exists>s'. userlist_clear s = Some s' \<and> userlist_inv cmp ok serv s' \<and> users s' = Map.empty"
proof -
  obtain xs where "tree_inv cmp ok (emit Fe_Userlist_Clear s) xs"
    using assms by (auto simp: userlist_inv_def)
  from userlist_free_all [OF this] show ?thesis
    by (auto simp: userlist_clear_def userlist_inv_def tree_inv_def count_inv_def flag_inv_def cnt_def ordered_by_def)
qed

lemma nicks_find_cases:
  assumes "nicks_inv serv s" "nick_server serv" "plain_nick name"
  obtains (hit) a u where "userlist_find serv s name = Some (Some a)" "users s a = Some u"
      "rfc_casecmp name (u_nick u) = 0"
    | (miss) "userlist_find serv s name = Some None" "\<forall>u \<in> ran (users s). rfc_casecmp name (u_nick u) \<noteq> 0"
proof -
  obtain xs where ti: "tree_inv rfc_casecmp plain_nick s xs" using assms(1) by (auto simp: userlist_inv_def)
  have pi: "part_inv rfc_casecmp plain_nick s xs" and dom: "set xs = dom (users s)"
    using ti by (auto simp: tree_inv_part)
  have cmp: "p_cmp serv = rfc_casecmp" using assms(2) by (simp add: nick_server_def)
  show thesis
  proof (cases rule: nicks.find_cases [OF pi cmp assms(3), case_names hit miss])
    case (hit a)
    then show ?thesis using dom that(1) by (auto simp: nick_at_def)
  next
    case miss
    then have "rfc_casecmp name (u_nick u) \<noteq> 0" if "users s b = Some u" for b u
      using that dom by (auto simp: nick_at_def dest: bspec [of _ _ b])
    then show ?thesis using miss that(2) by (auto simp: ran_def)
  qed
qed

lemma nicks_find_iff:
  assumes "nicks_inv serv s" "nick_server serv" "plain_nick name"
  shows "\<exists>r. userlist_find serv s name = Some r \<and>
     (\<forall>a. r = Some a \<longleftrightarrow> (\<exists>u. users s a = Some u \<and> rfc_strlower (u_nick u) = rfc_strlower name))"
proof -
  obtain xs where ti: "tree_inv rfc_casecmp plain_nick s xs" using assms(1) by (auto simp: userlist_inv_def)
  have pi: "part_inv rfc_casecmp plain_nick s xs" and dom: "set xs = dom (users s)"
    using ti by (auto simp: tree_inv_part)
  have eq: "rfc_strlower (u_nick u) = rfc_strlower name \<longleftrightarrow> rfc_casecmp name (u_nick u) = 0"
    if "users s a = Some u" for a u
  proof -
    have "a \<in> set xs" using that dom by auto
    from nicks.part_ok [OF pi this] have "plain_nick (u_nick u)" using that by (simp add: nick_at_def)
    with assms(3) rfc_casecmp_eq_0 [of name "u_nick u"] show ?thesis by (auto simp: plain_nick_def)
  qed
  show ?thesis
  proof (cases rule: nicks_find_cases [OF assms, case_names hit miss])
    case (hit a u)
    have "b = a" if "users s b = Some v" "rfc_casecmp name (u_nick v) = 0" for b v
      using nicks.find_hit [OF pi _ assms(3), of serv b] that hit dom assms(2)
      by (auto simp: nick_server_def nick_at_def)
    with hit eq show ?thesis by blast
  next
    case miss
    with eq show ?thesis by (auto simp: ran_def)
  qed
qed

lemma ex_nick_ran: "(\<exists>b \<in> dom h. P (nick_at h b)) \<longleftrightarrow> (\<exists>v \<in> ran h. P (u_nick v))"
proof
  assume "\<exists>v \<in> ran h. P (u_nick v)"
  then obtain a v where "h a = Some v" "P (u_nick v)" by (auto simp: ran_def)
  then show "\<exists>b \<in> dom h. P (nick_at h b)" by (intro bexI [of _ a]) (auto simp: nick_at_def)
qed (auto simp: nick_at_def ran_def)

lemma nicks_add:
  assumes "nicks_inv serv s" "nick_server serv" "ascii_skip skip" "plain_nick name"
    and "distinct (take (prefix_len serv name) name)"
  shows "\<exists>s'. userlist_add skip serv s name hostname account realname = Some s' \<and> nicks_inv serv s' \<and>
     (let nick = take 63 (drop (prefix_len serv name) name) in
      if \<exists>b \<in> dom (users s). rfc_casecmp nick (nick_at (users s) b) = 0 then users s' = users s
      else \<exists>u'. users s' = (users s)(next_addr s \<mapsto> u') \<and> u_nick u' = nick \<and>
             (\<forall>p. has_prefix serv (u_access u') p \<longleftrightarrow> p \<in> set (take (prefix_len serv name) name)))"
  unfolding Let_def
  using assms plain_nick_take_drop
  by (intro nicks.add_inv [OF assms(1) _ _ _ refl nick_copy _ assms(5)]) (auto simp: nick_server_def)

lemma nicks_change:
  assumes inv: "nicks_inv serv s" and serv: "nick_server serv" and skip: "ascii_skip skip"
    and adm: "ul_admissible serv s (Op_Change old new)"
  shows "\<exists>b s'. userlist_change skip serv s old new = Some (b, s') \<and> nicks_inv serv s'"
proof -
  have p: "plain_nick old" "plain_nick new" using adm by (auto simp: ul_admissible_def)
  show ?thesis
  proof (cases rule: nicks_find_cases [OF inv serv p(1), case_names hit miss])
    case (hit a u)
    obtain xs where ti: "tree_inv rfc_casecmp plain_nick s xs" using inv by (auto simp: userlist_inv_def)
    have pi: "part_inv rfc_casecmp plain_nick s xs" and dom: "set xs = dom (users s)"
      using ti by (auto simp: tree_inv_part)
    have "rfc_casecmp old (nick_at (users s) b) \<noteq> 0" if b: "b \<in> dom (users s) - {a}" for b
    proof -
      have "rfc_casecmp (nick_at (users s) a) (nick_at (users s) b) \<noteq> 0"
        using nicks.others_differ [OF pi, of a b] hit b dom by auto
      moreover have "plain_nick (nick_at (users s) a)" "plain_nick (nick_at (users s) b)"
        using nicks.part_ok [OF pi] hit(2) b dom by auto
      ultimately show ?thesis
        using hit(2,3) p(1) by (auto simp: nick_at_def [of _ a] rfc_casecmp_eq_0 plain_nick_def)
    qed
    then have nd: "\<forall>b \<in> dom (users s) - {a}. rfc_casecmp (take 63 new) (nick_at (users s) b) \<noteq> 0"
      using adm by (auto simp: ul_admissible_def)
    from nicks.change_inv [OF inv _ hit(1) p(1) nick_copy [OF skip p(2)] plain_nick_take_drop(1) [OF p(2)] nd] serv
    show ?thesis by (auto simp: nick_server_def)
  next
    case miss
    then show ?thesis using inv by (auto simp: userlist_change_def)
  qed
qed

lemma nicks_mode:
  assumes inv: "nicks_inv serv s" and serv: "nick_server serv"
    and p: "plain_nick name" "mode \<in> set (nick_modes serv)"
  shows "\<exists>s'. userlist_update_mode serv s name mode sign = Some s' \<and> nicks_inv serv s'"
proof (cases rule: nicks_find_cases [OF inv serv p(1), case_names hit miss])
  case (hit a u)
  obtain i where i: "index_of mode (nick_modes serv) = Some i" using p(2) index_of_None [of mode] by fastforce
  from nicks.update_mode_inv [OF inv _ _ hit(1) p(1) i, of sign] serv show ?thesis by (auto simp: nick_server_def)
next
  case miss
  then show ?thesis using inv by (auto simp: userlist_update_mode_def)
qed

lemma ul_apply_inv:
  assumes inv: "nicks_inv serv s" and serv: "nick_server serv" and skip: "ascii_skip skip"
    and adm: "ul_admissible serv s opn"
  shows "\<exists>s'. ul_apply skip serv s opn = Some s' \<and> nicks_inv serv s'"
proof (cases opn)
  case (Op_Add name h ac r)
  with nicks_add [OF inv serv skip] adm show ?thesis by (fastforce simp: ul_apply_def ul_admissible_def)
next
  case (Op_Remove name)
  with nicks.remove_inv [OF inv, of name] adm serv show ?thesis
    by (fastforce simp: ul_apply_def ul_admissible_def nick_server_def)
next
  case (Op_Change old new)
  with nicks_change [OF inv serv skip] adm show ?thesis by (fastforce simp: ul_apply_def)
next
  case (Op_Mode name mode sign)
  with nicks_mode [OF inv serv] adm show ?thesis by (auto simp: ul_apply_def ul_admissible_def)
next
  case (Op_Away name aw)
  with nicks.set_away_inv [OF inv] adm serv show ?thesis
    by (auto simp: ul_apply_def ul_admissible_def nick_server_def)
next
  case (Op_Account name ac)
  with nicks.set_account_inv [OF inv] adm serv show ?thesis
    by (auto simp: ul_apply_def ul_admissible_def nick_server_def)
next
  case (Op_Hostname sh name h r sv ac aw)
  with nicks.add_hostname_inv [OF inv, of name sh h r sv ac aw] adm serv show ?thesis
    by (auto simp: ul_apply_def ul_admissible_def nick_server_def)
next
  case Op_Clear
  with clear_inv [OF inv] show ?thesis by (auto simp: ul_apply_def)
qed

lemma ul_reachable_inv:
  assumes "ul_reachable skip serv s" "nick_server serv" "ascii_skip skip"
  shows "nicks_inv serv s"
  using assms(1)
proof (induction rule: ul_reachable.induct)
  case ul_init
  show ?case by (rule empty_session_inv)
next
  case (ul_step s opn s')
  with ul_apply_inv [OF _ assms(2,3), of s opn] show ?case by auto
qed

section \<open>Properties\<close>

text \<open>A server with the usual prefixes, and a channel with two users, for concrete runs.\<close>

definition demo_server :: server where
  "demo_server =
     \<lparr>p_cmp = rfc_casecmp, my_nick = ''me'', chantypes = ''#&'', chanmodes = ''beI,k,l,imnpst'',
      nick_prefixes = ''@%+'', nick_modes = ''ohv'', bad_prefix = False, bad_nick_prefixes = [],
      modes_per_line = 3, have_extjoin = False, supports_watch = False, supports_monitor = False,
      account_required = False, end_of_motd = False, client_tag_deny = None, utf8only = False,
      encoding = Some ''UTF-8'', have_namesx = False, have_whox = False, have_except = False,
      have_invite = False, use_listargs = False, chathistory_limit = 0, chathistory_retention_secs = 0,
      multiline_max_bytes = 0, multiline_max_lines = 0, network_icon_url = None,
      have_uhnames = False\<rparr>"

definition demo_session :: session where
  "demo_session = empty_session
     \<lparr>users := [0 \<mapsto> new_user\<lparr>u_nick := ''Bob'', u_access := 1, u_op := True, u_prefix := CHR ''@''\<rparr>,
                1 \<mapsto> new_user\<lparr>u_nick := ''alice''\<rparr>],
      next_addr := 2, usertree := Some \<lparr>elements = 2, array = [Some 1, Some 0, None]\<rparr>,
      ops := 1, total := 2\<rparr>"

lemma demo_server_ok [simp]: "nick_server demo_server"
  by (simp add: nick_server_def demo_server_def prefix_ok_def)

lemma plain_nick_code [simp]: "plain_nick [] = True" "plain_nick (c # s) = (uchar c < 128 \<and> c \<noteq> NUL \<and> plain_nick s)"
  by (auto simp: plain_nick_def ascii_def)

lemma demo_session_inv: "nicks_inv demo_server demo_session"
proof -
  have "tree_inv rfc_casecmp plain_nick demo_session [1, 0]"
    by (auto simp: tree_inv_def demo_session_def empty_session_def holds_def ordered_by_def nick_at_def new_user_def
        uchar_def schar_def rfc_tolower_eq)
  moreover have "count_inv demo_session" "flag_inv demo_server demo_session"
    by (auto simp: count_inv_def flag_inv_def demo_session_def demo_server_def empty_session_def cnt_def new_user_def
        has_prefix_def ran_def)
  ultimately show ?thesis by (auto simp: userlist_inv_def)
qed

text \<open>C1: Start from an empty user list and apply any sequence of joins, parts, renames, mode changes,
  away, account and host updates and clears that the server's messages trigger (ASCII nicknames, no repeated
  prefix, known modes, no rename onto another user's nick). Then the user tree holds every allocated user
  exactly once in strictly increasing nick order, \<open>ops\<close>, \<open>hops\<close>, \<open>voices\<close> and \<open>total\<close> equal the numbers of
  users so flagged, the flags agree with the access bits and \<open>me\<close> does not dangle; and the next operation is
  defined (no freed user is read, no array bound is passed, the searches end) and keeps all of this.\<close>

theorem userlist_reachable_safe:
  assumes "ul_reachable skip serv s" "nick_server serv" "ascii_skip skip" "ul_admissible serv s opn"
  shows "nicks_inv serv s \<and> (\<exists>s'. ul_apply skip serv s opn = Some s' \<and> nicks_inv serv s')"
  using ul_reachable_inv [OF assms(1-3)] ul_apply_inv [OF _ assms(2-4)] by blast

theorem userlist_reachable_safe_witness:
  "ul_reachable (\<lambda>c. 1) demo_server empty_session \<and>
   (\<exists>s'. ul_apply (\<lambda>c. 1) demo_server empty_session (Op_Add ''@Alice'' None None None) = Some s' \<and>
         nicks_inv demo_server s')"
proof -
  have "ul_admissible demo_server empty_session (Op_Add ''@Alice'' None None None)"
    by (simp add: ul_admissible_def prefix_len_def demo_server_def uchar_def)
  with userlist_reachable_safe [of "\<lambda>c. 1" demo_server empty_session] ul_init show ?thesis
    by (simp add: ascii_skip_def)
qed

text \<open>In a user list that satisfies the invariant, \<open>userlist_find\<close> terminates without reading freed memory
  and returns a user if and only if that user's nick equals the name under RFC 1459 case folding; in particular
  at most one user answers to a name.\<close>

theorem userlist_find_correct:
  assumes "nicks_inv serv s" "nick_server serv" "plain_nick name"
  shows "\<exists>r. userlist_find serv s name = Some r \<and>
     (\<forall>a. r = Some a \<longleftrightarrow> (\<exists>u. users s a = Some u \<and> rfc_strlower (u_nick u) = rfc_strlower name))"
  using assms by (rule nicks_find_iff)

theorem userlist_find_correct_witness:
  "\<exists>r. userlist_find demo_server demo_session ''ALICE'' = Some r \<and>
     (\<forall>a. r = Some a \<longleftrightarrow>
        (\<exists>u. users demo_session a = Some u \<and> rfc_strlower (u_nick u) = rfc_strlower ''ALICE''))"
  by (rule userlist_find_correct [OF demo_session_inv]) (simp_all add: uchar_def)





text \<open>\<open>userlist_flat_list\<close> returns every user of the channel exactly once, sorted strictly by nick, and
  the session's counters are the lengths of the list and of its parts; \<open>userlist_double_list\<close> returns the same
  users in the opposite order.\<close>

theorem userlist_flat_list_correct:
  assumes "nicks_inv serv s"
  shows "\<exists>xs. userlist_flat_list s = Some xs \<and> userlist_double_list s = Some (rev xs) \<and> distinct xs \<and>
     set xs = dom (users s) \<and> sorted_wrt (\<lambda>a b. rfc_casecmp (nick_at (users s) a) (nick_at (users s) b) < 0) xs \<and>
     total s = int (length xs) \<and> ops s = int (length (filter (\<lambda>a. u_op (the (users s a))) xs))"
proof -
  obtain xs where ti: "tree_inv rfc_casecmp plain_nick s xs" and ci: "count_inv s"
    using assms by (auto simp: userlist_inv_def)
  then have xs: "distinct xs" "set xs = dom (users s)" "ordered_by rfc_casecmp plain_nick (map (nick_at (users s)) xs)"
    by (auto simp: tree_inv_def)
  have c: "cnt P h (set ys) = int (length (filter (\<lambda>a. P (the (h a))) ys))" if "distinct ys" for P h ys
    using that by (induction ys) (auto simp: cnt_def)
  have "ops s = int (length (filter (\<lambda>a. u_op (the (users s a))) xs))" "total s = int (length xs)"
    using ci c [OF xs(1)] distinct_card [OF xs(1)] unfolding count_inv_def xs(2) by simp_all
  with userlist_flat_list_sorted [OF ti] xs show ?thesis
    unfolding ordered_by_def sorted_wrt_map by blast
qed

theorem userlist_flat_list_correct_witness:
  "\<exists>xs. userlist_flat_list demo_session = Some xs \<and> total demo_session = int (length xs)"
  using userlist_flat_list_correct [OF demo_session_inv] by blast

text \<open>\<open>userlist_clear\<close> frees every user exactly once (a second release of a user would make the run undefined),
  leaves no tree, no user and no \<open>me\<close>, and sets all four counters to zero.\<close>

theorem userlist_clear_frees_all:
  assumes "nicks_inv serv s"
  shows "\<exists>s'. userlist_clear s = Some s' \<and> users s' = Map.empty \<and> usertree s' = None \<and> sess_me s' = None \<and>
     ops s' = 0 \<and> hops s' = 0 \<and> voices s' = 0 \<and> total s' = 0"
proof -
  obtain xs where "tree_inv rfc_casecmp plain_nick (emit Fe_Userlist_Clear s) xs"
    using assms by (auto simp: userlist_inv_def)
  from userlist_free_all [OF this] show ?thesis by (simp add: userlist_clear_def)
qed

theorem userlist_clear_frees_all_witness:
  "\<exists>s'. userlist_clear demo_session = Some s' \<and> users s' = Map.empty \<and> total s' = 0"
  using userlist_clear_frees_all [OF demo_session_inv] by blast

text \<open>Two ways the counters leave the truth. When a user is renamed onto the nick of another, \<open>userlist_change\<close>
  ignores that \<open>userlist_insertname\<close> refused the duplicate: it reports success, the user is in no tree any
  more but still allocated and counted (\<open>total\<close> 2, one listed user). When a name carries the same prefix
  twice, \<open>userlist_add\<close> counts the operator twice.\<close>

theorem userlist_duplicate_rename_loses_user:
  "map_option (\<lambda>(b, s'). (b, userlist_flat_list s', users s' 1 = None, total s'))
     (userlist_change (\<lambda>c. 1) demo_server demo_session ''alice'' ''bob'') = Some (True, Some [0], False, 2) \<and>
   map_option (\<lambda>s'. (userlist_flat_list s', ops s', total s'))
     (userlist_add (\<lambda>c. 1) demo_server empty_session ''@@carol'' None None None) = Some (Some [0], 2, 1)"
  by code_simp

end
