(* ===== verification/Modes.thy ===== *)
theory Modes
  imports Userlist
begin

text \<open>
  Channel modes, \<open>src/src/common/modes.c\<close>: the kinds of modes a server announces, the record of the modes
  of a channel, the handling of a MODE message or of numeric 324 and the sending of mode changes for many users.
  The nickname prefixes of the same file are in \<open>Chat_State\<close>, the parser of numeric 005 is in \<open>Isupport\<close>.
\<close>

section \<open>Kinds of modes\<close>

text \<open>The type of a mode in \<open>CHANMODES=A,B,C,D\<close>: the number of commas before its first occurrence.\<close>

fun chanmode_type_from :: "int \<Rightarrow> string \<Rightarrow> char \<Rightarrow> int" where
  "chanmode_type_from type [] mode = -1"
| "chanmode_type_from type (c # cm) mode =
     (if c = CHR '','' then chanmode_type_from (type + 1) cm mode
      else if c = mode then type
      else chanmode_type_from type cm mode)"

definition mode_chanmode_type :: "server \<Rightarrow> char \<Rightarrow> int" where
  "mode_chanmode_type serv mode = chanmode_type_from 0 (chanmodes serv) mode"

definition mode_has_arg :: "server \<Rightarrow> char \<Rightarrow> char \<Rightarrow> bool" where
  "mode_has_arg serv sign mode =
     (if c_strchr (nick_modes serv) mode then True
      else
        (let type = mode_chanmode_type serv mode
         in if type = 0 \<or> type = 1 then True
            else if type = 2 then sign = CHR ''+''
            else False))"

section \<open>The record of a channel's modes\<close>

text \<open>\<open>g_string_erase\<close> and \<open>g_string_insert\<close>; a position or length outside of the string is a failed
  assertion of GLib and has no result here.\<close>

definition gs_erase :: "nat \<Rightarrow> int \<Rightarrow> string \<Rightarrow> string option" where
  "gs_erase pos len s =
     (if pos \<le> length s \<and> 0 \<le> len \<and> pos + nat len \<le> length s
      then Some (take pos s @ drop (pos + nat len) s) else None)"

definition gs_insert :: "nat \<Rightarrow> string \<Rightarrow> string \<Rightarrow> string option" where
  "gs_insert pos x s = (if pos \<le> length s then Some (take pos s @ x @ drop pos s) else None)"

text \<open>The walk through the arguments to the \<open>argument_num\<close>-th space: how many were passed, and how far
  from \<open>arguments_start\<close> it ended.\<close>

fun seek_arg :: "nat \<Rightarrow> nat \<Rightarrow> string \<Rightarrow> nat \<Rightarrow> nat \<times> nat" where
  "seek_arg argument_num i [] k = (i, k)"
| "seek_arg argument_num i (c # s) k =
     (if i < argument_num then
        (let i' = (if c = CHR '' '' then i + 1 else i)
         in if i' \<noteq> argument_num then seek_arg argument_num i' s (k + 1) else (i', k))
      else (i, k))"

text \<open>Offset (with its leading space) and length of the argument of the mode at \<open>mode_pos\<close>.\<close>

definition argument_span :: "server \<Rightarrow> string \<Rightarrow> nat \<Rightarrow> nat \<Rightarrow> nat \<times> nat" where
  "argument_span serv cur modes_length mode_pos =
     (let argument_num = length (filter (mode_has_arg serv (CHR ''+'')) (take (mode_pos + 1) cur));
          (i, k) = seek_arg argument_num 0 (drop modes_length cur) 0;
          argument_offset = modes_length + k;
          argument_length =
            (if i = argument_num
             then 1 + length (takeWhile (\<lambda>c. c \<noteq> CHR '' '') (drop (argument_offset + 1) cur)) else 0)
      in (argument_offset, argument_length))"

definition record_modes :: "server \<Rightarrow> string \<Rightarrow> char \<Rightarrow> char \<Rightarrow> string \<Rightarrow> string option" where
  "record_modes serv cur sign mode arg =
     (let modes_length = length (takeWhile (\<lambda>c. c \<noteq> CHR '' '') cur)
      in case index_of mode (take modes_length cur) of
           Some mode_pos \<Rightarrow>
             (let (off, len) = (if mode_has_arg serv (CHR ''+'') mode
                                then argument_span serv cur modes_length mode_pos else (0, 0))
              in if sign = CHR ''+'' then
                   (if mode_has_arg serv sign mode
                    then do { c \<leftarrow> gs_erase (off + 1) (int len - 1) cur; gs_insert (off + 1) arg c }
                    else Some cur)
                 else if sign = CHR ''-'' then
                   do {
                     c \<leftarrow> (if mode_has_arg serv (CHR ''+'') mode then gs_erase off (int len) cur else Some cur);
                     gs_erase mode_pos 1 c
                   }
                 else Some cur)
         | None \<Rightarrow>
             if sign = CHR ''+'' then
               do {
                 c \<leftarrow> gs_insert modes_length [mode] cur;
                 Some (if mode_has_arg serv sign mode then c @ CHR '' '' # arg else c)
               }
             else Some cur)"

definition record_chan_mode :: "server \<Rightarrow> session \<Rightarrow> char \<Rightarrow> char \<Rightarrow> string \<Rightarrow> session option" where
  "record_chan_mode serv s sign mode arg =
     do { c \<leftarrow> record_modes serv (current_modes s) sign mode arg; Some (s\<lparr>current_modes := c\<rparr>) }"

section \<open>MODE messages\<close>

record mode_run =
  mr_op :: "string option"
  mr_deop :: "string option"
  mr_voice :: "string option"
  mr_devoice :: "string option"

definition mode_cat :: "string option \<Rightarrow> string \<Rightarrow> string option" where
  "mode_cat str addition = Some (case str of Some s \<Rightarrow> s @ '' '' @ addition | None \<Rightarrow> addition)"

text \<open>Is \<open>q\<close> among the list modes (type A)?\<close>

definition supports_q :: "server \<Rightarrow> bool" where
  "supports_q serv \<longleftrightarrow> CHR ''q'' \<in> set (takeWhile (\<lambda>c. c \<noteq> CHR '','') (chanmodes serv))"

definition emit_unless :: "bool \<Rightarrow> event \<Rightarrow> session \<Rightarrow> session" where
  "emit_unless quiet e s = (if quiet then s else emit e s)"

text \<open>The first part of \<open>handle_single_mode\<close>, for a channel we are in: users and recorded modes.\<close>

definition apply_mode :: "server \<Rightarrow> session \<Rightarrow> char \<Rightarrow> char \<Rightarrow> string \<Rightarrow> bool \<Rightarrow> session option" where
  "apply_mode serv s sign mode arg is_324 =
     (if c_strchr (nick_modes serv) mode then userlist_update_mode serv s arg mode sign
      else if \<not> is_324 \<and> \<not> ignore_mode s \<and> 1 \<le> mode_chanmode_type serv mode
      then record_chan_mode serv s sign mode arg
      else Some s)"

text \<open>The two switches. The flag tells a \<open>break\<close> (go on to the generic part) from a \<open>return\<close>.\<close>

definition set_mode_plus ::
  "(char \<Rightarrow> nat) \<Rightarrow> server \<Rightarrow> session \<Rightarrow> mode_run \<Rightarrow> char \<Rightarrow> string \<Rightarrow> string \<Rightarrow> bool \<Rightarrow>
     (bool \<times> session \<times> mode_run) option" where
  "set_mode_plus skip serv s mr mode nick arg quiet =
     (let say = (\<lambda>e s. emit_unless quiet (Emit e [Some nick, Some arg]) s)
      in if mode = CHR ''k'' then
           do {
             key \<leftarrow> safe_strcpy skip arg 64;
             Some (False, say ''XP_TE_CHANSETKEY'' (emit (Fe_Update_Mode_Buttons mode (CHR ''+''))
                            (emit Fe_Update_Channel_Key (s\<lparr>channelkey := key\<rparr>))), mr)
           }
         else if mode = CHR ''l'' then
           Some (False, say ''XP_TE_CHANSETLIMIT'' (emit (Fe_Update_Mode_Buttons mode (CHR ''+''))
                          (emit Fe_Update_Channel_Limit (s\<lparr>limit := c_atoi arg\<rparr>))), mr)
         else if mode = CHR ''o'' then
           Some (False, s, if quiet then mr else mr\<lparr>mr_op := mode_cat (mr_op mr) arg\<rparr>)
         else if mode = CHR ''h'' then Some (False, say ''XP_TE_CHANHOP'' s, mr)
         else if mode = CHR ''v'' then
           Some (False, s, if quiet then mr else mr\<lparr>mr_voice := mode_cat (mr_voice mr) arg\<rparr>)
         else if mode = CHR ''b'' then Some (False, say ''XP_TE_CHANBAN'' s, mr)
         else if mode = CHR ''e'' then Some (False, say ''XP_TE_CHANEXEMPT'' s, mr)
         else if mode = CHR ''I'' then Some (False, say ''XP_TE_CHANINVITE'' s, mr)
         else if mode = CHR ''q'' \<and> supports_q serv then Some (False, say ''XP_TE_CHANQUIET'' s, mr)
         else Some (True, s, mr))"

definition set_mode_minus ::
  "server \<Rightarrow> session \<Rightarrow> mode_run \<Rightarrow> char \<Rightarrow> string \<Rightarrow> string \<Rightarrow> bool \<Rightarrow> bool \<times> session \<times> mode_run" where
  "set_mode_minus serv s mr mode nick arg quiet =
     (let say = (\<lambda>e s. emit_unless quiet (Emit e [Some nick, Some arg]) s);
          say0 = (\<lambda>e s. emit_unless quiet (Emit e [Some nick]) s)
      in if mode = CHR ''k'' then
           (False, say0 ''XP_TE_CHANRMKEY'' (emit (Fe_Update_Mode_Buttons mode (CHR ''-''))
                     (emit Fe_Update_Channel_Key (s\<lparr>channelkey := []\<rparr>))), mr)
         else if mode = CHR ''l'' then
           (False, say0 ''XP_TE_CHANRMLIMIT'' (emit (Fe_Update_Mode_Buttons mode (CHR ''-''))
                     (emit Fe_Update_Channel_Limit (s\<lparr>limit := 0\<rparr>))), mr)
         else if mode = CHR ''o'' then
           (False, s, if quiet then mr else mr\<lparr>mr_deop := mode_cat (mr_deop mr) arg\<rparr>)
         else if mode = CHR ''h'' then (False, say ''XP_TE_CHANDEHOP'' s, mr)
         else if mode = CHR ''v'' then
           (False, s, if quiet then mr else mr\<lparr>mr_devoice := mode_cat (mr_devoice mr) arg\<rparr>)
         else if mode = CHR ''b'' then (False, say ''XP_TE_CHANUNBAN'' s, mr)
         else if mode = CHR ''e'' then (False, say ''XP_TE_CHANRMEXEMPT'' s, mr)
         else if mode = CHR ''I'' then (False, say ''XP_TE_CHANRMINVITE'' s, mr)
         else if mode = CHR ''q'' \<and> supports_q serv then (False, say ''XP_TE_CHANUNQUIET'' s, mr)
         else (True, s, mr))"

text \<open>The generic part behind the label \<open>genmode\<close>.\<close>

definition gen_mode ::
  "server \<Rightarrow> session \<Rightarrow> char \<Rightarrow> char \<Rightarrow> string \<Rightarrow> string \<Rightarrow> string \<Rightarrow> bool \<Rightarrow> session" where
  "gen_mode serv s sign mode nick chan arg quiet =
     (let s1 = (if mode = CHR ''e'' \<and> sign = CHR ''+'' \<and> p_cmp serv chan (my_nick serv) = 0
                then emit Inbound_Identified s else s);
          what = (if arg \<noteq> [] then chan @ '' '' @ arg else chan)
      in emit_unless quiet (Emit ''XP_TE_CHANMODEGEN'' [Some nick, Some [sign], Some [mode], Some what]) s1)"

definition chan_mode ::
  "(char \<Rightarrow> nat) \<Rightarrow> server \<Rightarrow> session \<Rightarrow> mode_run \<Rightarrow> char \<Rightarrow> char \<Rightarrow> string \<Rightarrow> string \<Rightarrow> string \<Rightarrow>
     bool \<Rightarrow> bool \<Rightarrow> (session \<times> mode_run) option" where
  "chan_mode skip serv s mr sign mode nick chan arg quiet is_324 =
     do {
       s1 \<leftarrow> apply_mode serv s sign mode arg is_324;
       (generic, s2, mr') \<leftarrow>
         (if sign = CHR ''+'' then set_mode_plus skip serv s1 mr mode nick arg quiet
          else if sign = CHR ''-'' then Some (set_mode_minus serv s1 mr mode nick arg quiet)
          else Some (True, s1, mr));
       Some (if generic
             then gen_mode serv (emit (Fe_Update_Mode_Buttons mode sign) s2) sign mode nick chan arg quiet
             else s2, mr')
     }"

text \<open>An operation on one session of the list.\<close>

definition at_sess :: "session list \<Rightarrow> nat \<Rightarrow> (session \<Rightarrow> (session \<times> 'a) option) \<Rightarrow> (session list \<times> 'a) option" where
  "at_sess ss i f = (if i < length ss then map_option (\<lambda>(s', x). (ss[i := s'], x)) (f (ss ! i)) else None)"

definition handle_single_mode ::
  "(char \<Rightarrow> nat) \<Rightarrow> server \<Rightarrow> nat \<Rightarrow> session list \<Rightarrow> mode_run \<Rightarrow> char \<Rightarrow> char \<Rightarrow> string \<Rightarrow> string \<Rightarrow> string \<Rightarrow>
     bool \<Rightarrow> bool \<Rightarrow> (session list \<times> mode_run) option" where
  "handle_single_mode skip serv front ss mr sign mode nick chan arg quiet is_324 =
     (case find_channel serv ss chan of
        Some i \<Rightarrow>
          if is_channel serv chan
          then at_sess ss i (\<lambda>s. chan_mode skip serv s mr sign mode nick chan arg quiet is_324)
          else at_sess ss front (\<lambda>s. Some (gen_mode serv s sign mode nick chan arg quiet, mr))
      | None \<Rightarrow> at_sess ss front (\<lambda>s. Some (gen_mode serv s sign mode nick chan arg quiet, mr)))"

definition print_group :: "string \<Rightarrow> string \<Rightarrow> string option \<Rightarrow> session \<Rightarrow> session" where
  "print_group name nick who s = (case who of Some w \<Rightarrow> emit (Emit name [Some nick, Some w]) s | None \<Rightarrow> s)"

definition mode_run_new :: mode_run where
  "mode_run_new = \<lparr>mr_op = None, mr_deop = None, mr_voice = None, mr_devoice = None\<rparr>"

definition mode_print_grouped :: "session \<Rightarrow> string \<Rightarrow> mode_run \<Rightarrow> session \<times> mode_run" where
  "mode_print_grouped s nick mr =
     (print_group ''XP_TE_CHANDEVOICE'' nick (mr_devoice mr)
        (print_group ''XP_TE_CHANVOICE'' nick (mr_voice mr)
          (print_group ''XP_TE_CHANDEOP'' nick (mr_deop mr)
            (print_group ''XP_TE_CHANOP'' nick (mr_op mr) s))), mode_run_new)"

text \<open>The words of a message: an array of strings, read within its bounds.\<close>

definition word_at :: "string list \<Rightarrow> nat \<Rightarrow> string option" where
  "word_at word i = (if i < length word then Some (word ! i) else None)"

definition STRIP_COLON :: "string list \<Rightarrow> string list \<Rightarrow> nat \<Rightarrow> string option" where
  "STRIP_COLON word word_eol idx =
     do {
       w \<leftarrow> word_at word idx;
       if chd w = CHR '':'' then do { e \<leftarrow> word_at word_eol idx; if e = [] then None else Some (tl e) }
       else Some w
     }"

text \<open>\<open>num_args\<close>: the words from \<open>i + offset\<close> on, up to an empty one, and up to the one with a colon.\<close>

function count_args :: "string list \<Rightarrow> nat \<Rightarrow> nat \<Rightarrow> nat option" where
  "count_args word offset i =
     (if i + offset + 1 < PDIWORDS then
        do {
          w \<leftarrow> word_at word (i + 1 + offset);
          if w = [] then Some 0
          else if chd w = CHR '':'' then Some 1
          else map_option Suc (count_args word offset (i + 1))
        }
      else Some 0)"
  by pat_completeness auto
termination
  by (relation "measure (\<lambda>(w, off, i). PDIWORDS - (i + off))") auto

declare count_args.simps [simp del]

record mode_env =
  me_skip :: "char \<Rightarrow> nat"
  me_serv :: server
  me_front :: nat
  me_word :: "string list"
  me_eol :: "string list"
  me_nick :: string
  me_chan :: string
  me_offset :: nat
  me_num_args :: nat
  me_all_args :: bool
  me_324 :: bool
  me_raw :: bool
  me_target :: nat

text \<open>The loop over the mode characters; \<open>me_target\<close> is the session that prints the groups.\<close>

fun mode_loop ::
  "mode_env \<Rightarrow> string \<Rightarrow> char \<Rightarrow> nat \<Rightarrow> session list \<Rightarrow> mode_run \<Rightarrow> (session list \<times> mode_run) option" where
  "mode_loop env [] sign arg ss mr = Some (ss, mr)"
| "mode_loop env (m # modes) sign arg ss mr =
     (if m = CHR ''-'' \<or> m = CHR ''+'' then
        do {
          (ss', mr') \<leftarrow> at_sess ss (me_target env) (\<lambda>s. Some (mode_print_grouped s (me_nick env) mr));
          mode_loop env modes m arg ss' mr'
        }
      else
        do {
          (arg', argstr) \<leftarrow>
            (if (me_all_args env \<or> mode_has_arg (me_serv env) sign m) \<and> arg < me_num_args env + 1
             then do {
               a \<leftarrow> STRIP_COLON (me_word env) (me_eol env) (arg + 1 + me_offset env);
               Some (arg + 1, a)
             }
             else Some (arg, []));
          (ss', mr') \<leftarrow> handle_single_mode (me_skip env) (me_serv env) (me_front env) ss mr sign m (me_nick env)
             (me_chan env) argstr (me_324 env \<or> me_raw env) (me_324 env);
          mode_loop env modes sign arg' ss' mr'
        })"

text \<open>The trailing space is cut off in the buffer all \<open>word_eol\<close> entries point into.\<close>

definition cut_trailing_space :: "string list \<Rightarrow> nat \<Rightarrow> string list option" where
  "cut_trailing_space word_eol offset =
     do {
       e \<leftarrow> word_at word_eol offset;
       if e = [] then None
       else if last e = CHR '' '' then Some (map butlast word_eol)
       else Some word_eol
     }"

definition handle_mode ::
  "(char \<Rightarrow> nat) \<Rightarrow> bool \<Rightarrow> server \<Rightarrow> nat \<Rightarrow> session list \<Rightarrow> string list \<Rightarrow> string list \<Rightarrow> string \<Rightarrow> bool \<Rightarrow>
     session list option" where
  "handle_mode skip raw_modes serv front ss word word_eol nick numeric_324 =
     do {
       let offset = (if numeric_324 then 4 else 3);
       chan \<leftarrow> word_at word offset;
       modes0 \<leftarrow> word_at word (offset + 1);
       let modes = (if chd modes0 = CHR '':'' then tl modes0 else modes0);
       if modes = [] then Some ss
       else do {
         let using_front_tab = (find_channel serv ss chan = None);
         let target = (case find_channel serv ss chan of Some i \<Rightarrow> i | None \<Rightarrow> front);
         eol \<leftarrow> cut_trailing_space word_eol offset;
         whole \<leftarrow> word_at eol offset;
         rest \<leftarrow> word_at eol (offset + 1);
         (ss1, _) \<leftarrow> at_sess ss target (\<lambda>s.
            let s1 = (if raw_modes \<and> \<not> numeric_324
                      then emit (Emit ''XP_TE_RAWMODES'' [Some nick, Some whole]) s else s)
            in Some (if numeric_324 \<and> \<not> using_front_tab then s1\<lparr>current_modes := rest\<rparr> else s1, ()));
         num_args \<leftarrow> count_args word offset 1;
         let num_modes = length (filter (\<lambda>c. c \<noteq> CHR ''+'' \<and> c \<noteq> CHR ''-'') (tl modes));
         let env = \<lparr>me_skip = skip, me_serv = serv, me_front = front, me_word = word, me_eol = eol, me_nick = nick,
                    me_chan = chan, me_offset = offset, me_num_args = num_args, me_all_args = (num_args = num_modes),
                    me_324 = numeric_324, me_raw = raw_modes, me_target = target\<rparr>;
         (ss2, mr) \<leftarrow> mode_loop env (tl modes) (hd modes) 1 ss1 mode_run_new;
         (ss3, _) \<leftarrow> at_sess ss2 target (\<lambda>s.
            Some (mode_print_grouped (if using_front_tab then s else emit Fe_Set_Title s) nick mr));
         Some ss3
       }
     }"

section \<open>Sending modes for many users\<close>

text \<open>How many of the next words fit on a line: \<open>fuel\<close> is \<open>modes_per_line - i\<close>.\<close>

fun fit_modes :: "nat \<Rightarrow> string list \<Rightarrow> int \<Rightarrow> int \<Rightarrow> nat" where
  "fit_modes 0 ws len max_len = 0"
| "fit_modes (Suc n) [] len max_len = 0"
| "fit_modes (Suc n) (w # ws) len max_len =
     (let wlen = int (length w) + 1
      in if max_len < wlen + len then 0 else Suc (fit_modes n ws (len + wlen) max_len))"

definition mode_line :: "char \<Rightarrow> char \<Rightarrow> string list \<Rightarrow> string" where
  "mode_line sign mode nicks = sign # replicate (length nicks) mode @ concat (map (\<lambda>w. CHR '' '' # w) nicks)"

text \<open>\<open>ws\<close> are the words from \<open>wpos\<close> to \<open>end\<close>. The lines given to \<open>p_mode\<close> are logged.\<close>

function send_mode_lines :: "nat \<Rightarrow> int \<Rightarrow> char \<Rightarrow> char \<Rightarrow> string list \<Rightarrow> session \<Rightarrow> session" where
  "send_mode_lines per_line max_len sign mode ws s =
     (if ws = [] then s
      else
        (let n = fit_modes per_line ws (int per_line) max_len
         in if n < 1 then s
            else send_mode_lines per_line max_len sign mode (drop n ws)
                   (emit (P_Mode (channel s) (mode_line sign mode (take n ws))) s)))"
  by pat_completeness auto
termination
  by (relation "measure (\<lambda>(p, m, sg, md, ws, s). length ws)") auto

declare send_mode_lines.simps [simp del]

definition send_channel_modes ::
  "server \<Rightarrow> session \<Rightarrow> string list \<Rightarrow> nat \<Rightarrow> nat \<Rightarrow> char \<Rightarrow> char \<Rightarrow> int \<Rightarrow> server \<times> session" where
  "send_channel_modes serv s word wpos end_pos sign mode modes_per_line_arg =
     (let serv' = (if modes_per_line serv < 1 then serv\<lparr>modes_per_line := 3\<rparr> else serv);
          per_line = (if modes_per_line_arg < 1 then modes_per_line serv' else modes_per_line_arg);
          max_len = 503 - int (length (channel s))
      in (serv', send_mode_lines (nat per_line) max_len sign mode (take (end_pos - wpos) (drop wpos word)) s))"

section \<open>The recorded modes as a list\<close>

text \<open>What \<open>current_modes\<close> stands for: modes in the order they were set, each with an argument; the string
  shows the arguments of those modes that take one.\<close>

definition shown_args :: "server \<Rightarrow> (char \<times> string) list \<Rightarrow> string" where
  "shown_args serv ms = concat (map (\<lambda>(m, a). if mode_has_arg serv (CHR ''+'') m then CHR '' '' # a else []) ms)"

definition show_modes :: "server \<Rightarrow> string \<Rightarrow> (char \<times> string) list \<Rightarrow> string" where
  "show_modes serv pfx ms = pfx @ map fst ms @ shown_args serv ms"

definition modes_ok :: "server \<Rightarrow> string \<Rightarrow> (char \<times> string) list \<Rightarrow> bool" where
  "modes_ok serv pfx ms \<longleftrightarrow>
     distinct (map fst ms) \<and> CHR '' '' \<notin> set (map fst ms) \<and> (\<forall>a \<in> snd ` set ms. CHR '' '' \<notin> set a) \<and>
     CHR '' '' \<notin> set pfx \<and> set pfx \<inter> set (map fst ms) = {} \<and>
     filter (mode_has_arg serv (CHR ''+'')) pfx = []"

fun set_mode :: "server \<Rightarrow> char \<Rightarrow> string \<Rightarrow> (char \<times> string) list \<Rightarrow> (char \<times> string) list" where
  "set_mode serv m arg [] = [(m, arg)]"
| "set_mode serv m arg ((m', a) # ms) =
     (if m' = m then (m', if mode_has_arg serv (CHR ''+'') m then arg else a) # ms
      else (m', a) # set_mode serv m arg ms)"

definition unset_mode :: "char \<Rightarrow> (char \<times> string) list \<Rightarrow> (char \<times> string) list" where
  "unset_mode m ms = filter (\<lambda>(m', a). m' \<noteq> m) ms"

lemma shown_args_simps [simp]:
  "shown_args serv [] = []"
  "shown_args serv ((m, a) # ms) = (if mode_has_arg serv (CHR ''+'') m then CHR '' '' # a else []) @ shown_args serv ms"
  "shown_args serv (ms @ ms') = shown_args serv ms @ shown_args serv ms'"
  by (simp_all add: shown_args_def)

lemma shown_args_start: "shown_args serv ms = [] \<or> hd (shown_args serv ms) = CHR '' ''"
  by (induction ms) auto

lemma takeWhile_word: "CHR '' '' \<notin> set w \<Longrightarrow> r = [] \<or> hd r = CHR '' '' \<Longrightarrow> takeWhile (\<lambda>c. c \<noteq> CHR '' '') (w @ r) = w"
  by (cases r) (auto simp: takeWhile_append)

lemma gs_erase_at: "n = length x \<Longrightarrow> k = int (length y) \<Longrightarrow> gs_erase n k (x @ y @ z) = Some (x @ z)"
  by (simp add: gs_erase_def)

lemma gs_insert_at: "n = length x \<Longrightarrow> gs_insert n y (x @ z) = Some (x @ y @ z)"
  by (simp add: gs_insert_def)

lemma seek_arg_word:
  "i < n \<Longrightarrow> CHR '' '' \<notin> set w \<Longrightarrow> seek_arg n i (w @ s) k = seek_arg n i s (k + length w)"
  by (induction w arbitrary: k) auto

lemma seek_arg_args:
  assumes "\<forall>a \<in> snd ` set ms. CHR '' '' \<notin> set a"
    and "n = i + length (filter (mode_has_arg serv (CHR ''+'')) (map fst ms)) + 1"
  shows "seek_arg n i (shown_args serv ms @ CHR '' '' # r) k = (n, k + length (shown_args serv ms))"
  using assms
proof (induction ms arbitrary: i k)
  case (Cons ma ms)
  obtain m a where ma: "ma = (m, a)" by fastforce
  show ?case
  proof (cases "mode_has_arg serv (CHR ''+'') m")
    case True
    have "seek_arg n (Suc i) (a @ shown_args serv ms @ CHR '' '' # r) (Suc k) =
        seek_arg n (Suc i) (shown_args serv ms @ CHR '' '' # r) (Suc k + length a)"
      by (rule seek_arg_word) (use Cons.prems True ma in auto)
    then show ?thesis using Cons True ma by auto
  next
    case False
    then show ?thesis using Cons ma by auto
  qed
qed simp

lemma show_modes_take:
  assumes "modes_ok serv pfx ms"
  shows "takeWhile (\<lambda>c. c \<noteq> CHR '' '') (show_modes serv pfx ms) = pfx @ map fst ms"
  using takeWhile_word [of "pfx @ map fst ms" "shown_args serv ms"] shown_args_start [of serv ms] assms
  by (simp add: show_modes_def modes_ok_def)

lemma argument_span_modes:
  assumes ok: "modes_ok serv pfx (ms1 @ (m, a) # ms2)" and arg: "mode_has_arg serv (CHR ''+'') m"
  shows "argument_span serv (show_modes serv pfx (ms1 @ (m, a) # ms2))
     (length (pfx @ map fst (ms1 @ (m, a) # ms2))) (length pfx + length ms1) =
       (length (pfx @ map fst (ms1 @ (m, a) # ms2) @ shown_args serv ms1), 1 + length a)"
proof -
  let ?ms = "ms1 @ (m, a) # ms2" and ?h = "mode_has_arg serv (CHR ''+'')"
  let ?M = "pfx @ map fst ?ms"
  let ?n = "length (filter ?h (take (length pfx + length ms1 + 1) (show_modes serv pfx ?ms)))"
  have "take (length pfx + length ms1 + 1) (show_modes serv pfx ?ms) = pfx @ map fst ms1 @ [m]"
    by (simp add: show_modes_def)
  then have n: "?n = 0 + length (filter ?h (map fst ms1)) + 1"
    using ok arg by (simp add: modes_ok_def)
  have "\<forall>b \<in> snd ` set ms1. CHR '' '' \<notin> set b" using ok by (auto simp: modes_ok_def)
  from seek_arg_args [OF this n, of "a @ shown_args serv ms2" 0]
  have "seek_arg ?n 0 (drop (length ?M) (show_modes serv pfx ?ms)) 0 = (?n, length (shown_args serv ms1))"
    using arg by (simp add: show_modes_def)
  moreover have "takeWhile (\<lambda>c. c \<noteq> CHR '' '')
      (drop (length ?M + length (shown_args serv ms1) + 1) (show_modes serv pfx ?ms)) = a"
    using takeWhile_word [of a "shown_args serv ms2"] shown_args_start [of serv ms2] ok arg
    by (simp add: show_modes_def modes_ok_def)
  ultimately show ?thesis by (simp add: argument_span_def Let_def add.assoc)
qed

lemma index_of_append: "c \<notin> set xs \<Longrightarrow> index_of c (xs @ c # ys) = Some (length xs)"
  by (induction xs) auto

lemma set_mode_split:
  "m \<notin> set (map fst ms1) \<Longrightarrow> set_mode serv m arg (ms1 @ (m, a) # ms2) =
     ms1 @ (m, if mode_has_arg serv (CHR ''+'') m then arg else a) # ms2"
  by (induction ms1) auto

lemma set_mode_new: "m \<notin> set (map fst ms) \<Longrightarrow> set_mode serv m arg ms = ms @ [(m, arg)]"
  by (induction ms) auto

lemma fst_mem: "(m, b) \<in> set ms \<Longrightarrow> m \<in> fst ` set ms"
  by force

lemma unset_mode_split:
  "distinct (map fst (ms1 @ (m, a) # ms2)) \<Longrightarrow> unset_mode m (ms1 @ (m, a) # ms2) = ms1 @ ms2"
proof -
  assume d: "distinct (map fst (ms1 @ (m, a) # ms2))"
  have "m' \<noteq> m" if "(m', b) \<in> set ms1 \<union> set ms2" for m' b
    using d that by (auto dest: fst_mem)
  then have "filter (\<lambda>(m', a). m' \<noteq> m) ms1 = ms1" "filter (\<lambda>(m', a). m' \<noteq> m) ms2 = ms2"
    by (auto simp: filter_id_conv)
  then show ?thesis by (simp add: unset_mode_def)
qed

text \<open>\<open>record_chan_mode\<close> on the string does what \<open>set_mode\<close> and \<open>unset_mode\<close> do on the list.\<close>

lemma record_modes_present:
  assumes ok: "modes_ok serv pfx (ms1 @ (m, a) # ms2)"
  shows "record_modes serv (show_modes serv pfx (ms1 @ (m, a) # ms2)) (CHR ''+'') m arg =
       Some (show_modes serv pfx (set_mode serv m arg (ms1 @ (m, a) # ms2)))"
    and "record_modes serv (show_modes serv pfx (ms1 @ (m, a) # ms2)) (CHR ''-'') m arg =
       Some (show_modes serv pfx (unset_mode m (ms1 @ (m, a) # ms2)))"
proof -
  let ?ms = "ms1 @ (m, a) # ms2" and ?cur = "show_modes serv pfx (ms1 @ (m, a) # ms2)"
  have new: "m \<notin> set (pfx @ map fst ms1)" and dist: "distinct (map fst ?ms)" using ok by (auto simp: modes_ok_def)
  have idx: "index_of m (take (length (pfx @ map fst ?ms)) ?cur) = Some (length pfx + length ms1)"
    using index_of_append [OF new, of "map fst ms2"] by (simp add: show_modes_def)
  note unf = record_modes_def Let_def show_modes_take [OF ok] idx option.case
  let ?M = "pfx @ map fst ?ms"
  show "record_modes serv ?cur (CHR ''+'') m arg = Some (show_modes serv pfx (set_mode serv m arg ?ms))"
  proof (cases "mode_has_arg serv (CHR ''+'') m")
    case True
    have "?cur = (?M @ shown_args serv ms1 @ '' '') @ a @ shown_args serv ms2"
      using True by (simp add: show_modes_def)
    then have e: "gs_erase (length (?M @ shown_args serv ms1) + 1) (int (1 + length a) - 1) ?cur =
        Some ((?M @ shown_args serv ms1 @ '' '') @ shown_args serv ms2)"
      by (simp only:) (rule gs_erase_at; simp)
    have i: "gs_insert (length (?M @ shown_args serv ms1) + 1) arg ((?M @ shown_args serv ms1 @ '' '') @ shown_args serv ms2) =
        Some ((?M @ shown_args serv ms1 @ '' '') @ arg @ shown_args serv ms2)"
      by (rule gs_insert_at) simp
    show ?thesis
      unfolding unf argument_span_modes [OF ok True] using True e i new
      by (simp add: set_mode_split show_modes_def)
  next
    case False
    then show ?thesis unfolding unf using new by (simp add: set_mode_split show_modes_def)
  qed
  have del: "gs_erase (length pfx + length ms1) 1 (?M @ r) = Some (pfx @ map fst (ms1 @ ms2) @ r)" for r
    using gs_erase_at [of _ "pfx @ map fst ms1" 1 "[m]" "map fst ms2 @ r"] by simp
  show "record_modes serv ?cur (CHR ''-'') m arg = Some (show_modes serv pfx (unset_mode m ?ms))"
  proof (cases "mode_has_arg serv (CHR ''+'') m")
    case True
    have "?cur = (?M @ shown_args serv ms1) @ (CHR '' '' # a) @ shown_args serv ms2"
      using True by (simp add: show_modes_def)
    then have e: "gs_erase (length (?M @ shown_args serv ms1)) (int (1 + length a)) ?cur =
        Some ((?M @ shown_args serv ms1) @ shown_args serv ms2)"
      by (simp only:) (rule gs_erase_at; simp)
    show ?thesis
      unfolding unf argument_span_modes [OF ok True]
      using True e del [of "shown_args serv ms1 @ shown_args serv ms2"] dist
      by (simp add: unset_mode_split show_modes_def)
  next
    case False
    then show ?thesis
      unfolding unf using del [of "shown_args serv ?ms"] dist
      by (simp add: unset_mode_split show_modes_def)
  qed
qed

lemma record_modes_absent:
  assumes ok: "modes_ok serv pfx ms" and new: "m \<notin> set pfx" "m \<notin> set (map fst ms)"
  shows "record_modes serv (show_modes serv pfx ms) (CHR ''+'') m arg = Some (show_modes serv pfx (set_mode serv m arg ms))"
    and "record_modes serv (show_modes serv pfx ms) (CHR ''-'') m arg = Some (show_modes serv pfx (unset_mode m ms))"
proof -
  have idx: "index_of m (take (length (pfx @ map fst ms)) (show_modes serv pfx ms)) = None"
    using new by (simp add: show_modes_def index_of_None)
  note unf = record_modes_def Let_def show_modes_take [OF ok] idx option.case
  have "gs_insert (length (pfx @ map fst ms)) [m] (show_modes serv pfx ms) =
      Some ((pfx @ map fst ms) @ [m] @ shown_args serv ms)"
    using gs_insert_at [of _ "pfx @ map fst ms" "[m]" "shown_args serv ms"] by (simp add: show_modes_def)
  then show "record_modes serv (show_modes serv pfx ms) (CHR ''+'') m arg = Some (show_modes serv pfx (set_mode serv m arg ms))"
    unfolding unf using new by (simp add: set_mode_new show_modes_def)
  have "unset_mode m ms = ms"
    using new(2) by (auto simp: unset_mode_def filter_id_conv dest: fst_mem)
  then show "record_modes serv (show_modes serv pfx ms) (CHR ''-'') m arg = Some (show_modes serv pfx (unset_mode m ms))"
    unfolding unf by simp
qed

lemma set_mode_keys: "fst ` set (set_mode serv m arg ms) = insert m (fst ` set ms)"
  by (induction serv m arg ms rule: set_mode.induct) auto

lemma set_mode_distinct: "distinct (map fst ms) \<Longrightarrow> distinct (map fst (set_mode serv m arg ms))"
  by (induction serv m arg ms rule: set_mode.induct) (auto simp: set_mode_keys)

lemma set_mode_args: "snd ` set (set_mode serv m arg ms) \<subseteq> insert arg (snd ` set ms)"
  by (induction serv m arg ms rule: set_mode.induct) auto

lemma set_mode_ok:
  assumes "modes_ok serv pfx ms" "m \<notin> set pfx" "m \<noteq> CHR '' ''" "CHR '' '' \<notin> set arg"
  shows "modes_ok serv pfx (set_mode serv m arg ms)"
proof -
  have "\<forall>a \<in> snd ` set (set_mode serv m arg ms). CHR '' '' \<notin> set a"
    using set_mode_args [of serv m arg ms] assms(1,4) unfolding modes_ok_def by blast
  then show ?thesis
    using assms set_mode_distinct [of ms serv m arg] by (auto simp: modes_ok_def set_mode_keys)
qed

lemma unset_mode_ok: "modes_ok serv pfx ms \<Longrightarrow> modes_ok serv pfx (unset_mode m ms)"
  by (auto simp: modes_ok_def unset_mode_def distinct_map inj_on_def)

lemma record_modes_refines:
  assumes "modes_ok serv pfx ms" "m \<notin> set pfx"
  shows "record_modes serv (show_modes serv pfx ms) (CHR ''+'') m arg = Some (show_modes serv pfx (set_mode serv m arg ms))"
    and "record_modes serv (show_modes serv pfx ms) (CHR ''-'') m arg = Some (show_modes serv pfx (unset_mode m ms))"
proof -
  consider ms1 a ms2 where "ms = ms1 @ (m, a) # ms2" | "m \<notin> set (map fst ms)"
    using split_list [of "(m, _)" ms] by force
  note cs = this
  show "record_modes serv (show_modes serv pfx ms) (CHR ''+'') m arg = Some (show_modes serv pfx (set_mode serv m arg ms))"
    using cs record_modes_present(1) record_modes_absent(1) assms by metis
  show "record_modes serv (show_modes serv pfx ms) (CHR ''-'') m arg = Some (show_modes serv pfx (unset_mode m ms))"
    using cs record_modes_present(2) record_modes_absent(2) assms by metis
qed

section \<open>MODE messages keep the invariants\<close>

definition modes_inv :: "server \<Rightarrow> session \<Rightarrow> bool" where
  "modes_inv serv s \<longleftrightarrow>
     (\<exists>pfx ms. (pfx = [] \<or> pfx = ''+'') \<and> current_modes s = show_modes serv pfx ms \<and> modes_ok serv pfx ms)"

definition session_inv :: "server \<Rightarrow> session \<Rightarrow> bool" where
  "session_inv serv s \<longleftrightarrow> nicks_inv serv s \<and> modes_inv serv s"

lemma session_inv_emit [simp]: "session_inv serv (emit e s) = session_inv serv s"
  by (simp add: session_inv_def modes_inv_def)

lemma session_inv_emit_unless [simp]: "session_inv serv (emit_unless q e s) = session_inv serv s"
  by (simp add: emit_unless_def)

lemma session_inv_fields [simp]:
  "session_inv serv (s\<lparr>channelkey := k\<rparr>) = session_inv serv s"
  "session_inv serv (s\<lparr>limit := l\<rparr>) = session_inv serv s"
  by (simp_all add: session_inv_def modes_inv_def userlist_inv_def tree_inv_def count_inv_def flag_inv_def)

lemma tree_remove_user_modes: "tree_remove_user serv s a = Some s' \<Longrightarrow> current_modes s' = current_modes s"
  by (auto simp: tree_remove_user_def bind_eq_Some_conv)

lemma insertname_modes: "userlist_insertname serv s a = Some (r, s') \<Longrightarrow> current_modes s' = current_modes s"
  by (auto simp: userlist_insertname_def bind_eq_Some_conv Let_def)

lemma update_counts_modes: "current_modes (fst (update_counts p l k (s, u))) = current_modes s"
  by (simp add: update_counts_def)

lemma update_mode_modes:
  assumes "userlist_update_mode serv s name mode sign = Some s'"
  shows "current_modes s' = current_modes s"
  using assms
  by (auto simp: userlist_update_mode_def bind_eq_Some_conv Let_def case_prod_beta update_counts_modes
      split: option.splits dest!: tree_remove_user_modes insertname_modes)

lemma session_inv_modes: "session_inv serv s \<Longrightarrow> modes_inv serv (s\<lparr>current_modes := c\<rparr>) \<Longrightarrow> session_inv serv (s\<lparr>current_modes := c\<rparr>)"
  by (auto simp: session_inv_def userlist_inv_def tree_inv_def count_inv_def flag_inv_def)

lemma record_chan_mode_inv:
  assumes inv: "session_inv serv s" and m: "m \<noteq> CHR ''+''" "m \<noteq> CHR '' ''" and arg: "CHR '' '' \<notin> set arg"
    and sign: "sign = CHR ''+'' \<or> sign = CHR ''-''"
  shows "\<exists>s'. record_chan_mode serv s sign m arg = Some s' \<and> session_inv serv s'"
proof -
  obtain pfx ms where ms: "pfx = [] \<or> pfx = ''+''" "current_modes s = show_modes serv pfx ms" "modes_ok serv pfx ms"
    using inv by (auto simp: session_inv_def modes_inv_def)
  have np: "m \<notin> set pfx" using ms(1) m by auto
  let ?ms' = "if sign = CHR ''+'' then set_mode serv m arg ms else unset_mode m ms"
  have "record_chan_mode serv s sign m arg = Some (s\<lparr>current_modes := show_modes serv pfx ?ms'\<rparr>)"
    using record_modes_refines [OF ms(3) np, of arg] sign by (auto simp: record_chan_mode_def ms(2))
  moreover have "modes_ok serv pfx ?ms'"
    using set_mode_ok [OF ms(3) np m(2) arg] unset_mode_ok [OF ms(3)] by auto
  then have "modes_inv serv (s\<lparr>current_modes := show_modes serv pfx ?ms'\<rparr>)"
    unfolding modes_inv_def using ms(1) by (intro exI [of _ pfx] exI [of _ ?ms']) simp
  ultimately show ?thesis using session_inv_modes [OF inv] by blast
qed

text \<open>An argument a well-behaved server sends: an ASCII word.\<close>

definition plain_word :: "string \<Rightarrow> bool" where
  "plain_word w \<longleftrightarrow> plain_nick w \<and> CHR '' '' \<notin> set w"

definition mode_sign :: "char \<Rightarrow> bool" where
  "mode_sign c \<longleftrightarrow> c = CHR ''+'' \<or> c = CHR ''-''"

definition mode_letter :: "char \<Rightarrow> bool" where
  "mode_letter c \<longleftrightarrow> c \<noteq> NUL \<and> c \<noteq> CHR '' '' \<and> \<not> mode_sign c"

lemma apply_mode_inv:
  assumes "session_inv serv s" "nick_server serv" "mode_letter m" "mode_sign sign" "plain_word arg"
  shows "\<exists>s'. apply_mode serv s sign m arg is_324 = Some s' \<and> session_inv serv s'"
proof -
  have "c_strchr (nick_modes serv) m \<Longrightarrow> m \<in> set (nick_modes serv)"
    using assms(3) by (simp add: c_strchr_def mode_letter_def)
  moreover have "m \<in> set (nick_modes serv) \<Longrightarrow>
      \<exists>s'. userlist_update_mode serv s arg m sign = Some s' \<and> session_inv serv s'"
    using nicks_mode [of serv s arg m sign] assms update_mode_modes [of serv s arg m sign]
    by (fastforce simp: session_inv_def modes_inv_def plain_word_def)
  ultimately show ?thesis
    using assms record_chan_mode_inv [of serv s m arg sign]
    by (auto simp: apply_mode_def mode_letter_def mode_sign_def plain_word_def)
qed

lemma set_mode_plus_inv:
  assumes "session_inv serv s" "ascii_skip skip" "plain_word arg"
  shows "\<exists>g s' mr'. set_mode_plus skip serv s mr m nick arg quiet = Some (g, s', mr') \<and> session_inv serv s'"
proof -
  have "safe_strcpy skip arg 64 = Some (take 63 arg)"
    using nick_copy [of skip arg] assms(2,3) by (simp add: plain_word_def NICKLEN_def)
  then have "case set_mode_plus skip serv s mr m nick arg quiet of None \<Rightarrow> False | Some (g, s', mr') \<Rightarrow> session_inv serv s'"
    using assms(1) by (simp add: set_mode_plus_def Let_def)
  then show ?thesis by (auto split: option.splits)
qed

lemma set_mode_minus_inv:
  assumes "session_inv serv s" "set_mode_minus serv s mr m nick arg quiet = (g, s', mr')"
  shows "session_inv serv s'"
  using assms by (auto simp: set_mode_minus_def Let_def split: if_splits)

lemma gen_mode_inv [simp]: "session_inv serv (gen_mode serv s sign m nick chan arg quiet) = session_inv serv s"
  by (simp add: gen_mode_def Let_def)

lemma chan_mode_inv:
  assumes "session_inv serv s" "nick_server serv" "ascii_skip skip" "mode_letter m" "mode_sign sign" "plain_word arg"
  shows "\<exists>s' mr'. chan_mode skip serv s mr sign m nick chan arg quiet is_324 = Some (s', mr') \<and> session_inv serv s'"
proof -
  obtain s1 where s1: "apply_mode serv s sign m arg is_324 = Some s1" "session_inv serv s1"
    using apply_mode_inv [OF assms(1,2,4-6)] by blast
  have "\<exists>g s2 mr2. (if sign = CHR ''+'' then set_mode_plus skip serv s1 mr m nick arg quiet
          else if sign = CHR ''-'' then Some (set_mode_minus serv s1 mr m nick arg quiet)
          else Some (True, s1, mr)) = Some (g, s2, mr2) \<and> session_inv serv s2"
  proof (cases "sign = CHR ''+''")
    case True
    then show ?thesis using set_mode_plus_inv [OF s1(2) assms(3,6), of mr m nick quiet] by simp
  next
    case False
    then show ?thesis
      using set_mode_minus_inv [OF s1(2), of mr m nick arg quiet] assms(5)
      by (cases "set_mode_minus serv s1 mr m nick arg quiet") (auto simp: mode_sign_def)
  qed
  with s1 show ?thesis by (auto simp: chan_mode_def)
qed

definition all_inv :: "server \<Rightarrow> session list \<Rightarrow> bool" where
  "all_inv serv ss \<longleftrightarrow> (\<forall>s \<in> set ss. session_inv serv s)"

lemma at_sess_inv:
  assumes "all_inv serv ss" "i < length ss"
    and "\<And>s. session_inv serv s \<Longrightarrow> \<exists>s' x. f s = Some (s', x) \<and> session_inv serv s'"
  shows "\<exists>ss' x. at_sess ss i f = Some (ss', x) \<and> length ss' = length ss \<and> all_inv serv ss'"
proof -
  have "session_inv serv (ss ! i)" using assms(1,2) by (simp add: all_inv_def)
  then obtain s' x where "f (ss ! i) = Some (s', x)" "session_inv serv s'" using assms(3) by blast
  with assms(1,2) show ?thesis
    using set_update_subset_insert [of ss i s'] by (auto simp: at_sess_def all_inv_def)
qed

lemma handle_single_mode_inv:
  assumes "all_inv serv ss" "front < length ss" "nick_server serv" "ascii_skip skip" "mode_letter m"
    "mode_sign sign" "plain_word arg"
  shows "\<exists>ss' mr'. handle_single_mode skip serv front ss mr sign m nick chan arg quiet is_324 = Some (ss', mr') \<and>
     length ss' = length ss \<and> all_inv serv ss'"
proof -
  have gen: "\<exists>ss' mr'. at_sess ss front (\<lambda>s. Some (gen_mode serv s sign m nick chan arg quiet, mr)) = Some (ss', mr') \<and>
     length ss' = length ss \<and> all_inv serv ss'"
    by (rule at_sess_inv [OF assms(1,2)]) simp
  show ?thesis
  proof (cases "find_channel serv ss chan")
    case None
    with gen show ?thesis by (simp add: handle_single_mode_def)
  next
    case (Some i)
    have "\<exists>ss' mr'. at_sess ss i (\<lambda>s. chan_mode skip serv s mr sign m nick chan arg quiet is_324) = Some (ss', mr') \<and>
       length ss' = length ss \<and> all_inv serv ss'"
      by (rule at_sess_inv [OF assms(1)]) (use find_channel_Some [OF Some] chan_mode_inv assms in auto)
    with Some gen show ?thesis by (simp add: handle_single_mode_def)
  qed
qed

lemma mode_print_grouped_inv [simp]: "session_inv serv (fst (mode_print_grouped s nick mr)) = session_inv serv s"
  by (simp add: mode_print_grouped_def print_group_def split: option.split)

text \<open>The arguments of a MODE message begin at word 5.\<close>

definition args_ok :: "string list \<Rightarrow> string list \<Rightarrow> bool" where
  "args_ok word eol \<longleftrightarrow>
     (\<forall>i \<in> {5..<length word}. case STRIP_COLON word eol i of None \<Rightarrow> False | Some a \<Rightarrow> plain_word a)"

lemma mode_loop_inv:
  assumes "nick_server (me_serv env)" "ascii_skip (me_skip env)" "args_ok (me_word env) (me_eol env)"
    and "me_num_args env + me_offset env + 1 < length (me_word env)" "3 \<le> me_offset env"
  shows "all_inv (me_serv env) ss \<Longrightarrow> me_front env < length ss \<Longrightarrow> me_target env < length ss \<Longrightarrow>
     \<forall>m \<in> set modes. mode_sign m \<or> mode_letter m \<Longrightarrow> mode_sign sign \<Longrightarrow> 1 \<le> arg \<Longrightarrow>
     \<exists>ss' mr'. mode_loop env modes sign arg ss mr = Some (ss', mr') \<and> length ss' = length ss \<and> all_inv (me_serv env) ss'"
proof (induction modes arbitrary: sign arg ss mr)
  case (Cons m modes)
  show ?case
  proof (cases "mode_sign m")
    case True
    obtain ss1 mr1 where "at_sess ss (me_target env) (\<lambda>s. Some (mode_print_grouped s (me_nick env) mr)) = Some (ss1, mr1)"
      "length ss1 = length ss" "all_inv (me_serv env) ss1"
      using at_sess_inv [OF Cons.prems(1,3), of "\<lambda>s. Some (mode_print_grouped s (me_nick env) mr)"]
        mode_print_grouped_inv by (metis prod.collapse)
    with Cons.IH [of ss1 m arg mr1] Cons.prems True show ?thesis by (auto simp: mode_sign_def)
  next
    case False
    let ?c = "(me_all_args env \<or> mode_has_arg (me_serv env) sign m) \<and> arg < me_num_args env + 1"
    obtain arg' a where a: "(if ?c then do { a \<leftarrow> STRIP_COLON (me_word env) (me_eol env) (arg + 1 + me_offset env); Some (arg + 1, a) }
         else Some (arg, [])) = Some (arg', a)" "plain_word a"
    proof (cases ?c)
      case True
      then have "arg + 1 + me_offset env \<in> {5..<length (me_word env)}" using assms(4,5) Cons.prems(6) by simp
      with assms(3) have "case STRIP_COLON (me_word env) (me_eol env) (arg + 1 + me_offset env) of
          None \<Rightarrow> False | Some a \<Rightarrow> plain_word a" unfolding args_ok_def by blast
      with True that show ?thesis by (auto split: option.splits)
    next
      case False
      then show ?thesis using that by (auto simp: plain_word_def)
    qed
    have m: "mode_letter m" using Cons.prems(4) False by auto
    obtain ss1 mr1 where "handle_single_mode (me_skip env) (me_serv env) (me_front env) ss mr sign m (me_nick env)
             (me_chan env) a (me_324 env \<or> me_raw env) (me_324 env) = Some (ss1, mr1)"
      "length ss1 = length ss" "all_inv (me_serv env) ss1"
      using handle_single_mode_inv [OF Cons.prems(1,2) assms(1,2) m Cons.prems(5) a(2)] by blast
    moreover have "1 \<le> arg'" using a(1) Cons.prems(6) by (auto simp: bind_eq_Some_conv split: if_splits)
    ultimately show ?thesis
      using Cons.IH [of ss1 sign arg' mr1] Cons.prems False a(1) by (simp add: mode_sign_def)
  qed
qed simp

lemma count_args_bound:
  "length word = PDIWORDS \<Longrightarrow> i + offset + 1 \<le> PDIWORDS \<Longrightarrow>
     \<exists>n. count_args word offset i = Some n \<and> n + i + offset < PDIWORDS"
proof (induction word offset i rule: count_args.induct)
  case (1 word offset i)
  show ?case
  proof (cases "i + offset + 1 < PDIWORDS")
    case True
    then have w: "word_at word (i + 1 + offset) = Some (word ! (i + 1 + offset))"
      using "1.prems" by (simp add: word_at_def)
    show ?thesis
      using "1.IH" [OF True w] "1.prems" True w by (subst count_args.simps) auto
  next
    case False
    then show ?thesis using "1.prems" by (subst count_args.simps) auto
  qed
qed

lemma handle_mode_inv:
  assumes serv: "nick_server serv" "ascii_skip skip" and ss: "all_inv serv ss" "front < length ss"
    and word: "length word = PDIWORDS" "\<forall>w \<in> set word. plain_word w"
    and eol: "length word_eol = PDIWORDS" "cut_trailing_space word_eol 3 = Some eol" "args_ok word eol"
    and modes: "modes = (if chd (word ! 4) = CHR '':'' then tl (word ! 4) else word ! 4)" "modes = [] \<or> mode_sign (hd modes)"
  shows "\<exists>ss'. handle_mode skip raw serv front ss word word_eol nick False = Some ss' \<and>
     length ss' = length ss \<and> all_inv serv ss'"
proof (cases "modes = []")
  case True
  then show ?thesis using modes(1) word(1) ss(1) by (simp add: handle_mode_def word_at_def PDIWORDS_def)
next
  case False
  let ?chan = "word ! 3"
  define target where "target = (case find_channel serv ss ?chan of Some i \<Rightarrow> i | None \<Rightarrow> front)"
  have target: "target < length ss" using find_channel_Some ss(2) by (auto simp: target_def split: option.splits)
  have leol: "length eol = PDIWORDS" using eol(1,2)
    by (auto simp: cut_trailing_space_def bind_eq_Some_conv split: if_splits)
  obtain num_args where na: "count_args word 3 1 = Some num_args" "num_args + 4 < PDIWORDS"
    using count_args_bound [OF word(1), of 1 3] by (auto simp: PDIWORDS_def)
  have "word ! 4 \<in> set word" using word(1) by (simp add: PDIWORDS_def)
  then have "plain_word (word ! 4)" using word(2) by blast
  then have "plain_word modes" using modes(1) by (cases "word ! 4") (auto simp: plain_word_def plain_nick_def)
  then have letters: "\<forall>m \<in> set (tl modes). mode_sign m \<or> mode_letter m"
    by (cases modes) (auto simp: plain_word_def plain_nick_def cstring_def mode_letter_def)
  define f where "f = (\<lambda>s :: session. let s1 = (if raw \<and> \<not> False
        then emit (Emit ''XP_TE_RAWMODES'' [Some nick, Some (eol ! 3)]) s else s)
      in Some (if False \<and> \<not> (find_channel serv ss ?chan = None) then s1\<lparr>current_modes := eol ! 4\<rparr> else s1, ()))"
  have "\<exists>ss' x. at_sess ss target f = Some (ss', x) \<and> length ss' = length ss \<and> all_inv serv ss'"
    by (rule at_sess_inv [OF ss(1) target]) (simp add: f_def)
  then obtain ss1 where ss1: "at_sess ss target f = Some (ss1, ())" "length ss1 = length ss" "all_inv serv ss1"
    by auto
  define env where "env = \<lparr>me_skip = skip, me_serv = serv, me_front = front, me_word = word, me_eol = eol, me_nick = nick,
      me_chan = ?chan, me_offset = 3, me_num_args = num_args,
      me_all_args = (num_args = length (filter (\<lambda>c. c \<noteq> CHR ''+'' \<and> c \<noteq> CHR ''-'') (tl modes))),
      me_324 = False, me_raw = raw, me_target = target\<rparr>"
  have e: "nick_server (me_serv env)" "ascii_skip (me_skip env)" "args_ok (me_word env) (me_eol env)"
    "me_num_args env + me_offset env + 1 < length (me_word env)" "3 \<le> me_offset env"
    using serv eol(3) na(2) word(1) by (simp_all add: env_def)
  obtain ss2 mr where ss2: "mode_loop env (tl modes) (hd modes) 1 ss1 mode_run_new = Some (ss2, mr)"
    "length ss2 = length ss" "all_inv serv ss2"
    using mode_loop_inv [OF e, of ss1 "tl modes" "hd modes" 1 mode_run_new] ss1 ss(2) target letters modes(2) False
    by (auto simp: env_def)
  define g where "g = (\<lambda>s. Some (mode_print_grouped (if find_channel serv ss ?chan = None then s else emit Fe_Set_Title s) nick mr))"
  have "\<exists>ss' x. at_sess ss2 target g = Some (ss', x) \<and> length ss' = length ss2 \<and> all_inv serv ss'"
  proof (rule at_sess_inv [OF ss2(3)])
    show "\<exists>s' x. g s = Some (s', x) \<and> session_inv serv s'" if "session_inv serv s" for s
      using that mode_print_grouped_inv [of serv "if find_channel serv ss ?chan = None then s else emit Fe_Set_Title s" nick mr]
      unfolding g_def option.inject by (metis prod.collapse session_inv_emit)
  qed (use target ss2(2) in simp)
  then obtain ss3 x where ss3: "at_sess ss2 target g = Some (ss3, x)" "length ss3 = length ss" "all_inv serv ss3"
    using target ss2(2) by auto
  have w: "word_at word 3 = Some ?chan" "word_at word 4 = Some (word ! 4)" "word_at eol 3 = Some (eol ! 3)"
    "word_at eol 4 = Some (eol ! 4)"
    using word(1) leol by (simp_all add: word_at_def PDIWORDS_def)
  have "handle_mode skip raw serv front ss word word_eol nick False = Some ss3"
    unfolding handle_mode_def Let_def
    using False w eol(2) na(1) ss1(1) ss2(1) ss3(1)
    by (simp add: target_def [symmetric] f_def [unfolded Let_def] g_def env_def flip: modes(1))
  with ss3 show ?thesis by blast
qed

section \<open>Lines of mode changes\<close>

definition words_len :: "string list \<Rightarrow> int" where
  "words_len ws = (\<Sum>w \<leftarrow> ws. int (length w) + 1)"

lemma fit_modes_le: "fit_modes n ws len mx \<le> n" "fit_modes n ws len mx \<le> length ws"
  by (induction n ws len mx rule: fit_modes.induct) (auto simp: Let_def)

lemma fit_modes_len: "len \<le> mx \<Longrightarrow> len + words_len (take (fit_modes n ws len mx) ws) \<le> mx"
proof (induction n ws len mx rule: fit_modes.induct)
  case (3 n w ws len mx)
  then show ?case by (auto simp: Let_def words_len_def)
qed (auto simp: words_len_def)

lemma length_mode_line: "int (length (mode_line sign mode ws)) = 1 + int (length ws) + words_len ws"
  by (induction ws) (auto simp: mode_line_def words_len_def)

lemma send_mode_lines_batches:
  assumes "int per_line \<le> mx" "0 < per_line"
  shows "\<exists>bs. log (send_mode_lines per_line mx sign mode ws s) =
       log s @ map (\<lambda>b. P_Mode (channel s) (mode_line sign mode b)) bs \<and>
     (\<forall>b \<in> set bs. b \<noteq> [] \<and> length b \<le> per_line \<and> int per_line + words_len b \<le> mx) \<and> prefix (concat bs) ws \<and>
     ((\<forall>w \<in> set ws. int (length w) + 1 + int per_line \<le> mx) \<longrightarrow> concat bs = ws)"
  using assms
proof (induction per_line mx sign mode ws s rule: send_mode_lines.induct)
  case (1 per_line mx sign mode ws s)
  define n where "n = fit_modes per_line ws (int per_line) mx"
  show ?case
  proof (cases "ws = [] \<or> n < 1")
    case True
    have "\<exists>w \<in> set ws. mx < int (length w) + 1 + int per_line" if "ws \<noteq> []"
      using True that "1.prems"(2) unfolding n_def by (cases ws; cases per_line) (auto simp: Let_def split: if_splits)
    then show ?thesis
      using True by (intro exI [of _ "[]"], subst send_mode_lines.simps) (force simp: n_def Let_def)
  next
    case False
    let ?b = "take n ws" and ?s = "emit (P_Mode (channel s) (mode_line sign mode (take n ws))) s"
    have "\<not> ws = []" "\<not> n < 1" using False by auto
    from "1.IH" [OF this(1) n_def this(2)] "1.prems" obtain bs where bs:
      "log (send_mode_lines per_line mx sign mode (drop n ws) ?s) =
         log ?s @ map (\<lambda>b. P_Mode (channel s) (mode_line sign mode b)) bs"
      "\<forall>b \<in> set bs. b \<noteq> [] \<and> length b \<le> per_line \<and> int per_line + words_len b \<le> mx"
      "prefix (concat bs) (drop n ws)"
      "(\<forall>w \<in> set (drop n ws). int (length w) + 1 + int per_line \<le> mx) \<longrightarrow> concat bs = drop n ws"
      by auto
    have b: "?b \<noteq> []" "length ?b \<le> per_line" "int per_line + words_len ?b \<le> mx"
      using False fit_modes_le [of per_line ws "int per_line" mx] fit_modes_len [OF "1.prems"(1), of per_line ws]
      by (auto simp: n_def)
    have run: "send_mode_lines per_line mx sign mode ws s = send_mode_lines per_line mx sign mode (drop n ws) ?s"
      using False by (subst send_mode_lines.simps) (simp add: n_def Let_def)
    have "prefix (concat (?b # bs)) ws"
      using bs(3) by (metis append_take_drop_id concat.simps(2) same_prefix_prefix)
    moreover have "(\<forall>w \<in> set ws. int (length w) + 1 + int per_line \<le> mx) \<longrightarrow> concat (?b # bs) = ws"
      using bs(4) by (auto dest: in_set_dropD)
    ultimately show ?thesis
      using bs(1,2) b run by (intro exI [of _ "?b # bs"]) auto
  qed
qed

section \<open>Properties\<close>

lemma chanmode_type_group:
  "CHR '','' \<notin> set g \<Longrightarrow> m \<notin> set g \<Longrightarrow> chanmode_type_from t (g @ CHR '','' # r) m = chanmode_type_from (t + 1) r m"
  "CHR '','' \<notin> set g \<Longrightarrow> m \<in> set g \<Longrightarrow> chanmode_type_from t (g @ r) m = t"
  "CHR '','' \<notin> set g \<Longrightarrow> m \<notin> set g \<Longrightarrow> chanmode_type_from t g m = -1"
  by (induction g) auto

lemma chanmode_type_groups:
  assumes "\<forall>g \<in> set gs. CHR '','' \<notin> set g" "k < length gs" "m \<in> set (gs ! k)" "\<forall>j < k. m \<notin> set (gs ! j)"
  shows "chanmode_type_from t (join_sep (CHR '','') gs) m = t + int k"
  using assms
proof (induction "CHR '',''" gs arbitrary: t k rule: join_sep.induct)
  case (2 g)
  then show ?case using chanmode_type_group(2) [of g m t "[]"] by simp
next
  case (3 g g' gs)
  show ?case
  proof (cases k)
    case 0
    then show ?thesis using 3 chanmode_type_group(2) [of g m t "CHR '','' # join_sep (CHR '','') (g' # gs)"] by simp
  next
    case (Suc k')
    then have "m \<notin> set g" "\<forall>j < k'. m \<notin> set ((g' # gs) ! j)" using "3.prems"(4) by fastforce+
    then show ?thesis
      using Suc "3.hyps" [of k' "t + 1"] "3.prems" chanmode_type_group(1) [of g m t "join_sep (CHR '','') (g' # gs)"] by simp
  qed
qed simp

text \<open>For a server that announces \<open>CHANMODES=A,B,C,D\<close>, \<open>mode_chanmode_type\<close> returns the group a mode is first
  listed in, and \<open>mode_has_arg\<close> follows the protocol's table: list modes and modes of group B always
  take an argument, those of group C only when they are set, all later groups never, and modes that stand for
  a nickname prefix always.\<close>

theorem mode_has_arg_table:
  assumes "chanmodes serv = join_sep (CHR '','') gs" "\<forall>g \<in> set gs. CHR '','' \<notin> set g"
    and "k < length gs" "m \<in> set (gs ! k)" "\<forall>j < k. m \<notin> set (gs ! j)" "m \<noteq> NUL"
  shows "mode_chanmode_type serv m = int k \<and>
     (mode_has_arg serv sign m \<longleftrightarrow> m \<in> set (nick_modes serv) \<or> k < 2 \<or> k = 2 \<and> sign = CHR ''+'')"
proof -
  have "mode_chanmode_type serv m = int k"
    using chanmode_type_groups [OF assms(2-5), of 0] assms(1) by (simp add: mode_chanmode_type_def)
  then show ?thesis using assms(6) by (auto simp: mode_has_arg_def c_strchr_def)
qed

theorem mode_has_arg_table_witness:
  "mode_chanmode_type demo_server (CHR ''l'') = 2 \<and> (mode_has_arg demo_server (CHR ''-'') (CHR ''l'') \<longleftrightarrow> False)"
  using mode_has_arg_table [of demo_server "[''beI'', ''k'', ''l'', ''imnpst'']" 2 "CHR ''l''" "CHR ''-''"]
  by (simp add: demo_server_def less_2_cases_iff)

text \<open>C5: \<open>record_chan_mode\<close> refines a list of modes. When \<open>current_modes\<close> shows the modes \<open>ms\<close> (an optional
  plus sign, the letters, then the arguments in the same order), setting a mode rewrites the string to what
  shows \<open>ms\<close> with the mode's argument replaced in place, or with the mode added last; unsetting removes the
  letter and its own argument and no other. The positions computed in the string are always inside it.\<close>

theorem record_chan_mode_refines:
  assumes "modes_ok serv pfx ms" "m \<notin> set pfx" "current_modes s = show_modes serv pfx ms"
  shows "record_chan_mode serv s (CHR ''+'') m arg =
       Some (s\<lparr>current_modes := show_modes serv pfx (set_mode serv m arg ms)\<rparr>) \<and>
     record_chan_mode serv s (CHR ''-'') m arg =
       Some (s\<lparr>current_modes := show_modes serv pfx (unset_mode m ms)\<rparr>)"
  using record_modes_refines [OF assms(1,2), of arg] by (simp add: record_chan_mode_def assms(3))

theorem record_chan_mode_refines_witness:
  "map_option current_modes
     (record_chan_mode demo_server (demo_session\<lparr>current_modes := ''+nkl key 5''\<rparr>) (CHR ''-'') (CHR ''k'') ''key'') =
   Some ''+nl 5''"
proof -
  let ?ms = "[(CHR ''n'', []), (CHR ''k'', ''key''), (CHR ''l'', ''5'')]"
  have "modes_ok demo_server ''+'' ?ms" "show_modes demo_server ''+'' ?ms = ''+nkl key 5''"
    "show_modes demo_server ''+'' (unset_mode (CHR ''k'') ?ms) = ''+nl 5''"
    by code_simp+
  then show ?thesis
    using record_chan_mode_refines [of demo_server "''+''" ?ms "CHR ''k''" "demo_session\<lparr>current_modes := ''+nkl key 5''\<rparr>" "''key''"]
    by simp
qed

text \<open>C4: Handling a MODE message of ASCII words is defined (no word beyond the 32 parsed ones is read, no freed
  user, no position outside \<open>current_modes\<close>) and keeps, in every session of the server, the user-list invariant
  and the format of the recorded modes, whatever modes, arguments and targets it names.\<close>

theorem handle_mode_safe:
  assumes "nick_server serv" "ascii_skip skip" "all_inv serv ss" "front < length ss"
    and "length word = PDIWORDS" "\<forall>w \<in> set word. plain_word w"
    and "length word_eol = PDIWORDS" "cut_trailing_space word_eol 3 = Some eol" "args_ok word eol"
    and "modes = (if chd (word ! 4) = CHR '':'' then tl (word ! 4) else word ! 4)" "modes = [] \<or> mode_sign (hd modes)"
  shows "\<exists>ss'. handle_mode skip raw serv front ss word word_eol nick False = Some ss' \<and>
     length ss' = length ss \<and> (\<forall>s \<in> set ss'. nicks_inv serv s \<and> modes_inv serv s)"
  using handle_mode_inv [OF assms] by (auto simp: all_inv_def session_inv_def)

definition demo_words :: "string list" where
  "demo_words = [[], '':oper!o@h'', ''MODE'', ''#c'', ''+vk'', ''alice'', ''key''] @ replicate 25 []"

definition demo_eol :: "string list" where
  "demo_eol = [[], '':oper!o@h MODE #c +vk alice key'', ''MODE #c +vk alice key'', ''#c +vk alice key'',
     ''+vk alice key'', ''alice key'', ''key''] @ replicate 25 []"

theorem handle_mode_safe_witness:
  "\<exists>ss'. handle_mode (\<lambda>c. 1) False demo_server 0 [demo_session\<lparr>channel := ''#c'', current_modes := ''+n''\<rparr>]
     demo_words demo_eol ''oper'' False = Some ss' \<and> length ss' = 1"
proof -
  let ?s = "demo_session\<lparr>channel := ''#c'', current_modes := ''+n''\<rparr>"
  have "modes_inv demo_server ?s"
    unfolding modes_inv_def
    by (intro exI [of _ "''+''"] exI [of _ "[(CHR ''n'', [])]"]) (simp, code_simp)
  moreover have "nicks_inv demo_server ?s"
    using demo_session_inv by (simp add: userlist_inv_def tree_inv_def count_inv_def flag_inv_def)
  ultimately have inv: "all_inv demo_server [?s]" by (simp add: all_inv_def session_inv_def)
  have w: "length demo_words = PDIWORDS" "\<forall>w \<in> set demo_words. plain_word w" "length demo_eol = PDIWORDS"
    "cut_trailing_space demo_eol 3 = Some demo_eol" "args_ok demo_words demo_eol"
    by code_simp+
  from handle_mode_safe [OF demo_server_ok _ inv _ w refl, of "\<lambda>c. 1" 0 False "''oper''"] show ?thesis
    by (auto simp: ascii_skip_def demo_words_def mode_sign_def)
qed

text \<open>C29: \<open>send_channel_modes\<close> splits a list of nicks into MODE commands: each carries at least one and at most
  \<open>modes_per_line\<close> nicks, fits with its terminator into the 512 bytes of an IRC message, and together they name the
  nicks in order without loss or repetition, provided that each single nick fits; otherwise it stops before the
  first that does not.\<close>

theorem send_channel_modes_batches:
  assumes "wpos \<le> end_pos" "end_pos \<le> length word" "0 < per_line" "int per_line + int (length (channel s)) \<le> 503"
    and "ws = take (end_pos - wpos) (drop wpos word)"
  shows "\<exists>bs. log (snd (send_channel_modes serv s word wpos end_pos sign mode (int per_line))) =
       log s @ map (\<lambda>b. P_Mode (channel s) (mode_line sign mode b)) bs \<and>
     (\<forall>b \<in> set bs. b \<noteq> [] \<and> length b \<le> per_line \<and>
        length (''MODE '' @ channel s @ '' '' @ mode_line sign mode b) + 2 \<le> 512) \<and>
     prefix (concat bs) ws \<and>
     ((\<forall>w \<in> set ws. length w + 1 + per_line + length (channel s) \<le> 503) \<longrightarrow> concat bs = ws)"
proof -
  let ?mx = "503 - int (length (channel s))"
  obtain bs where bs: "log (send_mode_lines per_line ?mx sign mode ws s) =
       log s @ map (\<lambda>b. P_Mode (channel s) (mode_line sign mode b)) bs"
    "\<forall>b \<in> set bs. b \<noteq> [] \<and> length b \<le> per_line \<and> int per_line + words_len b \<le> ?mx" "prefix (concat bs) ws"
    "(\<forall>w \<in> set ws. int (length w) + 1 + int per_line \<le> ?mx) \<longrightarrow> concat bs = ws"
    using send_mode_lines_batches [of per_line ?mx sign mode ws s] assms by auto
  have "length (''MODE '' @ channel s @ '' '' @ mode_line sign mode b) + 2 \<le> 512" if "b \<in> set bs" for b
    using bs(2) that length_mode_line [of sign mode b] by force
  moreover have "(\<forall>w \<in> set ws. length w + 1 + per_line + length (channel s) \<le> 503) \<longrightarrow> concat bs = ws"
    using bs(4) by force
  ultimately show ?thesis using bs(1-3) assms by (auto simp: send_channel_modes_def Let_def)
qed

theorem send_channel_modes_batches_witness:
  "\<exists>bs. log (snd (send_channel_modes demo_server (demo_session\<lparr>channel := ''#c''\<rparr>) [''a'', ''b'', ''c'', ''d''] 0 4
        (CHR ''+'') (CHR ''o'') 3)) = map (\<lambda>b. P_Mode ''#c'' (mode_line (CHR ''+'') (CHR ''o'') b)) bs \<and>
     concat bs = [''a'', ''b'', ''c'', ''d'']"
  using send_channel_modes_batches [of 0 4 "[''a'', ''b'', ''c'', ''d'']" 3 "demo_session\<lparr>channel := ''#c''\<rparr>"
      "[''a'', ''b'', ''c'', ''d'']" demo_server "CHR ''+''" "CHR ''o''"]
  by (auto simp: demo_session_def empty_session_def)

end
