(* ===== verification/Isupport.thy ===== *)
theory Isupport
  imports Modes
begin

text \<open>
  The capabilities a server announces: numeric 005 of \<open>src/src/common/modes.c\<close>, the reset of
  \<open>server_set_defaults\<close> and the use of \<open>CLIENTTAGDENY\<close> in \<open>src/src/common/server.c\<close>, and the two
  chat-history tokens of \<open>src/src/common/chathistory.c\<close>.
  Functions of GLib are parameters: \<open>acmp\<close> is \<open>g_ascii_strcasecmp\<close>, \<open>iconv_ok\<close> tells whether \<open>g_iconv_open\<close>
  knows a character set, \<open>skip\<close> is \<open>g_utf8_skip\<close>.
\<close>

section \<open>Tokens\<close>

definition hex_to_chr :: "char \<Rightarrow> nat" where
  "hex_to_chr c =
     (if is_digit c then uchar c - 48
      else (if 65 \<le> uchar c \<and> uchar c \<le> 90 then uchar c + 32 else uchar c) - 97 + 10)"

definition is_xdigit :: "char \<Rightarrow> bool" where
  "is_xdigit c \<longleftrightarrow> is_digit c \<or> (65 \<le> uchar c \<and> uchar c \<le> 70) \<or> (97 \<le> uchar c \<and> uchar c \<le> 102)"

text \<open>The bytes written to \<open>value\<close>. After a backslash four characters are consumed, or what is left; only
  a well-formed \<open>\xHH\<close> produces a byte.\<close>

function token_value :: "string \<Rightarrow> string" where
  "token_value [] = []"
| "token_value (c # s) =
     (if c = CHR 0x5C then
        (if chd s = CHR ''x'' \<and> is_xdigit (chd (drop 1 s)) \<and> is_xdigit (chd (drop 2 s))
         then [char_of (16 * hex_to_chr (chd (drop 1 s)) + hex_to_chr (chd (drop 2 s)))] else [])
        @ token_value (drop 3 s)
      else c # token_value s)"
  by pat_completeness auto
termination
  by (relation "measure length") auto

text \<open>A token is \<open>[-]NAME[=value]\<close>; an escaped NUL ends the C string early.\<close>

definition parse_005_token :: "string \<Rightarrow> string \<times> string \<times> bool" where
  "parse_005_token token =
     (let adding = (chd token \<noteq> CHR ''-'');
          t = (if adding then token else tl token)
      in case c_strchr_at t (CHR ''='') of
           Some split \<Rightarrow>
             (takeWhile (\<lambda>c. c \<noteq> CHR ''='') t, takeWhile (\<lambda>c. c \<noteq> NUL) (token_value (tl split)), adding)
         | None \<Rightarrow> (t, [], adding))"

section \<open>Their effects\<close>

definition server_set_encoding ::
  "(string \<Rightarrow> string \<Rightarrow> int) \<Rightarrow> (string \<Rightarrow> bool) \<Rightarrow> server \<Rightarrow> string option \<Rightarrow> server" where
  "server_set_encoding acmp iconv_ok serv new_encoding =
     serv\<lparr>encoding := Some
       (case new_encoding of
          None \<Rightarrow> ''UTF-8''
        | Some e0 \<Rightarrow>
            (let e = takeWhile (\<lambda>c. c \<noteq> CHR '' '') e0
             in if acmp e ''IRC'' = 0 then ''UTF-8''
                else if \<not> iconv_ok e then ''UTF-8''
                else e))\<rparr>"

definition has_prefix_str :: "string \<Rightarrow> string \<Rightarrow> bool" where
  "has_prefix_str s p \<longleftrightarrow> take (length p) s = p"

definition chathistory_parse_isupport :: "server \<Rightarrow> string \<Rightarrow> server" where
  "chathistory_parse_isupport serv value =
     (if value = [] then serv\<lparr>chathistory_limit := 0\<rparr>
      else
        (let serv1 = serv\<lparr>chathistory_limit := c_atoi value\<rparr>
         in if chathistory_limit serv1 = 0 \<and> c_strchr value (CHR ''='')
            then fold (\<lambda>t sv. if has_prefix_str t ''limit=''
                              then sv\<lparr>chathistory_limit := c_atoi (drop 6 t)\<rparr> else sv)
                   (g_strsplit value (CHR '','')) serv1
            else serv1))"

text \<open>Publishing the cutoff to the scrollback
  database is an event.\<close>

definition chathistory_parse_retention :: "server \<times> session \<Rightarrow> string option \<Rightarrow> server \<times> session" where
  "chathistory_parse_retention st value =
     (case st of (serv, s) \<Rightarrow>
        (serv\<lparr>chathistory_retention_secs :=
            (case value of
               Some (c # v) \<Rightarrow> (let secs = g_ascii_strtoll (c # v) in if 0 < secs then secs else 0)
             | _ \<Rightarrow> 0)\<rparr>, emit Retention_Published s))"

definition multiline_token :: "string \<Rightarrow> server \<Rightarrow> server" where
  "multiline_token t serv =
     (if has_prefix_str t ''max-bytes='' then serv\<lparr>multiline_max_bytes := c_atoi (drop 10 t)\<rparr>
      else if has_prefix_str t ''max-lines='' then serv\<lparr>multiline_max_lines := c_atoi (drop 10 t)\<rparr>
      else serv)"

definition prefix_token :: "string \<Rightarrow> server \<Rightarrow> server" where
  "prefix_token value serv =
     (case index_of (CHR '')'') value of
        Some i \<Rightarrow>
          serv\<lparr>nick_prefixes := drop (i + 1) value,
               nick_modes := (if i = 0 then drop 1 value else drop 1 (take i value))\<rparr>
      | None \<Rightarrow> serv\<lparr>bad_prefix := True, bad_nick_prefixes := value\<rparr>)"

text \<open>The chain of comparisons of \<open>inbound_005\<close>; the session is \<open>serv->server_session\<close>.\<close>

definition isupport_token ::
  "(string \<Rightarrow> string \<Rightarrow> int) \<Rightarrow> (string \<Rightarrow> bool) \<Rightarrow> (char \<Rightarrow> nat) \<Rightarrow> string \<times> string \<times> bool \<Rightarrow>
     server \<times> session \<Rightarrow> (server \<times> session) option" where
  "isupport_token acmp iconv_ok skip tok st =
     (case tok of (name, value, adding) \<Rightarrow> case st of (serv, s) \<Rightarrow>
        if name = ''MODES'' then Some (serv\<lparr>modes_per_line := c_atoi value\<rparr>, s)
        else if name = ''CHANTYPES'' then Some (serv\<lparr>chantypes := value\<rparr>, s)
        else if name = ''CHANMODES'' then Some (serv\<lparr>chanmodes := value\<rparr>, s)
        else if name = ''PREFIX'' then Some (prefix_token value serv, s)
        else if name = ''WATCH'' then Some (serv\<lparr>supports_watch := adding\<rparr>, s)
        else if name = ''MONITOR'' then Some (serv\<lparr>supports_monitor := adding\<rparr>, s)
        else if name = ''NETWORK'' then
          (if sess_type s = SESS_SERVER \<and> value \<noteq> []
           then do { c \<leftarrow> safe_strcpy skip value CHANLEN; Some (serv, emit Fe_Set_Channel (s\<lparr>channel := c\<rparr>)) }
           else Some (serv, s))
        else if name = ''CASEMAPPING'' then
          Some (if value = ''ascii'' then serv\<lparr>p_cmp := acmp\<rparr> else serv, s)
        else if name = ''CHARSET'' then
          Some (if acmp value ''UTF-8'' = 0 then server_set_encoding acmp iconv_ok serv (Some ''UTF-8'') else serv, s)
        else if name = ''draft/ACCOUNTREQUIRED'' \<or> name = ''ACCOUNTREQUIRED'' then
          Some (serv\<lparr>account_required := adding\<rparr>,
                if adding \<and> \<not> end_of_motd serv then emit Account_Required_Hint s else s)
        else if name = ''CLIENTTAGDENY'' then
          Some (serv\<lparr>client_tag_deny := (if adding \<and> value \<noteq> [] then Some value else None)\<rparr>, s)
        else if name = ''UTF8ONLY'' then
          Some ((server_set_encoding acmp iconv_ok serv (Some ''UTF-8''))\<lparr>utf8only := True\<rparr>, s)
        else if name = ''NAMESX'' then
          Some (if adding \<and> \<not> have_namesx serv
                then (serv\<lparr>have_namesx := True\<rparr>, emit (Tcp_Send ''PROTOCTL NAMESX'') s) else (serv, s))
        else if name = ''WHOX'' then Some (serv\<lparr>have_whox := adding\<rparr>, s)
        else if name = ''EXCEPTS'' then Some (serv\<lparr>have_except := adding\<rparr>, s)
        else if name = ''INVEX'' then Some (serv\<lparr>have_invite := adding\<rparr>, s)
        else if name = ''ELIST'' then
          Some (if c_strchr value (CHR ''U'') \<or> c_strchr value (CHR ''u'') then serv\<lparr>use_listargs := True\<rparr> else serv, s)
        else if name = ''CHATHISTORY'' then Some (chathistory_parse_isupport serv value, s)
        else if name = ''evilnet/CHATHISTORYRETENTION'' then
          Some (chathistory_parse_retention (serv, s) (if adding then Some value else None))
        else if name = ''MULTILINE'' then
          Some (if value \<noteq> [] then fold multiline_token (g_strsplit value (CHR '','')) serv else serv, s)
        else if name = ''draft/ICON'' \<or> name = ''ICON'' then
          Some (if adding then (serv\<lparr>network_icon_url := Some value\<rparr>, emit Network_Icon_Fetch s)
                else (serv\<lparr>network_icon_url := None\<rparr>, emit Network_Icon_Clear s))
        else Some (serv, s))"

function inbound_005_from ::
  "(string \<Rightarrow> string \<Rightarrow> int) \<Rightarrow> (string \<Rightarrow> bool) \<Rightarrow> (char \<Rightarrow> nat) \<Rightarrow> string list \<Rightarrow> nat \<Rightarrow> server \<times> session \<Rightarrow>
     (server \<times> session) option" where
  "inbound_005_from acmp iconv_ok skip word w st =
     (if w < PDIWORDS then
        do {
          t \<leftarrow> word_at word w;
          if t = [] \<or> chd t = CHR '':'' then Some st
          else do {
            st' \<leftarrow> isupport_token acmp iconv_ok skip (parse_005_token t) st;
            inbound_005_from acmp iconv_ok skip word (w + 1) st'
          }
        }
      else Some st)"
  by pat_completeness auto
termination
  by (relation "measure (\<lambda>(a, i, k, word, w, st). PDIWORDS - w)") auto

declare inbound_005_from.simps [simp del]

definition inbound_005 ::
  "(string \<Rightarrow> string \<Rightarrow> int) \<Rightarrow> (string \<Rightarrow> bool) \<Rightarrow> (char \<Rightarrow> nat) \<Rightarrow> string list \<Rightarrow> server \<times> session \<Rightarrow>
     (server \<times> session) option" where
  "inbound_005 acmp iconv_ok skip word st = inbound_005_from acmp iconv_ok skip word 4 st"

text \<open>\<open>server_set_defaults\<close>, on the fields of the model.\<close>

definition server_set_defaults :: "(string \<Rightarrow> string \<Rightarrow> int) \<Rightarrow> (string \<Rightarrow> bool) \<Rightarrow> server \<Rightarrow> server" where
  "server_set_defaults acmp iconv_ok serv =
     (let serv1 = serv\<lparr>client_tag_deny := None, network_icon_url := None, chantypes := ''#&!+'',
                       chanmodes := ''beI,k,l'', nick_prefixes := ''@%+'', nick_modes := ''ohv'',
                       modes_per_line := 3\<rparr>;
          serv2 = (if encoding serv1 = None
                   then server_set_encoding acmp iconv_ok serv1 (Some ''UTF-8'') else serv1)
      in serv2\<lparr>end_of_motd := False, use_listargs := False, supports_watch := False, supports_monitor := False,
               bad_prefix := False, have_namesx := False, have_whox := False, have_extjoin := False,
               have_uhnames := False, have_except := False, have_invite := False, utf8only := False\<rparr>)"

text \<open>May a client-only tag be sent? Every item of the list is looked at; the last one that fits decides.\<close>

definition tag_item :: "(string \<Rightarrow> string \<Rightarrow> int) \<Rightarrow> string \<Rightarrow> string \<Rightarrow> bool \<Rightarrow> bool" where
  "tag_item acmp tag it allowed =
     (if it = ''*'' then False
      else if chd it = CHR ''-'' \<and> acmp (tl it) tag = 0 then True
      else if acmp it tag = 0 then False
      else allowed)"

definition server_client_tag_allowed :: "(string \<Rightarrow> string \<Rightarrow> int) \<Rightarrow> server \<Rightarrow> string option \<Rightarrow> bool" where
  "server_client_tag_allowed acmp serv tag =
     (case (client_tag_deny serv, tag) of
        (Some deny, Some t) \<Rightarrow> fold (tag_item acmp t) (g_strsplit deny (CHR '','')) True
      | _ \<Rightarrow> True)"

section \<open>Escapes\<close>

text \<open>How a value is written: bytes that may not stand in a token are written \<open>\xHH\<close>.\<close>

definition hex_digit :: "nat \<Rightarrow> char" where
  "hex_digit n = char_of (if n < 10 then 48 + n else 55 + n)"

definition escape_byte :: "(char \<Rightarrow> bool) \<Rightarrow> char \<Rightarrow> string" where
  "escape_byte plain c =
     (if plain c \<and> c \<noteq> CHR 0x5C then [c]
      else [CHR 0x5C, CHR ''x'', hex_digit (uchar c div 16), hex_digit (uchar c mod 16)])"

lemma hex_digit_back: "n < 16 \<Longrightarrow> is_xdigit (hex_digit n) \<and> hex_to_chr (hex_digit n) = n"
  by (auto simp: hex_digit_def is_xdigit_def hex_to_chr_def is_digit_def uchar_char_of)

lemma token_value_escape: "token_value (concat (map (escape_byte plain) v) @ s) = v @ token_value s"
proof (induction v)
  case (Cons c v)
  have "uchar c div 16 < 16" "uchar c mod 16 < 16" using uchar_less [of c] by linarith+
  note d = hex_digit_back [OF this(1)] hex_digit_back [OF this(2)]
  have "16 * (uchar c div 16) + uchar c mod 16 = uchar c" by simp
  with Cons d show ?case by (auto simp: escape_byte_def numeral_2_eq_2 numeral_3_eq_3)
qed simp

lemma parse_005_value:
  assumes "CHR ''='' \<notin> set name" "name = [] \<or> hd name \<noteq> CHR ''-''" "cstring v"
  shows "parse_005_token (name @ CHR ''='' # concat (map (escape_byte plain) v)) = (name, v, True)"
proof -
  let ?t = "name @ CHR ''='' # concat (map (escape_byte plain) v)"
  have a: "chd ?t \<noteq> CHR ''-''" using assms(2) by (cases name) auto
  have "c_strchr_at ?t (CHR ''='') = Some (CHR ''='' # concat (map (escape_byte plain) v))"
    using assms(1) by (induction name) (auto simp: c_strchr_at_def)
  moreover have "takeWhile (\<lambda>c. c \<noteq> NUL) v = v" using assms(3) by (auto simp: cstring_def takeWhile_eq_all_conv)
  moreover have "takeWhile (\<lambda>c. c \<noteq> CHR ''='') ?t = name" using assms(1) by (auto simp: takeWhile_append)
  ultimately show ?thesis
    using a token_value_escape [of plain v "[]"] by (simp add: parse_005_token_def)
qed

section \<open>Properties\<close>

text \<open>Reading a numeric-005 token inverts writing it: for every value without NUL, written with the bytes outside
  of an arbitrary plain set (and the backslash) as \<open>\xHH\<close>, \<open>parse_005_token\<close> returns the name, the original
  value and that the token is added.\<close>

theorem parse_005_roundtrip:
  assumes "CHR ''='' \<notin> set name" "name = [] \<or> hd name \<noteq> CHR ''-''" "cstring v"
  shows "parse_005_token (name @ CHR ''='' # concat (map (escape_byte plain) v)) = (name, v, True)"
  using parse_005_value [OF assms] .

theorem parse_005_roundtrip_witness:
  "parse_005_token (''NETWORK='' @ concat (map (escape_byte (\<lambda>c. c \<noteq> CHR '' '')) ''Evil Net'')) = (''NETWORK'', ''Evil Net'', True)"
  using parse_005_roundtrip [of "''NETWORK''" "''Evil Net''" "\<lambda>c. c \<noteq> CHR '' ''"] by simp

lemma token_value_plain: "CHR 0x5C \<notin> set v \<Longrightarrow> token_value v = v"
  by (induction v) auto

lemma parse_005_plain:
  assumes "CHR ''='' \<notin> set name" "name = [] \<or> hd name \<noteq> CHR ''-''" "cstring v" "CHR 0x5C \<notin> set v"
  shows "parse_005_token (name @ CHR ''='' # v) = (name, v, True)"
proof -
  have "concat (map (escape_byte (\<lambda>c. True)) v) = v" using assms(4) by (induction v) (auto simp: escape_byte_def)
  with parse_005_value [OF assms(1-3), of "\<lambda>c. True"] show ?thesis by simp
qed

lemma index_of_close: "CHR '')'' \<notin> set xs \<Longrightarrow> index_of (CHR '')'') (xs @ CHR '')'' # ys) = Some (length xs)"
  by (rule index_of_append)

text \<open>C34: After a 005 line with \<open>PREFIX=(modes)prefixes\<close>, modes and prefixes of equal number, without
  repetition and fewer than 32, the server record holds exactly these two tables, nothing else of it has changed, and
  it satisfies what the user list and the handling of MODE rely on.\<close>

theorem inbound_005_prefix:
  assumes "length (modes :: string) = length pfx" "length pfx < 32" "distinct modes" "distinct pfx"
    and "cstring modes" "cstring pfx" "CHR '')'' \<notin> set modes" "CHR 0x5C \<notin> set modes \<union> set pfx"
    and "p_cmp serv = rfc_casecmp" "\<not> bad_prefix serv"
    and "word = w0 # w1 # w2 # w3 # (''PREFIX=('' @ modes @ '')'' @ pfx) # [] # rest"
  shows "inbound_005 acmp iconv_ok skip word (serv, s) = Some (serv\<lparr>nick_prefixes := pfx, nick_modes := modes\<rparr>, s) \<and>
     nick_server (serv\<lparr>nick_prefixes := pfx, nick_modes := modes\<rparr>)"
proof -
  let ?v = "''('' @ modes @ '')'' @ pfx" and ?serv = "serv\<lparr>nick_prefixes := pfx, nick_modes := modes\<rparr>"
  have p: "parse_005_token (''PREFIX=('' @ modes @ '')'' @ pfx) = (''PREFIX'', ?v, True)"
    using parse_005_plain [of "''PREFIX''" ?v] assms(5,6,8) by simp
  have "index_of (CHR '')'') ?v = Some (length (CHR ''('' # modes))"
    using index_of_close [of "CHR ''('' # modes" pfx] assms(7) by simp
  then have t: "prefix_token ?v serv = ?serv"
    by (simp add: prefix_token_def)
  have "inbound_005_from acmp iconv_ok skip word 5 (?serv, s) = Some (?serv, s)"
    by (subst inbound_005_from.simps) (simp add: assms(11) word_at_def PDIWORDS_def)
  then have "inbound_005 acmp iconv_ok skip word (serv, s) = Some (?serv, s)"
    using p t unfolding inbound_005_def
    by (subst inbound_005_from.simps) (simp add: assms(11) word_at_def PDIWORDS_def isupport_token_def)
  moreover have "nick_server ?serv" using assms by (simp add: nick_server_def prefix_ok_def)
  ultimately show ?thesis by blast
qed

theorem inbound_005_prefix_witness:
  "inbound_005 rfc_casecmp (\<lambda>e. True) (\<lambda>c. 1) ([[], ''srv'', ''005'', ''me'', ''PREFIX=(qo)~@'', []] @ replicate 27 [])
     (demo_server, demo_session) = Some (demo_server\<lparr>nick_prefixes := ''~@'', nick_modes := ''qo''\<rparr>, demo_session)"
  using inbound_005_prefix [of "''qo''" "''~@''" demo_server
      "[[], ''srv'', ''005'', ''me'', ''PREFIX=(qo)~@'', []] @ replicate 27 []" "[]" "''srv''" "''005''" "''me''" "replicate 27 []"
      rfc_casecmp "\<lambda>e. True" "\<lambda>c. 1" demo_session]
  by (simp add: demo_server_def)

definition tag_exempts :: "(string \<Rightarrow> string \<Rightarrow> int) \<Rightarrow> string \<Rightarrow> string \<Rightarrow> bool" where
  "tag_exempts acmp tag it \<longleftrightarrow> it \<noteq> ''*'' \<and> chd it = CHR ''-'' \<and> acmp (tl it) tag = 0"

definition tag_denies :: "(string \<Rightarrow> string \<Rightarrow> int) \<Rightarrow> string \<Rightarrow> string \<Rightarrow> bool" where
  "tag_denies acmp tag it \<longleftrightarrow> it = ''*'' \<or> \<not> tag_exempts acmp tag it \<and> acmp it tag = 0"

lemma tag_item_cases:
  "tag_item acmp tag it a = (if tag_exempts acmp tag it then True else if tag_denies acmp tag it then False else a)"
  by (auto simp: tag_item_def tag_exempts_def tag_denies_def)

lemma fold_tag_item:
  "fold (tag_item acmp tag) its a \<longleftrightarrow>
     (\<forall>pre it post. its = pre @ it # post \<and> tag_denies acmp tag it \<longrightarrow> (\<exists>x \<in> set post. tag_exempts acmp tag x)) \<and>
     (a \<or> (\<exists>x \<in> set its. tag_exempts acmp tag x))"
proof (induction its arbitrary: a)
  case (Cons i its)
  have nd: "tag_exempts acmp tag i \<Longrightarrow> \<not> tag_denies acmp tag i" by (auto simp: tag_denies_def tag_exempts_def)
  have split: "(\<forall>pre it post. i # its = pre @ it # post \<and> tag_denies acmp tag it \<longrightarrow> (\<exists>x \<in> set post. tag_exempts acmp tag x)) \<longleftrightarrow>
     (tag_denies acmp tag i \<longrightarrow> (\<exists>x \<in> set its. tag_exempts acmp tag x)) \<and>
     (\<forall>pre it post. its = pre @ it # post \<and> tag_denies acmp tag it \<longrightarrow> (\<exists>x \<in> set post. tag_exempts acmp tag x))"
    by (auto simp: Cons_eq_append_conv)
  show ?case
    unfolding split fold_simps Cons.IH [of "tag_item acmp tag i a"]
    unfolding tag_item_cases [of acmp tag i a] using nd by auto
qed simp

text \<open>\<open>CLIENTTAGDENY\<close>: a client-only tag may be sent if and only if every item of the announced list that blocks it
  (a star, or its name) is followed by an item that exempts it (a minus and its name); with no list every tag may.\<close>

theorem server_client_tag_allowed_spec:
  assumes "its \<noteq> []" "its \<noteq> [[]]" "\<forall>t \<in> set its. CHR '','' \<notin> set t"
    and "client_tag_deny serv = Some (join_sep (CHR '','') its)"
  shows "server_client_tag_allowed acmp serv (Some tag) \<longleftrightarrow>
     (\<forall>pre it post. its = pre @ it # post \<and> tag_denies acmp tag it \<longrightarrow> (\<exists>x \<in> set post. tag_exempts acmp tag x))"
  using g_strsplit_join [OF assms(1-3)] fold_tag_item [of acmp tag its True] assms(4)
  by (simp add: server_client_tag_allowed_def)

theorem server_client_tag_allowed_spec_witness:
  "server_client_tag_allowed rfc_casecmp (demo_server\<lparr>client_tag_deny := Some ''*,-typing''\<rparr>) (Some ''typing'') \<longleftrightarrow>
     (\<forall>pre it post. [''*'', ''-typing''] = pre @ it # post \<and> tag_denies rfc_casecmp ''typing'' it \<longrightarrow>
        (\<exists>x \<in> set post. tag_exempts rfc_casecmp ''typing'' x))"
  by (rule server_client_tag_allowed_spec) simp_all

end
