(* ===== verification/Ignore.thy ===== *)
theory Ignore
  imports Chat_State
begin

text \<open>
  The ignore list and the flood protection, \<open>src/src/common/ignore.c\<close>, with the reader of configuration
  files it uses, \<open>cfg_get_str\<close> of \<open>src/src/common/cfgfiles.c\<close>. The global variables are a state record.
  \<open>ncmp\<close> stands for \<open>g_ascii_strncasecmp\<close>, \<open>skip\<close> for \<open>g_utf8_skip\<close>. A file is its contents.
\<close>

section \<open>State\<close>

definition IG_PRIV :: u32 where "IG_PRIV = 1"
definition IG_NOTI :: u32 where "IG_NOTI = 2"
definition IG_CHAN :: u32 where "IG_CHAN = 4"
definition IG_CTCP :: u32 where "IG_CTCP = 8"
definition IG_INVI :: u32 where "IG_INVI = 16"
definition IG_UNIG :: u32 where "IG_UNIG = 32"
definition IG_NOSAVE :: u32 where "IG_NOSAVE = 64"
definition IG_DCC :: u32 where "IG_DCC = 128"

lemmas IG_defs = IG_PRIV_def IG_NOTI_def IG_CHAN_def IG_CTCP_def IG_INVI_def IG_UNIG_def IG_NOSAVE_def IG_DCC_def

record ignore =
  ig_mask :: string
  ig_type :: u32

text \<open>The list (most recent first), the counters, and the arguments of the calls of \<open>fe_ignore_update\<close>.\<close>

record ignore_state =
  ignore_list :: "ignore list"
  ignored_ctcp :: int
  ignored_priv :: int
  ignored_chan :: int
  ignored_noti :: int
  ignored_invi :: int
  ignored_total :: int
  ignore_updates :: "nat list"

definition ignore_init :: ignore_state where
  "ignore_init = \<lparr>ignore_list = [], ignored_ctcp = 0, ignored_priv = 0, ignored_chan = 0, ignored_noti = 0,
     ignored_invi = 0, ignored_total = 0, ignore_updates = []\<rparr>"

abbreviation has_type :: "u32 \<Rightarrow> u32 \<Rightarrow> bool" where
  "has_type t flag \<equiv> t AND flag \<noteq> 0"

section \<open>Operations\<close>

text \<open>The position of the entry; the source returns a pointer to it.\<close>

fun ignore_index :: "ignore list \<Rightarrow> string \<Rightarrow> nat option" where
  "ignore_index [] msk = None"
| "ignore_index (ig # igs) msk =
     (if rfc_casecmp (ig_mask ig) msk = 0 then Some 0 else map_option Suc (ignore_index igs msk))"

definition ignore_exists :: "ignore_state \<Rightarrow> string \<Rightarrow> nat option" where
  "ignore_exists st msk = ignore_index (ignore_list st) msk"

definition fe_ignore_update :: "nat \<Rightarrow> ignore_state \<Rightarrow> ignore_state" where
  "fe_ignore_update level st = st\<lparr>ignore_updates := ignore_updates st @ [level]\<rparr>"

definition ignore_add :: "ignore_state \<Rightarrow> string \<Rightarrow> u32 \<Rightarrow> bool \<Rightarrow> nat \<times> ignore_state" where
  "ignore_add st msk type overwrite =
     (case ignore_exists st msk of
        Some i \<Rightarrow>
          (let ig = ignore_list st ! i;
               ig' = \<lparr>ig_mask = msk, ig_type = (if overwrite then type else ig_type ig OR type)\<rparr>
           in (2, fe_ignore_update 1 (st\<lparr>ignore_list := (ignore_list st)[i := ig']\<rparr>)))
      | None \<Rightarrow>
          (1, fe_ignore_update 1 (st\<lparr>ignore_list := \<lparr>ig_mask = msk, ig_type = type\<rparr> # ignore_list st\<rparr>)))"

definition yes_no :: "bool \<Rightarrow> string" where
  "yes_no b = (if b then ''YES  '' else ''NO   '')"

text \<open>\<open>%-25s\<close>; the line without the translation of YES and NO. \<open>tbuf\<close> has 256 bytes; \<open>g_snprintf\<close> cuts, \<open>strcat\<close>
  does not, and a mask of more than 217 bytes overruns it.\<close>

definition pad25 :: "string \<Rightarrow> string" where
  "pad25 s = s @ replicate (25 - length s) (CHR '' '')"

definition ignore_line :: "ignore \<Rightarrow> string option" where
  "ignore_line ig =
     (let line = take 255 ('' '' @ pad25 (ig_mask ig) @ '' '') @
            concat (map (\<lambda>f. yes_no (has_type (ig_type ig) f))
              [IG_PRIV, IG_NOTI, IG_CHAN, IG_CTCP, IG_DCC, IG_INVI, IG_UNIG]) @ [CHR 0x0A]
      in if length line < 256 then Some line else None)"

fun option_all :: "'a option list \<Rightarrow> 'a list option" where
  "option_all [] = Some []"
| "option_all (x # xs) = do { y \<leftarrow> x; ys \<leftarrow> option_all xs; Some (y # ys) }"

definition ignore_showlist :: "ignore_state \<Rightarrow> string list option" where
  "ignore_showlist st =
     do {
       ls \<leftarrow> option_all (map ignore_line (ignore_list st));
       Some ([''XP_TE_IGNOREHEADER''] @ ls @ (if ls = [] then [''XP_TE_IGNOREEMPTY''] else []) @
             [''XP_TE_IGNOREFOOTER''])
     }"

text \<open>Called with a mask, or with an entry (its position).\<close>

definition ignore_del :: "ignore_state \<Rightarrow> string \<Rightarrow> nat option \<Rightarrow> bool \<times> ignore_state" where
  "ignore_del st msk ig =
     (case (case ig of Some i \<Rightarrow> Some i | None \<Rightarrow> ignore_index (ignore_list st) msk) of
        Some i \<Rightarrow>
          (True, fe_ignore_update 1 (st\<lparr>ignore_list := take i (ignore_list st) @ drop (i + 1) (ignore_list st)\<rparr>))
      | None \<Rightarrow> (False, st))"

text \<open>The first entry whose type is selected and whose mask matches.\<close>

fun first_match :: "(u32 \<Rightarrow> bool) \<Rightarrow> ignore list \<Rightarrow> string \<Rightarrow> bool option" where
  "first_match sel [] host = Some False"
| "first_match sel (ig # igs) host =
     (if sel (ig_type ig) then
        do { b \<leftarrow> match (ig_mask ig) host; if b then Some True else first_match sel igs host }
      else first_match sel igs host)"

definition count_ignored :: "u32 \<Rightarrow> ignore_state \<Rightarrow> ignore_state" where
  "count_ignored type st =
     st\<lparr>ignored_total := ignored_total st + 1,
        ignored_priv := ignored_priv st + of_bool (has_type type IG_PRIV),
        ignored_noti := ignored_noti st + of_bool (has_type type IG_NOTI),
        ignored_chan := ignored_chan st + of_bool (has_type type IG_CHAN),
        ignored_ctcp := ignored_ctcp st + of_bool (has_type type IG_CTCP),
        ignored_invi := ignored_invi st + of_bool (has_type type IG_INVI)\<rparr>"

definition ignore_check :: "ignore_state \<Rightarrow> string \<Rightarrow> u32 \<Rightarrow> (bool \<times> ignore_state) option" where
  "ignore_check st host type =
     do {
       un \<leftarrow> first_match (\<lambda>t. has_type t IG_UNIG \<and> has_type t type) (ignore_list st) host;
       if un then Some (False, st)
       else do {
         ig \<leftarrow> first_match (\<lambda>t. has_type t type) (ignore_list st) host;
         Some (if ig then (True, fe_ignore_update 2 (count_ignored type st)) else (False, st))
       }
     }"

section \<open>The file\<close>

text \<open>\<open>cfg_get_str\<close>: the value of the next line that starts with the variable and a space, cut to the buffer,
  and the rest of the text from the end of that line. A value that \<open>safe_strcpy\<close> cannot copy is undefined
  (the outer \<open>None\<close>).\<close>

definition line_end :: "string \<Rightarrow> string \<times> string" where
  "line_end cfg = (takeWhile (\<lambda>c. c \<noteq> CHR 0x0A) cfg, dropWhile (\<lambda>c. c \<noteq> CHR 0x0A) cfg)"

definition cfg_value :: "string \<Rightarrow> string" where
  "cfg_value cfg =
     (let a = dropWhile (\<lambda>c. c = CHR '' '') cfg;
          b = (if chd a = CHR ''='' then tl a else a)
      in dropWhile (\<lambda>c. c = CHR '' '') b)"

function cfg_get_str ::
  "(string \<Rightarrow> string \<Rightarrow> nat \<Rightarrow> int) \<Rightarrow> (char \<Rightarrow> nat) \<Rightarrow> string \<Rightarrow> string \<Rightarrow> int \<Rightarrow> (string \<times> string) option option" where
  "cfg_get_str ncmp skip cfg var dest_len =
     (if ncmp (var @ '' '') cfg (length var + 1) = 0 then
        (let (l, rest) = line_end (cfg_value (drop (length var) cfg));
             v = (if l \<noteq> [] \<and> last l = CHR 0x0D then butlast l else l)
         in do { d \<leftarrow> safe_strcpy skip v dest_len; Some (Some (d, rest)) })
      else
        (let (l, rest) = line_end cfg
         in if rest = [] then Some None
            else if tl rest = [] then Some None
            else cfg_get_str ncmp skip (tl rest) var dest_len))"
  by pat_completeness auto
termination
proof (relation "measure (\<lambda>(n, k, cfg, v, d). length cfg)")
  fix ncmp skip cfg var dest_len x l rest
  assume "x = line_end cfg" "(l, rest) = x" "\<not> rest = []"
  then have "length (tl rest) < length rest" "length rest \<le> length cfg"
    using dropWhile_length_le [of "\<lambda>c. c \<noteq> CHR 0x0A" cfg] by (auto simp: line_end_def)
  then show "((ncmp, skip, tl rest, var, dest_len), ncmp, skip, cfg, var, dest_len)
      \<in> measure (\<lambda>(n, k, cfg, v, d). length cfg)" by simp
qed simp

declare cfg_get_str.simps [simp del]

text \<open>\<open>None\<close> inside: no further entry. When the mask is there and the type is not, the entry is dropped and the
  loop ends, too.\<close>

definition ignore_read_next_entry ::
  "(string \<Rightarrow> string \<Rightarrow> nat \<Rightarrow> int) \<Rightarrow> (char \<Rightarrow> nat) \<Rightarrow> string \<Rightarrow> (ignore \<times> string) option option" where
  "ignore_read_next_entry ncmp skip my_cfg =
     do {
       r \<leftarrow> cfg_get_str ncmp skip my_cfg ''mask'' 1024;
       case r of
         None \<Rightarrow> Some None
       | Some (msk, cfg1) \<Rightarrow> do {
           r2 \<leftarrow> cfg_get_str ncmp skip cfg1 ''type'' 1024;
           Some (case r2 of
                   None \<Rightarrow> None
                 | Some (t, cfg2) \<Rightarrow> Some (\<lparr>ig_mask = msk, ig_type = word_of_int (c_atoi t)\<rparr>, cfg2))
         }
     }"

text \<open>The loop of \<open>ignore_load\<close>, with fuel; every entry consumes text, so the length of the file is enough.\<close>

fun load_loop ::
  "nat \<Rightarrow> (string \<Rightarrow> string \<Rightarrow> nat \<Rightarrow> int) \<Rightarrow> (char \<Rightarrow> nat) \<Rightarrow> string \<Rightarrow> ignore list \<Rightarrow> ignore list option" where
  "load_loop 0 ncmp skip my_cfg igs = None"
| "load_loop (Suc n) ncmp skip my_cfg igs =
     do {
       r \<leftarrow> ignore_read_next_entry ncmp skip my_cfg;
       case r of None \<Rightarrow> Some igs | Some (ig, cfg') \<Rightarrow> load_loop n ncmp skip cfg' (ig # igs)
     }"

definition ignore_load ::
  "(string \<Rightarrow> string \<Rightarrow> nat \<Rightarrow> int) \<Rightarrow> (char \<Rightarrow> nat) \<Rightarrow> string option \<Rightarrow> ignore_state \<Rightarrow> ignore_state option" where
  "ignore_load ncmp skip file st =
     (case file of
        None \<Rightarrow> Some st
      | Some cfg \<Rightarrow>
          if cfg = [] then Some st
          else do {
            igs \<leftarrow> load_loop (length cfg + 1) ncmp skip cfg (ignore_list st);
            Some (st\<lparr>ignore_list := igs\<rparr>)
          })"

definition ignore_entry_text :: "ignore \<Rightarrow> string" where
  "ignore_entry_text ig =
     take 1023 (''mask = '' @ ig_mask ig @ [CHR 0x0A] @ ''type = '' @ dec_string (unat (ig_type ig)) @ [CHR 0x0A, CHR 0x0A])"

definition ignore_save :: "ignore_state \<Rightarrow> string" where
  "ignore_save st = concat (map ignore_entry_text (filter (\<lambda>ig. \<not> has_type (ig_type ig) IG_NOSAVE) (ignore_list st)))"

section \<open>Flood protection\<close>

record flood_state =
  ctcp_counter :: u32
  ctcp_last_time :: int
  msg_counter :: u32
  msg_last_time :: int
  autoopen_dialog :: bool
  dialog_timers :: nat
  flood_text :: "string list"
  flood_ignore :: ignore_state

record flood_prefs =
  flood_ctcp_time :: int
  flood_ctcp_num :: int
  flood_msg_time :: int
  flood_msg_num :: int

definition flood_mask :: "string \<Rightarrow> string \<Rightarrow> string" where
  "flood_mask nick ip =
     (case c_strchr_at ip (CHR ''@'') of Some real_ip \<Rightarrow> ''*!*'' @ real_ip | None \<Rightarrow> nick @ ''!*'')"

text \<open>The two texts are kept without their translations; \<open>now\<close> is \<open>time (NULL)\<close>. The result is 0 or 1.\<close>

definition flood_check ::
  "flood_prefs \<Rightarrow> flood_state \<Rightarrow> int \<Rightarrow> string \<Rightarrow> string \<Rightarrow> int \<Rightarrow> int \<times> flood_state" where
  "flood_check prefs st now nick ip what =
     (if what = 0 then
        (if ctcp_last_time st = 0
         then (1, st\<lparr>ctcp_last_time := now, ctcp_counter := ctcp_counter st + 1\<rparr>)
         else if now - ctcp_last_time st < flood_ctcp_time prefs then
           (let st1 = st\<lparr>ctcp_counter := ctcp_counter st + 1\<rparr>
            in if ctcp_counter st1 = word_of_int (flood_ctcp_num prefs) then
                 (let msk = flood_mask nick ip
                  in (0, st1\<lparr>ctcp_last_time := now, ctcp_counter := 0,
                             flood_text := flood_text st1 @ [nick @ '' '' @ msk],
                             flood_ignore := snd (ignore_add (flood_ignore st1) msk IG_CTCP False)\<rparr>))
               else (1, st1))
         else (1, st))
      else
        (if msg_last_time st = 0
         then (1, st\<lparr>msg_last_time := now, ctcp_counter := ctcp_counter st + 1\<rparr>)
         else if now - msg_last_time st < flood_msg_time prefs then
           (let st1 = st\<lparr>msg_counter := msg_counter st + 1\<rparr>
            in if msg_counter st1 = word_of_int (flood_msg_num prefs) then
                 (let st2 = st1\<lparr>flood_text := flood_text st1 @ [ip], msg_last_time := now, msg_counter := 0\<rparr>
                  in (0, if autoopen_dialog st2
                         then st2\<lparr>autoopen_dialog := False, dialog_timers := dialog_timers st2 + 1\<rparr> else st2))
               else (1, st1))
         else (1, st)))"

text \<open>The timer that turns the dialogs on again.\<close>

definition flood_autodialog_timeout :: "flood_state \<Rightarrow> flood_state" where
  "flood_autodialog_timeout st = st\<lparr>autoopen_dialog := True, dialog_timers := dialog_timers st - 1\<rparr>"

section \<open>Entries of the list\<close>

definition ignore_inv :: "ignore_state \<Rightarrow> bool" where
  "ignore_inv st \<longleftrightarrow> list_all (\<lambda>ig. plain_nick (ig_mask ig)) (ignore_list st) \<and>
     distinct (map (rfc_strlower \<circ> ig_mask) (ignore_list st))"

lemma ignore_index_Some:
  "ignore_index igs m = Some i \<Longrightarrow> i < length igs \<and> rfc_casecmp (ig_mask (igs ! i)) m = 0"
  by (induction igs arbitrary: i) (auto split: if_splits)

lemma ignore_index_None: "ignore_index igs m = None \<longleftrightarrow> (\<forall>ig \<in> set igs. rfc_casecmp (ig_mask ig) m \<noteq> 0)"
  by (induction igs) auto

lemma casecmp_lower: "plain_nick a \<Longrightarrow> plain_nick b \<Longrightarrow> rfc_casecmp a b = 0 \<longleftrightarrow> rfc_strlower a = rfc_strlower b"
  using rfc_casecmp_eq_0 by (simp add: plain_nick_def)

lemma fe_ignore_update_list [simp]: "ignore_list (fe_ignore_update l st) = ignore_list st"
  by (simp add: fe_ignore_update_def)

lemma ignore_add_inv:
  assumes "ignore_inv st" "plain_nick m"
  shows "ignore_inv (snd (ignore_add st m t ov))"
proof (cases "ignore_exists st m")
  case None
  then have "rfc_strlower m \<notin> set (map (rfc_strlower \<circ> ig_mask) (ignore_list st))"
    using assms casecmp_lower [of _ m]
    by (auto simp: ignore_exists_def ignore_index_None ignore_inv_def list_all_iff image_iff)
  then show ?thesis using None assms by (simp add: ignore_add_def ignore_inv_def)
next
  case (Some i)
  let ?L = "ignore_list st" and ?f = "rfc_strlower \<circ> ig_mask"
  have i: "i < length ?L" "rfc_casecmp (ig_mask (?L ! i)) m = 0"
    using ignore_index_Some Some by (auto simp: ignore_exists_def)
  have "plain_nick (ig_mask (?L ! i))" using assms(1) i(1) by (auto simp: ignore_inv_def list_all_length)
  then have "rfc_strlower m = map ?f ?L ! i" using casecmp_lower [OF _ assms(2)] i by simp
  then have "map ?f (?L[i := ig']) = map ?f ?L" if "ig_mask ig' = m" for ig'
    using that i(1) list_update_id [of "map ?f ?L" i] by (simp add: map_update del: list_update_id)
  moreover have "list_all (\<lambda>ig. plain_nick (ig_mask ig)) (?L[i := ig'])" if "ig_mask ig' = m" for ig'
    using that assms i(1) by (auto simp: ignore_inv_def list_all_iff dest: set_update_subset_insert [THEN subsetD])
  ultimately show ?thesis using Some assms by (simp add: ignore_add_def ignore_inv_def Let_def)
qed

lemma ignore_del_inv:
  assumes "ignore_inv st"
  shows "ignore_inv (snd (ignore_del st m None))"
proof (cases "ignore_index (ignore_list st) m")
  case (Some i)
  let ?L = "ignore_list st" and ?f = "rfc_strlower \<circ> ig_mask"
  have i: "i < length (map ?f ?L)" using ignore_index_Some [OF Some] by simp
  have "map ?f (take i ?L @ drop (i + 1) ?L) = remove_nth i (map ?f ?L)"
    by (simp add: remove_nth_def take_map drop_map)
  then have "distinct (map ?f (take i ?L @ drop (i + 1) ?L))"
    using remove_nth_distinct [OF _ i] assms by (simp only: ignore_inv_def)
  then show ?thesis
    using assms Some by (auto simp: ignore_del_def ignore_inv_def list_all_iff dest: in_set_takeD in_set_dropD)
qed (use assms in \<open>simp add: ignore_del_def\<close>)

section \<open>Matching\<close>

lemma first_match_spec:
  assumes "\<forall>ig \<in> set igs. match (ig_mask ig) host \<noteq> None"
  shows "first_match sel igs host = Some (\<exists>ig \<in> set igs. sel (ig_type ig) \<and> glob (ig_mask ig) host)"
  using assms
proof (induction igs)
  case (Cons ig igs)
  have "match (ig_mask ig) host = Some (glob (ig_mask ig) host)"
    using Cons.prems match_glob [of "ig_mask ig" host] by auto
  then show ?case using Cons by auto
qed simp

lemma first_match_hit:
  assumes "igs = pre @ ig # post" "sel (ig_type ig)" "glob (ig_mask ig) host"
    and "\<forall>x \<in> set pre. sel (ig_type x) \<longrightarrow> match (ig_mask x) host \<noteq> None"
  shows "first_match sel igs host = Some True"
  using assms
proof (induction pre arbitrary: igs)
  case Nil
  then have "match (ig_mask ig) host = Some True" using match_glob [of "ig_mask ig" host] by auto
  with Nil show ?case by simp
next
  case (Cons x pre)
  then show ?case by (cases "match (ig_mask x) host") auto
qed

section \<open>Saving and loading\<close>

lemma line_end_split: "CHR 0x0A \<notin> set l \<Longrightarrow> line_end (l @ CHR 0x0A # r) = (l, CHR 0x0A # r)"
  by (auto simp: line_end_def takeWhile_append dropWhile_append)

lemma cfg_get_str_hit:
  assumes "ncmp_ok ncmp" "ascii_skip skip" "CHR 0x0A \<notin> set v" "v = [] \<or> hd v \<noteq> CHR '' '' \<and> last v \<noteq> CHR 0x0D"
    and "ascii v" "int (length v) < n"
  shows "cfg_get_str ncmp skip (var @ '' = '' @ v @ CHR 0x0A # r) var n = Some (Some (v, CHR 0x0A # r))"
proof -
  have z: "ncmp (var @ '' '') (var @ '' = '' @ v @ CHR 0x0A # r) (length var + 1) = 0"
    using assms(1) by (simp add: ncmp_ok_def)
  have "cfg_value (drop (length var) (var @ '' = '' @ v @ CHR 0x0A # r)) = v @ CHR 0x0A # r"
    using assms(4) by (cases v) (simp_all add: cfg_value_def Let_def)
  moreover have "safe_strcpy skip v n = Some v"
    using safe_strcpy_short_skip [of skip v n] assms(2,5,6) by (simp add: ascii_skip_def)
  ultimately show ?thesis
    using z assms(4) line_end_split [OF assms(3)] by (subst cfg_get_str.simps) (auto simp: Let_def)
qed

lemma cfg_get_str_newline:
  assumes "ncmp_ok ncmp" "var \<noteq> []" "ascii_lower (hd var) \<noteq> CHR 0x0A"
  shows "cfg_get_str ncmp skip (CHR 0x0A # r) var n = (if r = [] then Some None else cfg_get_str ncmp skip r var n)"
proof -
  have "ascii_lower (CHR 0x0A) = CHR 0x0A" by (simp add: ascii_lower_def uchar_def)
  then have "ncmp (var @ '' '') (CHR 0x0A # r) (length var + 1) \<noteq> 0"
    using assms by (cases var) (auto simp: ncmp_ok_def)
  then show ?thesis by (subst cfg_get_str.simps) (simp add: line_end_def)
qed

text \<open>An entry that survives a trip through the file.\<close>

definition entry_ok :: "ignore \<Rightarrow> bool" where
  "entry_ok ig \<longleftrightarrow> plain_nick (ig_mask ig) \<and> CHR 0x0A \<notin> set (ig_mask ig) \<and>
     (ig_mask ig = [] \<or> hd (ig_mask ig) \<noteq> CHR '' '' \<and> last (ig_mask ig) \<noteq> CHR 0x0D) \<and> length (ig_mask ig) \<le> 995"

lemma entry_text:
  assumes "entry_ok ig"
  shows "ignore_entry_text ig = ''mask = '' @ ig_mask ig @ CHR 0x0A # ''type = '' @ dec_string (unat (ig_type ig)) @ [CHR 0x0A, CHR 0x0A]"
  unfolding ignore_entry_text_def
  by (subst take_all) (use assms dec_string_u32 [of "ig_type ig"] in \<open>auto simp: entry_ok_def\<close>)

lemma digit_range: "is_digit c \<Longrightarrow> uchar c < 128 \<and> c \<noteq> CHR '' '' \<and> c \<noteq> CHR 0x0A \<and> c \<noteq> CHR 0x0D"
  by (auto simp: is_digit_def uchar_def)

lemma dec_string_text:
  "ascii (dec_string n)" "CHR 0x0A \<notin> set (dec_string n)" "hd (dec_string n) \<noteq> CHR '' ''" "last (dec_string n) \<noteq> CHR 0x0D"
  using dec_string_digits [of n] digit_range unfolding list_all_iff ascii_def
  by (blast, blast, (metis hd_in_set), (metis last_in_set))

lemma read_entry:
  assumes "ncmp_ok ncmp" "ascii_skip skip" "entry_ok ig" "pre = [] \<or> pre = [CHR 0x0A, CHR 0x0A]"
  shows "ignore_read_next_entry ncmp skip (pre @ ignore_entry_text ig @ r) =
     Some (Some (ig, [CHR 0x0A, CHR 0x0A] @ r))"
proof -
  let ?d = "dec_string (unat (ig_type ig))"
  have lower: "ascii_lower (CHR ''m'') \<noteq> CHR 0x0A" "ascii_lower (CHR ''t'') \<noteq> CHR 0x0A"
    by (simp_all add: ascii_lower_def uchar_def)
  note nl = cfg_get_str_newline [OF assms(1)]
  have dlen: "int (length ?d) < 1024"
    using dec_string_u32 [of "ig_type ig"] by simp
  have m: "cfg_get_str ncmp skip (''mask'' @ '' = '' @ ig_mask ig @ CHR 0x0A # t) ''mask'' 1024 =
      Some (Some (ig_mask ig, CHR 0x0A # t))" for t
    by (rule cfg_get_str_hit) (use assms(1-3) in \<open>auto simp: entry_ok_def plain_nick_def\<close>)
  have t: "cfg_get_str ncmp skip (''type'' @ '' = '' @ ?d @ CHR 0x0A # t) ''type'' 1024 =
      Some (Some (?d, CHR 0x0A # t))" for t
    by (rule cfg_get_str_hit) (use assms(1,2) dec_string_text dlen in auto)
  let ?t = "''type = '' @ ?d @ [CHR 0x0A, CHR 0x0A] @ r"
  have e: "ignore_entry_text ig @ r = ''mask'' @ '' = '' @ ig_mask ig @ CHR 0x0A # ?t"
    using entry_text [OF assms(3)] by simp
  have "cfg_get_str ncmp skip (pre @ ignore_entry_text ig @ r) ''mask'' 1024 = Some (Some (ig_mask ig, CHR 0x0A # ?t))"
    using m [of ?t] assms(4) lower unfolding e by (auto simp: nl)
  moreover have "cfg_get_str ncmp skip (CHR 0x0A # ?t) ''type'' 1024 = Some (Some (?d, [CHR 0x0A, CHR 0x0A] @ r))"
    using t [of "CHR 0x0A # r"] lower by (simp add: nl)
  moreover have "word_of_int (c_atoi ?d) = ig_type ig"
    by (simp add: c_atoi_def c_number_dec_string)
  ultimately show ?thesis by (simp add: ignore_read_next_entry_def)
qed

lemma load_entries:
  assumes "ncmp_ok ncmp" "ascii_skip skip"
  shows "\<forall>ig \<in> set igs. entry_ok ig \<Longrightarrow> pre = [] \<or> pre = [CHR 0x0A, CHR 0x0A] \<Longrightarrow> length igs < n \<Longrightarrow>
     load_loop n ncmp skip (pre @ concat (map ignore_entry_text igs)) acc = Some (rev igs @ acc)"
proof (induction igs arbitrary: pre n acc)
  case Nil
  then obtain k where k: "n = Suc k" by (cases n) auto
  have lower: "ascii_lower (CHR ''m'') \<noteq> CHR 0x0A" by (simp add: ascii_lower_def uchar_def)
  have "ncmp (''mask'' @ '' '') [] (length ''mask'' + 1) \<noteq> 0" using assms(1) by (simp add: ncmp_ok_def)
  then have "cfg_get_str ncmp skip [] ''mask'' 1024 = Some None"
    by (subst cfg_get_str.simps) (simp only: if_False line_end_def takeWhile.simps dropWhile.simps Let_def prod.case simp_thms if_True)
  with Nil(2) k lower show ?case
    by (auto simp: ignore_read_next_entry_def cfg_get_str_newline [OF assms(1)])
next
  case (Cons ig igs)
  then obtain k where k: "n = Suc k" by (cases n) auto
  have "ignore_read_next_entry ncmp skip (pre @ concat (map ignore_entry_text (ig # igs))) =
      Some (Some (ig, [CHR 0x0A, CHR 0x0A] @ concat (map ignore_entry_text igs)))"
    using read_entry [OF assms _ Cons.prems(2), of ig "concat (map ignore_entry_text igs)"] Cons.prems(1) by simp
  with Cons.IH [of "[CHR 0x0A, CHR 0x0A]" k "ig # acc"] Cons.prems k show ?case by simp
qed

lemma concat_length_ge: "\<forall>x \<in> set xs. x \<noteq> [] \<Longrightarrow> length xs \<le> length (concat xs)"
proof (induction xs)
  case (Cons x xs)
  then have "1 \<le> length x" by (cases x) auto
  with Cons show ?case by fastforce
qed simp

section \<open>Floods\<close>

text \<open>A mask without special characters matches itself, and \<open>*!*@host\<close> matches every address of the host.\<close>

definition literal_text :: "string \<Rightarrow> bool" where
  "literal_text s \<longleftrightarrow> set s \<inter> {CHR ''*'', CHR ''?'', CHR 0x5C} = {}"

lemma glob_self: "literal_text s \<Longrightarrow> glob s s"
proof (induction s)
  case (Cons c s)
  then have "unescape c s = (c, s)" by (auto simp: literal_text_def unescape_def)
  with Cons show ?case by (subst glob_literal) (auto simp: literal_text_def)
qed simp

lemma glob_host_mask: "literal_text h \<Longrightarrow> glob (''*!*'' @ h) (n @ ''!'' @ u @ h)"
proof -
  assume h: "literal_text h"
  have "starred h (u @ h)" unfolding starred_def using glob_self [OF h] by (intro exI [of _ "length u"]) simp
  then have "glob (''!*'' @ h) (''!'' @ u @ h)"
    by (simp, subst glob_literal) (auto simp: unescape_def glob_star)
  then have "starred (''!*'' @ h) (n @ ''!'' @ u @ h)"
    unfolding starred_def by (intro exI [of _ "length n"]) simp
  then show ?thesis by (simp add: glob_star)
qed

fun flood_calls :: "flood_prefs \<Rightarrow> flood_state \<Rightarrow> int list \<Rightarrow> string \<Rightarrow> string \<Rightarrow> int list \<times> flood_state" where
  "flood_calls prefs st [] nick ip = ([], st)"
| "flood_calls prefs st (t # ts) nick ip =
     (let (r, st1) = flood_check prefs st t nick ip 0; (rs, st2) = flood_calls prefs st1 ts nick ip in (r # rs, st2))"

lemma flood_calls_append:
  "flood_calls prefs st (ts @ us) nick ip =
     (let (rs, st1) = flood_calls prefs st ts nick ip; (rs', st2) = flood_calls prefs st1 us nick ip in (rs @ rs', st2))"
  by (induction ts arbitrary: st) (auto simp: Let_def case_prod_beta)

lemma flood_calls_below:
  assumes "ctcp_last_time st \<noteq> 0" "ctcp_counter st = of_nat k" "flood_ctcp_num prefs = int n" "k + length ts < n" "n < 2 ^ 31"
    and "\<forall>t \<in> set ts. t - ctcp_last_time st < flood_ctcp_time prefs"
  shows "flood_calls prefs st ts nick ip = (replicate (length ts) 1, st\<lparr>ctcp_counter := of_nat (k + length ts)\<rparr>)"
  using assms
proof (induction ts arbitrary: st k)
  case (Cons t ts)
  have "(of_nat (Suc k) :: u32) \<noteq> of_nat n"
    using Cons.prems(4,5) by (simp add: word_of_nat_eq_iff take_bit_nat_eq_self del: of_nat_Suc)
  then have "flood_check prefs st t nick ip 0 = (1, st\<lparr>ctcp_counter := of_nat (Suc k)\<rparr>)"
    using Cons.prems by (simp add: flood_check_def Let_def add.commute)
  with Cons.IH [of "st\<lparr>ctcp_counter := of_nat (Suc k)\<rparr>" "Suc k"] Cons.prems show ?case by simp
qed simp

lemma flood_calls_late:
  assumes "ctcp_last_time st \<noteq> 0" "\<forall>t \<in> set ts. flood_ctcp_time prefs \<le> t - ctcp_last_time st"
  shows "flood_calls prefs st ts nick ip = (replicate (length ts) 1, st)"
  using assms by (induction ts) (auto simp: flood_check_def)

lemma flood_calls_reach:
  assumes "ctcp_last_time st = 0" "ctcp_counter st = 0" "flood_ctcp_num prefs = int (length ts)" "2 \<le> length ts"
    and "length ts < 2 ^ 31" "hd ts \<noteq> 0" "\<forall>t \<in> set ts. t - hd ts < flood_ctcp_time prefs"
  shows "\<exists>st'. flood_calls prefs st ts nick ip = (replicate (length ts - 1) 1 @ [0], st') \<and>
     flood_ignore st' = snd (ignore_add (flood_ignore st) (flood_mask nick ip) IG_CTCP False)"
proof -
  obtain t0 us l where ts: "ts = t0 # us @ [l]"
    using assms(4) by (cases ts; cases "tl ts" rule: rev_cases) auto
  let ?st1 = "st\<lparr>ctcp_last_time := t0, ctcp_counter := 1\<rparr>"
  have first: "flood_check prefs st t0 nick ip 0 = (1, ?st1)"
    using assms(1,2) by (simp add: flood_check_def)
  have mid: "flood_calls prefs ?st1 us nick ip = (replicate (length us) 1, ?st1\<lparr>ctcp_counter := of_nat (1 + length us)\<rparr>)"
    by (rule flood_calls_below [where n = "length ts"]) (use assms ts in auto)
  let ?st2 = "?st1\<lparr>ctcp_counter := of_nat (1 + length us)\<rparr>"
  have "ctcp_counter ?st2 + 1 = word_of_int (flood_ctcp_num prefs)"
    using assms(3) ts by (simp add: add.commute)
  moreover have "l - t0 < flood_ctcp_time prefs" "t0 \<noteq> 0" using assms(6,7) ts by auto
  ultimately have "\<exists>st'. flood_check prefs ?st2 l nick ip 0 = (0, st') \<and>
      flood_ignore st' = snd (ignore_add (flood_ignore st) (flood_mask nick ip) IG_CTCP False)"
    by (simp add: flood_check_def Let_def)
  then show ?thesis
    using first mid by (auto simp: ts flood_calls_append replicate_append_same)
qed

lemma flood_mask_at: "CHR ''@'' \<notin> set u \<Longrightarrow> flood_mask nick (u @ CHR ''@'' # h) = ''*!*@'' @ h"
  by (simp add: flood_mask_def c_strchr_at_def dropWhile_append)

lemma ignored_after_add:
  assumes "\<forall>ig \<in> set (ignore_list st). \<not> has_type (ig_type ig) IG_UNIG \<and> match (ig_mask ig) host \<noteq> None"
    and "glob m host" "\<not> has_type t IG_UNIG" "has_type t t"
  shows "\<exists>st'. ignore_check (snd (ignore_add st m t False)) host t = Some (True, st')"
proof -
  let ?L = "ignore_list (snd (ignore_add st m t False))"
  have mm: "match m host \<noteq> None" using match_glob [of m host] assms(2) by auto
  have or: "has_type (a OR t) t" "has_type (a OR t) IG_UNIG = has_type a IG_UNIG" for a
    using assms(3,4) by (auto simp: word_ao_dist or_eq_0_iff)
  have all: "\<forall>ig \<in> set ?L. \<not> has_type (ig_type ig) IG_UNIG \<and> match (ig_mask ig) host \<noteq> None"
    and ex: "\<exists>ig \<in> set ?L. has_type (ig_type ig) t \<and> glob (ig_mask ig) host"
  proof -
    show "\<forall>ig \<in> set ?L. \<not> has_type (ig_type ig) IG_UNIG \<and> match (ig_mask ig) host \<noteq> None"
      using assms(1,3) mm or(2) ignore_index_Some
      by (auto simp: ignore_add_def Let_def ignore_exists_def split: option.splits
          dest!: set_update_subset_insert [THEN subsetD])
    show "\<exists>ig \<in> set ?L. has_type (ig_type ig) t \<and> glob (ig_mask ig) host"
    proof (cases "ignore_exists st m")
      case None
      then show ?thesis using assms(2,4) by (auto simp: ignore_add_def)
    next
      case (Some i)
      then have "i < length (ignore_list st)" using ignore_index_Some by (auto simp: ignore_exists_def)
      then show ?thesis
        using Some or(1) assms(2) by (auto simp: ignore_add_def Let_def intro!: bexI [OF _ set_update_memI])
    qed
  qed
  have d: "\<forall>ig \<in> set ?L. match (ig_mask ig) host \<noteq> None" using all by blast
  have "first_match (\<lambda>t'. has_type t' IG_UNIG \<and> has_type t' t) ?L host = Some False"
    using first_match_spec [OF d, of "\<lambda>t'. has_type t' IG_UNIG \<and> has_type t' t"] all by auto
  moreover have "first_match (\<lambda>t'. has_type t' t) ?L host = Some True"
    using first_match_spec [OF d, of "\<lambda>t'. has_type t' t"] ex by auto
  ultimately show ?thesis by (simp add: ignore_check_def)
qed

section \<open>Properties\<close>

text \<open>C26: \<open>ignore_check\<close> ignores a message if and only if some entry of its type has a mask that describes the
  sender and no such entry is an exception (UNIGNORE), whatever the order of the list; the counters then count
  exactly the kinds of the message, and otherwise the state is unchanged.\<close>

theorem ignore_check_spec:
  assumes "\<forall>ig \<in> set (ignore_list st). match (ig_mask ig) host \<noteq> None"
  shows "ignore_check st host type =
     (if (\<exists>ig \<in> set (ignore_list st). has_type (ig_type ig) type \<and> glob (ig_mask ig) host) \<and>
         \<not> (\<exists>ig \<in> set (ignore_list st). has_type (ig_type ig) IG_UNIG \<and> has_type (ig_type ig) type \<and> glob (ig_mask ig) host)
      then Some (True, fe_ignore_update 2 (count_ignored type st)) else Some (False, st))"
  using first_match_spec [OF assms, of "\<lambda>t. has_type t IG_UNIG \<and> has_type t type"]
    first_match_spec [OF assms, of "\<lambda>t. has_type t type"]
  by (auto simp: ignore_check_def)

definition demo_ignores :: ignore_state where
  "demo_ignores = ignore_init\<lparr>ignore_list :=
     [\<lparr>ig_mask = ''*!*@x'', ig_type = 9\<rparr>, \<lparr>ig_mask = ''b!*@*'', ig_type = 41\<rparr>]\<rparr>"

theorem ignore_check_spec_witness:
  "map_option fst (ignore_check demo_ignores ''b!u@x'' 1) = Some False"
proof -
  have d: "\<forall>ig \<in> set (ignore_list demo_ignores). match (ig_mask ig) ''b!u@x'' \<noteq> None" by code_simp
  have u: "\<exists>ig \<in> set (ignore_list demo_ignores). has_type (ig_type ig) IG_UNIG \<and> has_type (ig_type ig) 1 \<and>
      glob (ig_mask ig) ''b!u@x''" by code_simp
  show ?thesis using ignore_check_spec [OF d, of 1] u by simp
qed

text \<open>The list never holds two masks that differ only in case: adding keeps that, the added mask is found
  afterwards with at least the requested kinds (exactly these when it overwrites or is new), and deleting a mask
  removes it.\<close>

theorem ignore_add_del:
  assumes "ignore_inv st" "plain_nick m"
  shows "ignore_inv (snd (ignore_add st m t ov)) \<and> ignore_inv (snd (ignore_del st m None)) \<and>
     (\<exists>i. ignore_exists (snd (ignore_add st m t ov)) m = Some i \<and>
        ig_mask (ignore_list (snd (ignore_add st m t ov)) ! i) = m \<and>
        ig_type (ignore_list (snd (ignore_add st m t ov)) ! i) =
          (case ignore_exists st m of Some j \<Rightarrow> if ov then t else ig_type (ignore_list st ! j) OR t | None \<Rightarrow> t)) \<and>
     ignore_exists (snd (ignore_del st m None)) m = None"
proof -
  let ?L = "ignore_list st"
  have self: "rfc_casecmp m m = 0" using rfc.cmp_flip assms(2) casecmp_lower [OF assms(2,2)] by simp
  have upd: "ignore_index (igs[i := ig']) m = Some i" if "ignore_index igs m = Some i" "ig_mask ig' = m" for igs i ig'
    using that self by (induction igs arbitrary: i) (auto split: if_splits)
  have found: "\<exists>i. ignore_exists (snd (ignore_add st m t ov)) m = Some i \<and>
        ig_mask (ignore_list (snd (ignore_add st m t ov)) ! i) = m \<and>
        ig_type (ignore_list (snd (ignore_add st m t ov)) ! i) =
          (case ignore_exists st m of Some j \<Rightarrow> if ov then t else ig_type (ignore_list st ! j) OR t | None \<Rightarrow> t)"
  proof (cases "ignore_exists st m")
    case None
    then show ?thesis using self by (simp add: ignore_add_def ignore_exists_def)
  next
    case (Some i)
    then show ?thesis
      using upd [of ?L i] ignore_index_Some [of ?L m i] by (simp add: ignore_add_def ignore_exists_def Let_def)
  qed
  have "ignore_index (take i ?L @ drop (i + 1) ?L) m = None" if i: "ignore_index ?L m = Some i" for i
  proof -
    have len: "i < length ?L" "rfc_strlower (ig_mask (?L ! i)) = rfc_strlower m"
      using ignore_index_Some [OF i] assms casecmp_lower by (auto simp: ignore_inv_def list_all_length)
    have d: "distinct (map (rfc_strlower \<circ> ig_mask) ?L)" using assms(1) by (simp add: ignore_inv_def)
    have "rfc_strlower (ig_mask x) \<noteq> rfc_strlower m" if "x \<in> set (take i ?L @ drop (i + 1) ?L)" for x
    proof -
      have "map (rfc_strlower \<circ> ig_mask) (take i ?L @ drop (i + 1) ?L) = remove_nth i (map (rfc_strlower \<circ> ig_mask) ?L)"
        by (simp add: remove_nth_def take_map drop_map)
      then have "rfc_strlower (ig_mask x) \<in> set (remove_nth i (map (rfc_strlower \<circ> ig_mask) ?L))"
        using that by (metis comp_apply image_eqI list.set_map)
      then show ?thesis using remove_nth_distinct [OF d, of i] len by simp
    qed
    moreover have "plain_nick (ig_mask x)" if "x \<in> set (take i ?L @ drop (i + 1) ?L)" for x
      using that assms(1) by (auto simp: ignore_inv_def list_all_iff dest: in_set_takeD in_set_dropD)
    ultimately show ?thesis using casecmp_lower [OF _ assms(2)] by (auto simp: ignore_index_None)
  qed
  then have "ignore_exists (snd (ignore_del st m None)) m = None"
    by (auto simp: ignore_del_def ignore_exists_def split: option.splits)
  with found ignore_add_inv [OF assms] ignore_del_inv [OF assms(1)] show ?thesis by blast
qed

theorem ignore_add_del_witness:
  "ignore_inv (snd (ignore_add demo_ignores ''Friend!*@*'' 4 False)) \<and>
   ignore_exists (snd (ignore_del demo_ignores ''Friend!*@*'' None)) ''Friend!*@*'' = None"
proof -
  have "ignore_inv demo_ignores" "plain_nick ''Friend!*@*''" by code_simp+
  from ignore_add_del [OF this, of 4 False] show ?thesis by blast
qed

text \<open>C19: Saving the ignore list and loading the file into an empty list gives back, in reverse order, exactly the
  entries that are to be saved, with their masks and types, when the masks are ASCII, at most 995 bytes long,
  and free of line ends and leading spaces; the loading loop terminates.\<close>

theorem ignore_save_load_roundtrip:
  assumes "ncmp_ok ncmp" "ascii_skip skip" "\<forall>ig \<in> set (ignore_list st). entry_ok ig" "ignore_list st0 = []"
  shows "ignore_load ncmp skip (Some (ignore_save st)) st0 =
     Some (st0\<lparr>ignore_list := rev (filter (\<lambda>ig. \<not> has_type (ig_type ig) IG_NOSAVE) (ignore_list st))\<rparr>)"
proof -
  let ?igs = "filter (\<lambda>ig. \<not> has_type (ig_type ig) IG_NOSAVE) (ignore_list st)"
  have ok: "\<forall>ig \<in> set ?igs. entry_ok ig" using assms(3) by simp
  then have ne: "\<forall>x \<in> set (map ignore_entry_text ?igs). x \<noteq> []" by (auto simp: entry_text)
  have "length ?igs \<le> length (ignore_save st)"
    using concat_length_ge [OF ne] by (simp only: ignore_save_def length_map)
  then have "load_loop (length (ignore_save st) + 1) ncmp skip (ignore_save st) [] = Some (rev ?igs)"
    using load_entries [OF assms(1,2) ok, of "[]" "length (ignore_save st) + 1" "[]"] by (simp add: ignore_save_def)
  moreover have "ignore_save st = [] \<Longrightarrow> ?igs = []"
    using ne by (cases ?igs) (auto simp: ignore_save_def)
  ultimately show ?thesis using assms(4) by (auto simp: ignore_load_def)
qed

theorem ignore_save_load_roundtrip_witness:
  "ignore_load (\<lambda>a b n. of_bool (map ascii_lower (take n a) \<noteq> map ascii_lower (take n b))) (\<lambda>c. 1)
     (Some (ignore_save demo_ignores)) ignore_init = Some (ignore_init\<lparr>ignore_list := rev (ignore_list demo_ignores)\<rparr>)"
proof -
  have "\<forall>ig \<in> set (ignore_list demo_ignores). entry_ok ig" by code_simp
  moreover have "filter (\<lambda>ig. \<not> has_type (ig_type ig) IG_NOSAVE) (ignore_list demo_ignores) = ignore_list demo_ignores" by code_simp
  ultimately show ?thesis
    using ignore_save_load_roundtrip [of "\<lambda>a b n. of_bool (map ascii_lower (take n a) \<noteq> map ascii_lower (take n b))" "\<lambda>c. 1" demo_ignores ignore_init]
    by (simp add: ncmp_ok_def ascii_skip_def ignore_init_def)
qed


definition demo_flood :: flood_state where
  "demo_flood = \<lparr>ctcp_counter = 0, ctcp_last_time = 0, msg_counter = 0, msg_last_time = 0, autoopen_dialog = True,
     dialog_timers = 0, flood_text = [], flood_ignore = ignore_init\<rparr>"

definition demo_flood_prefs :: flood_prefs where
  "demo_flood_prefs = \<lparr>flood_ctcp_time = 30, flood_ctcp_num = 3, flood_msg_time = 30, flood_msg_num = 5\<rparr>"


text \<open>The flood protection goes to sleep. Once the configured time has passed since the remembered first CTCP
  without a flood, no later call changes the state or returns 0, however many CTCPs arrive: the remembered time
  is never renewed. And the first private message of a session is counted as a CTCP.\<close>

theorem flood_window_never_reopens:
  assumes "ctcp_last_time st \<noteq> 0" "\<forall>t \<in> set ts. flood_ctcp_time prefs \<le> t - ctcp_last_time st"
  shows "flood_calls prefs st ts nick ip = (replicate (length ts) 1, st) \<and>
     ctcp_counter (snd (flood_check prefs (st\<lparr>msg_last_time := 0\<rparr>) t nick ip 1)) = ctcp_counter st + 1"
  using flood_calls_late [OF assms, of nick ip] by (simp add: flood_check_def)

theorem flood_window_never_reopens_witness:
  "flood_calls demo_flood_prefs (demo_flood\<lparr>ctcp_last_time := 100, ctcp_counter := 1\<rparr>) (replicate 50 131) ''bad'' ''x@evil'' =
     (replicate 50 1, demo_flood\<lparr>ctcp_last_time := 100, ctcp_counter := 1\<rparr>)"
  using flood_window_never_reopens [of "demo_flood\<lparr>ctcp_last_time := 100, ctcp_counter := 1\<rparr>" "replicate 50 131" demo_flood_prefs]
  by (simp add: demo_flood_def demo_flood_prefs_def)

text \<open>\<open>ignore_showlist\<close> builds each line in a buffer of 256 bytes: \<open>g_snprintf\<close> bounds the mask, but the seven
  columns and the line feed are appended without a bound. The line overruns the buffer exactly when the mask has
  more than 217 bytes.\<close>

theorem ignore_showlist_overrun:
  "ignore_line ig = None \<longleftrightarrow> 217 < length (ig_mask ig)"
proof -
  have yn: "length (yes_no b) = 5" for b by (simp add: yes_no_def)
  have "length (pad25 (ig_mask ig)) = max 25 (length (ig_mask ig))" by (simp add: pad25_def)
  then show ?thesis unfolding ignore_line_def Let_def by (simp add: yn) linarith
qed

end
