(* ===== verification/Notify.thy ===== *)
theory Notify
  imports Chat_State
begin

text \<open>
  The friends list of \<open>src/src/common/notify.c\<close>: nicks and accounts that are watched per network, with the
  state of each on each server; its file; the requests sent to servers with MONITOR, WATCH or ISON; the handling of
  their answers; and the passive observation of accounts through the user lists. The pointer to a
  \<open>notify_per_server\<close> is the pair of its positions in \<open>notify_list\<close> and in \<open>server_list\<close>. A server is identified
  by a number. Lines sent, printed events and calls into the front end are logged in order.
\<close>

section \<open>State\<close>

record notify_per_server =
  nps_server :: nat
  laston :: int
  lastseen :: int
  lastoff :: int
  ison :: bool

record notify =
  n_name :: "string option"
  n_account :: "string option"
  n_networks :: "string option"
  server_list :: "notify_per_server list"

datatype notify_event =
    N_Raw nat string
  | N_Whois nat string
  | N_Online nat string
  | N_Offline nat string
  | Fe_Notify_Update "string option"
  | Fe_Friends_Changed
  | N_Print string

record notify_state =
  notify_list :: "notify list"
  serv_list :: "nserver list"
  n_log :: "notify_event list"

text \<open>The preference \<open>notify_whois_online\<close> and the clock.\<close>

record notify_env =
  whois_online :: bool
  now_time :: int

definition n_emit :: "notify_event list \<Rightarrow> notify_state \<Rightarrow> notify_state" where
  "n_emit es st = st\<lparr>n_log := n_log st @ es\<rparr>"

section \<open>Networks and servers of an entry\<close>

definition despacify_dup :: "string \<Rightarrow> string" where
  "despacify_dup str = filter (\<lambda>c. c \<noteq> CHR '' '') str"

definition notify_netcmp :: "nserver \<Rightarrow> string \<Rightarrow> unit \<Rightarrow> int \<times> unit" where
  "notify_netcmp serv str u = (if rfc_casecmp str (despacify_dup (ns_network serv)) = 0 then 0 else 1, u)"

definition notify_do_network :: "notify \<Rightarrow> nserver \<Rightarrow> bool" where
  "notify_do_network n serv =
     (case n_networks n of
        None \<Rightarrow> True
      | Some nets \<Rightarrow> \<not> fst (token_foreach (CHR '','') (notify_netcmp serv) [] nets ()))"

fun server_pos :: "nat \<Rightarrow> notify_per_server list \<Rightarrow> nat option" where
  "server_pos sid [] = None"
| "server_pos sid (x # xs) = (if nps_server x = sid then Some 0 else map_option Suc (server_pos sid xs))"

text \<open>The position of the entry for the server, and the list after a missing one was put in front.\<close>

definition notify_find_server_entry :: "notify \<Rightarrow> nserver \<Rightarrow> nat option \<times> notify" where
  "notify_find_server_entry n serv =
     (case server_pos (ns_id serv) (server_list n) of
        Some j \<Rightarrow> (Some j, n)
      | None \<Rightarrow>
          if \<not> notify_do_network n serv then (None, n)
          else (Some 0, n\<lparr>server_list :=
                 \<lparr>nps_server = ns_id serv, laston = 0, lastseen = 0, lastoff = 0, ison = False\<rparr> # server_list n\<rparr>))"

definition upd_servnot :: "nat \<Rightarrow> (notify_per_server \<Rightarrow> notify_per_server) \<Rightarrow> notify \<Rightarrow> notify" where
  "upd_servnot j f n = n\<lparr>server_list := (server_list n)[j := f (server_list n ! j)]\<rparr>"

definition upd_notify :: "nat \<Rightarrow> (notify \<Rightarrow> notify) \<Rightarrow> notify_state \<Rightarrow> notify_state" where
  "upd_notify i f st = st\<lparr>notify_list := (notify_list st)[i := f (notify_list st ! i)]\<rparr>"

fun notify_find_from :: "nserver \<Rightarrow> string \<Rightarrow> notify list \<Rightarrow> (nat \<times> nat) option \<times> notify list" where
  "notify_find_from serv nick [] = (None, [])"
| "notify_find_from serv nick (n # ns) =
     (let next = (\<lambda>n'. case notify_find_from serv nick ns of (r, ns') \<Rightarrow> (map_option (apfst Suc) r, n' # ns'))
      in case n_name n of
           None \<Rightarrow> next n
         | Some name \<Rightarrow>
             (case notify_find_server_entry n serv of
                (None, n') \<Rightarrow> next n'
              | (Some j, n') \<Rightarrow>
                  if p_cmp (ns_server serv) name nick = 0 then (Some (0, j), n' # ns) else next n'))"

definition notify_find :: "nserver \<Rightarrow> string \<Rightarrow> notify_state \<Rightarrow> (nat \<times> nat) option \<times> notify_state" where
  "notify_find serv nick st =
     (case notify_find_from serv nick (notify_list st) of (r, ns) \<Rightarrow> (r, st\<lparr>notify_list := ns\<rparr>))"

section \<open>Changes of presence\<close>

definition notify_announce_offline ::
    "notify_env \<Rightarrow> nserver \<Rightarrow> nat \<times> nat \<Rightarrow> string \<Rightarrow> bool \<Rightarrow> notify_state \<Rightarrow> notify_state" where
  "notify_announce_offline env serv ij nick quiet st =
     n_emit ((if quiet then [] else [N_Offline (ns_id serv) nick]) @ [Fe_Notify_Update (Some nick), Fe_Notify_Update None])
       (upd_notify (fst ij) (upd_servnot (snd ij) (\<lambda>x. x\<lparr>ison := False, lastoff := now_time env\<rparr>)) st)"

definition servnot_at :: "nat \<times> nat \<Rightarrow> notify_state \<Rightarrow> notify_per_server" where
  "servnot_at ij st = server_list (notify_list st ! fst ij) ! snd ij"

definition notify_announce_online :: "notify_env \<Rightarrow> nserver \<Rightarrow> nat \<times> nat \<Rightarrow> string \<Rightarrow> notify_state \<Rightarrow> notify_state" where
  "notify_announce_online env serv ij nick st =
     (let st1 = upd_notify (fst ij) (upd_servnot (snd ij) (\<lambda>x. x\<lparr>lastseen := now_time env\<rparr>)) st
      in if ison (servnot_at ij st) then st1
         else
           n_emit ([N_Online (ns_id serv) nick, Fe_Notify_Update (Some nick), Fe_Notify_Update None] @
                   (if whois_online env then [N_Whois (ns_id serv) (nick @ '' '' @ nick)] else []))
             (upd_notify (fst ij) (upd_servnot (snd ij) (\<lambda>x. x\<lparr>ison := True, laston := now_time env\<rparr>)) st1))"

definition notify_set_offline :: "notify_env \<Rightarrow> nserver \<Rightarrow> string \<Rightarrow> bool \<Rightarrow> notify_state \<Rightarrow> notify_state" where
  "notify_set_offline env serv nick quiet st =
     (case notify_find serv nick st of
        (None, st1) \<Rightarrow> st1
      | (Some ij, st1) \<Rightarrow> notify_announce_offline env serv ij nick quiet st1)"

definition notify_set_online :: "notify_env \<Rightarrow> nserver \<Rightarrow> string \<Rightarrow> notify_state \<Rightarrow> notify_state" where
  "notify_set_online env serv nick st =
     (case notify_find serv nick st of
        (None, st1) \<Rightarrow> st1
      | (Some ij, st1) \<Rightarrow> notify_announce_online env serv ij nick st1)"

text \<open>The nick of a token of MONITOR's numerics: \<open>strtok\<close> skips empty tokens, the nick ends at \<open>!\<close> and is cut to
  the buffer.\<close>

definition monitor_nick :: "string \<Rightarrow> string" where
  "monitor_nick token = take (nat (NICKLEN - 1)) (takeWhile (\<lambda>c. c \<noteq> CHR ''!'') token)"

definition strtok_all :: "char \<Rightarrow> string \<Rightarrow> string list" where
  "strtok_all sep s = filter (\<lambda>t. t \<noteq> []) (g_strsplit s sep)"

definition notify_set_offline_list :: "notify_env \<Rightarrow> nserver \<Rightarrow> string \<Rightarrow> bool \<Rightarrow> notify_state \<Rightarrow> notify_state" where
  "notify_set_offline_list env serv nicks quiet st =
     fold (\<lambda>t. notify_set_offline env serv (monitor_nick t) quiet) (strtok_all (CHR '','') nicks) st"

definition notify_set_online_list :: "notify_env \<Rightarrow> nserver \<Rightarrow> string \<Rightarrow> notify_state \<Rightarrow> notify_state" where
  "notify_set_online_list env serv nicks st =
     fold (\<lambda>t. notify_set_online env serv (monitor_nick t)) (strtok_all (CHR '','') nicks) st"

section \<open>Requests\<close>

definition notify_watch :: "nserver \<Rightarrow> string \<Rightarrow> bool \<Rightarrow> notify_state \<Rightarrow> notify_state" where
  "notify_watch serv nick add st =
     (let addchar = (if add then CHR ''+'' else CHR ''-'')
      in if supports_monitor (ns_server serv)
         then n_emit [N_Raw (ns_id serv) (take 255 (''MONITOR '' @ [addchar] @ '' '' @ nick))] st
         else if supports_watch (ns_server serv)
         then n_emit [N_Raw (ns_id serv) (take 255 (''WATCH '' @ [addchar] @ nick))] st
         else st)"

definition notify_watch_all :: "notify \<Rightarrow> bool \<Rightarrow> notify_state \<Rightarrow> notify_state" where
  "notify_watch_all n add st =
     (case n_name n of
        None \<Rightarrow> st
      | Some name \<Rightarrow>
          fold (\<lambda>serv st. if ns_connected serv \<and> end_of_motd (ns_server serv) \<and> notify_do_network n serv
                          then notify_watch serv name add st else st) (serv_list st) st)"

text \<open>\<open>g_strlcat\<close> into a buffer of \<open>n\<close> bytes.\<close>

definition g_strlcat :: "nat \<Rightarrow> string \<Rightarrow> string \<Rightarrow> string" where
  "g_strlcat n dest src = (if length dest < n then take (n - 1) (dest @ src) else dest)"

definition notify_flush_watches :: "nserver \<Rightarrow> string list \<Rightarrow> notify_state \<Rightarrow> notify_state" where
  "notify_flush_watches serv names st =
     (let mon = supports_monitor (ns_server serv);
          tbuf = fold (\<lambda>name b. g_strlcat 512 (g_strlcat 512 b (if mon then '','' else '' +'')) name) names
                   (if mon then ''MONITOR + '' else ''WATCH'')
      in n_emit [N_Raw (ns_id serv) tbuf] st)"

text \<open>The loop that cuts the names into batches; \<open>point\<close> are the names since the last batch, last first.\<close>

fun send_watches_loop :: "nserver \<Rightarrow> int \<Rightarrow> string list \<Rightarrow> string list \<Rightarrow> notify_state \<Rightarrow> notify_state" where
  "send_watches_loop serv len point [] st =
     (if len \<noteq> 0 then notify_flush_watches serv (rev point) st else st)"
| "send_watches_loop serv len point (name # names) st =
     (let w = int (length name) + (if supports_monitor (ns_server serv) then 1 else 2)
      in if len + w > 500
         then send_watches_loop serv w [name] names (notify_flush_watches serv (rev point) st)
         else send_watches_loop serv (len + w) (name # point) names st)"

definition watched_names :: "nserver \<Rightarrow> notify list \<Rightarrow> string list" where
  "watched_names serv ns =
     map (\<lambda>n. the (n_name n)) (filter (\<lambda>n. n_name n \<noteq> None \<and> notify_do_network n serv) ns)"

definition notify_send_watches :: "nserver \<Rightarrow> notify_state \<Rightarrow> notify_state" where
  "notify_send_watches serv st = send_watches_loop serv 0 [] (watched_names serv (notify_list st)) st"

text \<open>One entry of \<open>notify_markonline\<close>: \<open>words\<close> are the nicks of numeric 303.\<close>

definition mark_entry :: "notify_env \<Rightarrow> nserver \<Rightarrow> string list \<Rightarrow> nat \<Rightarrow> notify_state \<Rightarrow> notify_state" where
  "mark_entry env serv words i st =
     (let n = notify_list st ! i
      in case n_name n of
           None \<Rightarrow> st
         | Some name \<Rightarrow>
             (case notify_find_server_entry n serv of
                (None, n') \<Rightarrow> upd_notify i (\<lambda>_. n') st
              | (Some j, n') \<Rightarrow>
                  (let st1 = upd_notify i (\<lambda>_. n') st
                   in if list_ex (\<lambda>w. p_cmp (ns_server serv) name w = 0) words
                      then notify_announce_online env serv (i, j) name st1
                      else if ison (servnot_at (i, j) st1)
                      then notify_announce_offline env serv (i, j) name False st1
                      else st1)))"

text \<open>The scan of \<open>word[4]\<close>, \<open>word[5]\<close>, \dots stops at an empty word and behind \<open>word[PDIWORDS - 5]\<close>.\<close>

definition ison_words :: "string list \<Rightarrow> string list" where
  "ison_words word = takeWhile (\<lambda>w. w \<noteq> []) (take (PDIWORDS - 8) (drop 4 word))"

definition notify_markonline :: "notify_env \<Rightarrow> nserver \<Rightarrow> string list \<Rightarrow> notify_state \<Rightarrow> notify_state" where
  "notify_markonline env serv word st =
     n_emit [Fe_Notify_Update None]
       (fold (mark_entry env serv (ison_words word)) [0..<length (notify_list st)] st)"

text \<open>The ISON line: \<open>outbuf\<close> has 512 bytes and \<open>strcat\<close> does not check; the length is looked at after a name was
  appended. The first component says whether there is a name at all.\<close>

fun ison_loop :: "string \<Rightarrow> bool \<Rightarrow> string list \<Rightarrow> (bool \<times> string) option" where
  "ison_loop outbuf some [] = Some (some, outbuf)"
| "ison_loop outbuf some (name # names) =
     (let b = outbuf @ name @ '' ''
      in if 512 \<le> length b then None
         else if length b > 460 then Some (True, b)
         else ison_loop b True names)"

definition notify_checklist_for_server :: "nserver \<Rightarrow> notify_state \<Rightarrow> notify_state option" where
  "notify_checklist_for_server serv st =
     do {
       (i, outbuf) \<leftarrow> ison_loop ''ISON '' False (watched_names serv (notify_list st));
       Some (if i then n_emit [N_Raw (ns_id serv) outbuf] st else st)
     }"

fun checklist_from :: "nserver list \<Rightarrow> notify_state \<Rightarrow> notify_state option" where
  "checklist_from [] st = Some st"
| "checklist_from (serv # servs) st =
     (if ns_connected serv \<and> end_of_motd (ns_server serv) \<and> \<not> supports_watch (ns_server serv) \<and>
         \<not> supports_monitor (ns_server serv)
      then do { st1 \<leftarrow> notify_checklist_for_server serv st; checklist_from servs st1 }
      else checklist_from servs st)"

definition notify_checklist :: "notify_state \<Rightarrow> notify_state option" where
  "notify_checklist st = checklist_from (serv_list st) st"

section \<open>The list\<close>

definition pad20 :: "string \<Rightarrow> string" where
  "pad20 s = s @ replicate (20 - length s) (CHR '' '')"

definition show_entry :: "nserver \<Rightarrow> nat \<Rightarrow> notify_state \<Rightarrow> notify_state" where
  "show_entry serv i st =
     (let n = notify_list st ! i
      in case (case n_name n of Some m \<Rightarrow> Some m | None \<Rightarrow> n_account n) of
           None \<Rightarrow> st
         | Some display \<Rightarrow>
             (case notify_find_server_entry n serv of
                (r, n') \<Rightarrow>
                  (let st1 = upd_notify i (\<lambda>_. n') st;
                       on = (case r of None \<Rightarrow> False | Some j \<Rightarrow> ison (servnot_at (i, j) st1))
                   in n_emit [N_Print (take 255 (''  '' @ pad20 display @ (if on then '' online'' else '' offline'') @ [CHR 0x0A]))] st1)))"

definition notify_showlist :: "nserver \<Rightarrow> notify_state \<Rightarrow> notify_state" where
  "notify_showlist serv st =
     (let len = length (notify_list st);
          st1 = fold (show_entry serv) [0..<len] (n_emit [N_Print ''XP_TE_NOTIFYHEAD''] st)
      in if 0 < len then n_emit [N_Print (''XP_TE_NOTIFYNUMBER '' @ dec_string len)] st1
         else n_emit [N_Print ''XP_TE_NOTIFYEMPTY''] st1)"

text \<open>Does the identifier select the entry, by nick or by account?\<close>

definition del_match :: "string \<Rightarrow> notify \<Rightarrow> bool" where
  "del_match name n \<longleftrightarrow>
     (case n_name n of Some m \<Rightarrow> rfc_casecmp m name = 0 | None \<Rightarrow> False) \<or> n_account n = Some name"

fun del_pos :: "string \<Rightarrow> notify list \<Rightarrow> nat option" where
  "del_pos name [] = None"
| "del_pos name (n # ns) = (if del_match name n then Some 0 else map_option Suc (del_pos name ns))"

definition notify_deluser :: "string \<Rightarrow> notify_state \<Rightarrow> bool \<times> notify_state" where
  "notify_deluser name st =
     (case del_pos name (notify_list st) of
        None \<Rightarrow> (False, st)
      | Some i \<Rightarrow>
          (let n = notify_list st ! i;
               st1 = n_emit [Fe_Notify_Update (n_name n)] st;
               st2 = st1\<lparr>notify_list := take i (notify_list st1) @ drop (i + 1) (notify_list st1)\<rparr>
           in (True, n_emit [Fe_Notify_Update None, Fe_Friends_Changed] (notify_watch_all (n\<lparr>server_list := []\<rparr>) False st2))))"

definition nonempty :: "string option \<Rightarrow> string option" where
  "nonempty s = (case s of None \<Rightarrow> None | Some t \<Rightarrow> if t = [] then None else Some t)"

definition new_notify :: "string option \<Rightarrow> string option \<Rightarrow> string option \<Rightarrow> notify" where
  "new_notify name account networks =
     \<lparr>n_name = map_option (take (nat (NICKLEN - 1))) (nonempty name), n_account = nonempty account,
      n_networks = map_option despacify_dup networks, server_list = []\<rparr>"

definition notify_adduser ::
    "string option \<Rightarrow> string option \<Rightarrow> string option \<Rightarrow> notify_state \<Rightarrow> notify_state option" where
  "notify_adduser name account networks st =
     (let n = new_notify name account networks
      in do {
           st1 \<leftarrow> notify_checklist (st\<lparr>notify_list := n # notify_list st\<rparr>);
           let st2 = n_emit [Fe_Notify_Update (n_name n), Fe_Notify_Update None, Fe_Friends_Changed] st1;
           Some (notify_watch_all n True st2)
         })"

section \<open>Accounts seen on the server\<close>

text \<open>The callback of \<open>tree_foreach\<close>: the probe is cleared and the walk stops when a user has the account. A user that is not
  allocated is undefined behaviour, the outer \<open>None\<close>.\<close>

definition notify_user_has_account_cb ::
    "(addr \<rightharpoonup> user) \<Rightarrow> addr \<Rightarrow> string option option \<Rightarrow> bool \<times> string option option" where
  "notify_user_has_account_cb heap key data =
     (case data of
        None \<Rightarrow> (False, None)
      | Some target \<Rightarrow>
          (case heap key of
             None \<Rightarrow> (False, None)
           | Some u \<Rightarrow>
               if u_account u \<noteq> None \<and> target \<noteq> None \<and> u_account u = target then (False, Some None)
               else (True, Some target)))"

text \<open>\<open>sess_list\<close> with the number of each session's server.\<close>

fun account_probe :: "nserver \<Rightarrow> (nat \<times> session) list \<Rightarrow> string option \<Rightarrow> string option option" where
  "account_probe serv [] probe = Some probe"
| "account_probe serv ((sid, s) # ss) probe =
     (if probe = None then Some None
      else if sid \<noteq> ns_id serv then account_probe serv ss probe
      else
        (case usertree s of
           None \<Rightarrow> account_probe serv ss probe
         | Some t \<Rightarrow>
             do {
               d \<leftarrow> tree_foreach (notify_user_has_account_cb (users s)) t (Some probe);
               probe' \<leftarrow> d;
               account_probe serv ss probe'
             }))"

definition notify_account_still_present :: "nserver \<Rightarrow> (nat \<times> session) list \<Rightarrow> string \<Rightarrow> bool option" where
  "notify_account_still_present serv ss account =
     map_option (\<lambda>probe. probe = None) (account_probe serv ss (Some account))"

definition no_account :: "string option \<Rightarrow> bool" where
  "no_account account \<longleftrightarrow> account \<in> {None, Some [], Some ''*'', Some ''0''}"

definition cleared_entry :: "notify_env \<Rightarrow> nserver \<Rightarrow> string \<Rightarrow> nat \<Rightarrow> notify_state \<Rightarrow> notify_state" where
  "cleared_entry env serv account i st =
     (let n = notify_list st ! i
      in if n_account n \<noteq> Some account then st
         else
           (case notify_find_server_entry n serv of
              (r, n') \<Rightarrow>
                (let st1 = upd_notify i (\<lambda>_. n') st
                 in case r of
                      None \<Rightarrow> st1
                    | Some j \<Rightarrow>
                        if ison (servnot_at (i, j) st1)
                        then notify_announce_offline env serv (i, j) (case n_name n of Some m \<Rightarrow> m | None \<Rightarrow> account) False st1
                        else st1)))"

definition has_account :: "string \<Rightarrow> notify_state \<Rightarrow> bool" where
  "has_account account st = list_ex (\<lambda>n. n_account n = Some account) (notify_list st)"

definition notify_account_cleared ::
    "notify_env \<Rightarrow> nserver \<Rightarrow> (nat \<times> session) list \<Rightarrow> string option \<Rightarrow> notify_state \<Rightarrow> notify_state option" where
  "notify_account_cleared env serv ss was_account st =
     (if no_account was_account then Some st
      else
        do {
          present \<leftarrow> notify_account_still_present serv ss (the was_account);
          if present then Some st
          else
            (let st1 = fold (cleared_entry env serv (the was_account)) [0..<length (notify_list st)] st
             in Some (if has_account (the was_account) st then n_emit [Fe_Friends_Changed] st1 else st1))
        })"

definition observed_entry :: "notify_env \<Rightarrow> nserver \<Rightarrow> string option \<Rightarrow> string \<Rightarrow> nat \<Rightarrow> notify_state \<Rightarrow> notify_state" where
  "observed_entry env serv nick account i st =
     (let n = notify_list st ! i
      in if n_account n \<noteq> Some account then st
         else
           (case notify_find_server_entry n serv of
              (r, n') \<Rightarrow>
                (let st1 = upd_notify i (\<lambda>_. n') st
                 in case r of
                      None \<Rightarrow> st1
                    | Some j \<Rightarrow>
                        notify_announce_online env serv (i, j) (case nonempty nick of Some m \<Rightarrow> m | None \<Rightarrow> account) st1)))"

definition notify_account_observed ::
    "notify_env \<Rightarrow> nserver \<Rightarrow> string option \<Rightarrow> string option \<Rightarrow> notify_state \<Rightarrow> notify_state" where
  "notify_account_observed env serv nick account st =
     (if no_account account then st
      else
        (let st1 = fold (observed_entry env serv nick (the account)) [0..<length (notify_list st)] st
         in if has_account (the account) st then n_emit [Fe_Friends_Changed] st1 else st1))"

definition notify_is_in_list :: "nserver \<Rightarrow> string option \<Rightarrow> string option \<Rightarrow> notify_state \<Rightarrow> bool" where
  "notify_is_in_list serv name account st =
     list_ex (\<lambda>n. (name \<noteq> None \<and> n_name n \<noteq> None \<and> p_cmp (ns_server serv) (the (n_name n)) (the name) = 0) \<or>
                  (account \<noteq> None \<and> n_account n = account)) (notify_list st)"

fun isnotify_from :: "nserver \<Rightarrow> string \<Rightarrow> notify list \<Rightarrow> bool \<times> notify list" where
  "isnotify_from serv name [] = (False, [])"
| "isnotify_from serv name (n # ns) =
     (if n_name n \<noteq> None \<and> p_cmp (ns_server serv) (the (n_name n)) name = 0 then
        (case notify_find_server_entry n serv of
           (r, n') \<Rightarrow>
             if (case r of None \<Rightarrow> False | Some j \<Rightarrow> ison (server_list n' ! j)) then (True, n' # ns)
             else (case isnotify_from serv name ns of (b, ns') \<Rightarrow> (b, n' # ns')))
      else (case isnotify_from serv name ns of (b, ns') \<Rightarrow> (b, n # ns')))"

definition notify_isnotify :: "nserver \<Rightarrow> string \<Rightarrow> notify_state \<Rightarrow> bool \<times> notify_state" where
  "notify_isnotify serv name st =
     (case isnotify_from serv name (notify_list st) of (b, ns) \<Rightarrow> (b, st\<lparr>notify_list := ns\<rparr>))"

text \<open>\<open>notify_cleanup\<close> drops the states of servers that are gone or not connected.\<close>

definition server_valid :: "nserver list \<Rightarrow> notify_per_server \<Rightarrow> bool" where
  "server_valid servs x =
     (case find (\<lambda>serv. ns_id serv = nps_server x) servs of None \<Rightarrow> False | Some serv \<Rightarrow> ns_connected serv)"

definition notify_cleanup :: "notify_state \<Rightarrow> notify_state" where
  "notify_cleanup st =
     n_emit [Fe_Notify_Update None]
       (st\<lparr>notify_list := map (\<lambda>n. n\<lparr>server_list := filter (server_valid (serv_list st)) (server_list n)\<rparr>) (notify_list st)\<rparr>)"

section \<open>The file\<close>

definition opt :: "string option \<Rightarrow> string" where
  "opt s = (case s of None \<Rightarrow> [] | Some t \<Rightarrow> t)"

definition notify_line :: "notify \<Rightarrow> string" where
  "notify_line n =
     opt (n_name n) @
     (case n_account n of
        None \<Rightarrow> []
      | Some a \<Rightarrow> (if n_name n \<noteq> None then '' '' else []) @ ''account='' @ a) @
     (case n_networks n of
        None \<Rightarrow> []
      | Some nets \<Rightarrow> '' '' @ (if n_account n \<noteq> None then ''networks='' else []) @ nets) @
     [CHR 0x0A]"

text \<open>The text written to \<open>notify.conf\<close>.\<close>

definition notify_save :: "notify_state \<Rightarrow> string" where
  "notify_save st = concat (map notify_line (rev (notify_list st)))"

definition is_blank :: "char \<Rightarrow> bool" where
  "is_blank c \<longleftrightarrow> c = CHR '' '' \<or> c = CHR 0x09"

definition rstrip_cr :: "string \<Rightarrow> string" where
  "rstrip_cr s = (if s \<noteq> [] \<and> last s = CHR 0x0D then butlast s else s)"

text \<open>A word and what follows the blanks behind it; \<open>None\<close> when there is no blank.\<close>

definition split_word :: "string \<Rightarrow> string \<times> string option" where
  "split_word s =
     (let w = takeWhile (\<lambda>c. \<not> is_blank c) s; r = dropWhile (\<lambda>c. \<not> is_blank c) s
      in (w, if r = [] then None else Some (dropWhile is_blank r)))"

definition strip_key :: "string \<Rightarrow> string option \<Rightarrow> string option" where
  "strip_key key s =
     (case s of None \<Rightarrow> None | Some t \<Rightarrow> if take (length key) t = key then Some (drop (length key) t) else None)"

text \<open>The fields of a line: name, account, networks.\<close>

definition notify_line_fields :: "string \<Rightarrow> string option \<times> string option \<times> string option" where
  "notify_line_fields line0 =
     (let line = rstrip_cr line0
      in case strip_key ''account='' (Some line) of
           Some rest \<Rightarrow>
             (case split_word rest of (account, tail) \<Rightarrow> (None, Some account, strip_key ''networks='' tail))
         | None \<Rightarrow>
             (case split_word line of
                (name, None) \<Rightarrow> (Some name, None, None)
              | (name, Some tail) \<Rightarrow>
                  (case strip_key ''account='' (Some tail) of
                     Some rest \<Rightarrow>
                       (case split_word rest of
                          (account, tail2) \<Rightarrow> (Some name, Some account, strip_key ''networks='' tail2))
                   | None \<Rightarrow> (Some name, None, if tail \<noteq> [] then Some tail else None))))"

definition notify_load_line :: "string \<Rightarrow> notify_state \<Rightarrow> notify_state option" where
  "notify_load_line line st =
     (case notify_line_fields line of
        (name, account, networks) \<Rightarrow>
          if nonempty name \<noteq> None \<or> nonempty account \<noteq> None
          then notify_adduser name account networks st else Some st)"

text \<open>The bytes of the file are read one by one; \<open>buf\<close> holds the line so far, last byte first.\<close>

definition load_buf :: "string \<Rightarrow> notify_state \<Rightarrow> notify_state option" where
  "load_buf buf st =
     (let line = c_str (rev buf)
      in if chd line \<noteq> CHR ''#'' \<and> chd line \<noteq> NUL then notify_load_line line st else Some st)"

fun notify_load_from :: "string \<Rightarrow> bool \<Rightarrow> string \<Rightarrow> notify_state \<Rightarrow> notify_state option" where
  "notify_load_from buf discard [] st = (if \<not> discard \<and> buf \<noteq> [] then load_buf buf st else Some st)"
| "notify_load_from buf discard (c # file) st =
     (if discard then notify_load_from [] (c \<noteq> CHR 0x0A) file st
      else if c = CHR 0x0A \<or> 256 \<le> length buf + 1
      then do { st1 \<leftarrow> load_buf buf st; notify_load_from [] (c \<noteq> CHR 0x0A) file st1 }
      else notify_load_from (c # buf) False file st)"

definition notify_load :: "string \<Rightarrow> notify_state \<Rightarrow> notify_state option" where
  "notify_load file st = notify_load_from [] False file st"

section \<open>Presence of an entry on a server\<close>

definition online :: "nat \<Rightarrow> notify \<Rightarrow> bool" where
  "online sid n = (case server_pos sid (server_list n) of None \<Rightarrow> False | Some j \<Rightarrow> ison (server_list n ! j))"

text \<open>Does the entry take part on the server, by its networks or by a state that is already there?\<close>

definition tracked :: "nserver \<Rightarrow> notify \<Rightarrow> bool" where
  "tracked serv n \<longleftrightarrow> notify_do_network n serv \<or> server_pos (ns_id serv) (server_list n) \<noteq> None"

text \<open>One state per server, and identifiers that fit.\<close>

definition entry_inv :: "notify \<Rightarrow> bool" where
  "entry_inv n \<longleftrightarrow> distinct (map nps_server (server_list n)) \<and> (n_name n \<noteq> None \<or> n_account n \<noteq> None) \<and>
     (\<forall>m. n_name n = Some m \<longrightarrow> m \<noteq> [] \<and> int (length m) < NICKLEN) \<and> n_account n \<noteq> Some []"

lemma server_pos_Some: "server_pos sid xs = Some j \<Longrightarrow> j < length xs \<and> nps_server (xs ! j) = sid"
  by (induction xs arbitrary: j) (auto split: if_splits)

lemma server_pos_None: "server_pos sid xs = None \<longleftrightarrow> sid \<notin> nps_server ` set xs"
  by (induction xs) auto

lemma server_pos_update:
  "\<forall>x. nps_server (f x) = nps_server x \<Longrightarrow> j < length xs \<Longrightarrow> server_pos sid (xs[j := f (xs ! j)]) = server_pos sid xs"
  by (induction xs arbitrary: j) (auto split: nat.splits)

text \<open>Looking an entry's state up may create it; nothing else changes.\<close>

lemma find_entry_cases:
  obtains (found) j n' where "notify_find_server_entry n serv = (Some j, n')" "tracked serv n"
      "server_pos (ns_id serv) (server_list n') = Some j" "online (ns_id serv) n' = online (ns_id serv) n"
      "\<And>sid. sid \<noteq> ns_id serv \<Longrightarrow> online sid n' = online sid n"
      "n_name n' = n_name n" "n_account n' = n_account n" "n_networks n' = n_networks n" "entry_inv n \<Longrightarrow> entry_inv n'"
  | (untracked) "notify_find_server_entry n serv = (None, n)" "\<not> tracked serv n"
proof (cases "server_pos (ns_id serv) (server_list n)")
  case None
  show ?thesis
  proof (cases "notify_do_network n serv")
    case True
    show ?thesis
      by (rule found [of 0 "n\<lparr>server_list :=
             \<lparr>nps_server = ns_id serv, laston = 0, lastseen = 0, lastoff = 0, ison = False\<rparr> # server_list n\<rparr>"])
         (use None None [unfolded server_pos_None] True in
            \<open>auto simp: notify_find_server_entry_def tracked_def online_def entry_inv_def split: option.splits\<close>)
  next
    case False
    then show ?thesis using None by (intro untracked) (auto simp: notify_find_server_entry_def tracked_def)
  qed
next
  case (Some j)
  then show ?thesis by (intro found [of j n]) (auto simp: notify_find_server_entry_def tracked_def)
qed

lemma online_upd_servnot:
  assumes "server_pos sid (server_list n) = Some j" "\<forall>x. nps_server (f x) = nps_server x"
  shows "online sid (upd_servnot j f n) = ison (f (server_list n ! j))"
    "sid' \<noteq> sid \<Longrightarrow> online sid' (upd_servnot j f n) = online sid' n"
    "server_pos sid' (server_list (upd_servnot j f n)) = server_pos sid' (server_list n)"
    "entry_inv (upd_servnot j f n) = entry_inv n"
proof -
  have j: "j < length (server_list n)" "nps_server (server_list n ! j) = sid" using server_pos_Some [OF assms(1)] by auto
  show p: "server_pos sid' (server_list (upd_servnot j f n)) = server_pos sid' (server_list n)" for sid'
    using server_pos_update [OF assms(2) j(1)] by (simp add: upd_servnot_def)
  show "online sid (upd_servnot j f n) = ison (f (server_list n ! j))"
    using assms(1) p [of sid] j by (simp add: online_def upd_servnot_def)
  show "online sid' (upd_servnot j f n) = online sid' n" if "sid' \<noteq> sid"
  proof (cases "server_pos sid' (server_list n)")
    case (Some k)
    then have "k \<noteq> j" using server_pos_Some [OF Some] that j by auto
    then have "(server_list n)[j := f (server_list n ! j)] ! k = server_list n ! k" by simp
    then show ?thesis using p [of sid'] Some unfolding online_def by (simp add: upd_servnot_def)
  qed (use p [of sid'] in \<open>simp add: online_def\<close>)
  have "map nps_server ((server_list n)[j := f (server_list n ! j)]) = map nps_server (server_list n)"
    using j assms(2) by (simp add: map_update list_update_same_conv)
  then show "entry_inv (upd_servnot j f n) = entry_inv n" by (simp add: entry_inv_def upd_servnot_def)
qed

lemma upd_servnot_sel [simp]:
  "n_name (upd_servnot j f n) = n_name n" "n_account (upd_servnot j f n) = n_account n" "n_networks (upd_servnot j f n) = n_networks n"
  by (simp_all add: upd_servnot_def)

lemma n_emit_sel [simp]:
  "notify_list (n_emit es st) = notify_list st" "serv_list (n_emit es st) = serv_list st" "n_log (n_emit es st) = n_log st @ es"
  by (simp_all add: n_emit_def)

lemma upd_notify_sel [simp]:
  "serv_list (upd_notify i f st) = serv_list st" "n_log (upd_notify i f st) = n_log st"
  "notify_list (upd_notify i f st) = (notify_list st)[i := f (notify_list st ! i)]"
  by (simp_all add: upd_notify_def)

text \<open>Announcements set the presence of one entry on one server.\<close>

definition presence_set :: "nat \<Rightarrow> bool \<Rightarrow> notify \<Rightarrow> notify \<Rightarrow> bool" where
  "presence_set sid b n n' \<longleftrightarrow>
     online sid n' = b \<and> (\<forall>sid'. sid' \<noteq> sid \<longrightarrow> online sid' n' = online sid' n) \<and>
     n_name n' = n_name n \<and> n_account n' = n_account n \<and> n_networks n' = n_networks n \<and> (entry_inv n \<longrightarrow> entry_inv n')"

lemma announce_offline_list:
  assumes "i < length (notify_list st)" "server_pos (ns_id serv) (server_list (notify_list st ! i)) = Some j"
  shows "\<exists>n'. notify_list (notify_announce_offline env serv (i, j) nick quiet st) = (notify_list st)[i := n'] \<and>
     presence_set (ns_id serv) False (notify_list st ! i) n'"
  using online_upd_servnot [OF assms(2), of "\<lambda>x. x\<lparr>ison := False, lastoff := now_time env\<rparr>"]
  by (intro exI [of _ "upd_servnot j (\<lambda>x. x\<lparr>ison := False, lastoff := now_time env\<rparr>) (notify_list st ! i)"])
     (simp add: notify_announce_offline_def presence_set_def)

lemma announce_online_list:
  assumes "i < length (notify_list st)" "server_pos (ns_id serv) (server_list (notify_list st ! i)) = Some j"
  shows "\<exists>n'. notify_list (notify_announce_online env serv (i, j) nick st) = (notify_list st)[i := n'] \<and>
     presence_set (ns_id serv) True (notify_list st ! i) n'"
proof -
  let ?n = "notify_list st ! i"
  let ?n1 = "upd_servnot j (\<lambda>x. x\<lparr>lastseen := now_time env\<rparr>) ?n"
  let ?n2 = "upd_servnot j (\<lambda>x. x\<lparr>ison := True, laston := now_time env\<rparr>) ?n1"
  note 1 = online_upd_servnot [OF assms(2), of "\<lambda>x. x\<lparr>lastseen := now_time env\<rparr>"]
  have p1: "server_pos (ns_id serv) (server_list ?n1) = Some j" using 1 assms(2) by simp
  note 2 = online_upd_servnot [OF p1, of "\<lambda>x. x\<lparr>ison := True, laston := now_time env\<rparr>"]
  show ?thesis
  proof (cases "ison (server_list ?n ! j)")
    case True
    then show ?thesis using 1 assms
      by (intro exI [of _ ?n1]) (simp add: notify_announce_online_def servnot_at_def presence_set_def)
  next
    case False
    then show ?thesis using 1 2 assms
      by (intro exI [of _ ?n2]) (simp add: notify_announce_online_def servnot_at_def presence_set_def Let_def)
  qed
qed

section \<open>Loops over the list\<close>

lemma fold_entries_upto:
  assumes "\<And>i st. i < length (notify_list st) \<Longrightarrow>
      \<exists>n'. notify_list (f i st) = (notify_list st)[i := n'] \<and> R (notify_list st ! i) n'"
    and "k \<le> length (notify_list st)"
  shows "length (notify_list (fold f [0..<k] st)) = length (notify_list st) \<and>
     (\<forall>i < length (notify_list st). if i < k then R (notify_list st ! i) (notify_list (fold f [0..<k] st) ! i)
        else notify_list (fold f [0..<k] st) ! i = notify_list st ! i)"
  using assms(2)
proof (induction k)
  case (Suc k)
  let ?st = "fold f [0..<k] st"
  have IH: "length (notify_list ?st) = length (notify_list st)"
    "\<forall>i < length (notify_list st). if i < k then R (notify_list st ! i) (notify_list ?st ! i)
        else notify_list ?st ! i = notify_list st ! i" using Suc by auto
  obtain n' where n': "notify_list (f k ?st) = (notify_list ?st)[k := n']" "R (notify_list ?st ! k) n'"
    using assms(1) [of k ?st] IH(1) Suc.prems by auto
  have "notify_list ?st ! k = notify_list st ! k" using IH(2) Suc.prems by auto
  then show ?case using n' IH Suc.prems by (auto simp: nth_list_update less_Suc_eq)
qed simp

lemma fold_entries:
  assumes "\<And>i st. i < length (notify_list st) \<Longrightarrow>
      \<exists>n'. notify_list (f i st) = (notify_list st)[i := n'] \<and> R (notify_list st ! i) n'"
  shows "list_all2 R (notify_list st) (notify_list (fold f [0..<length (notify_list st)] st))"
  using fold_entries_upto [of f R "length (notify_list st)" st, OF assms] by (simp add: list_all2_conv_all_nth)

text \<open>What a step that looks at one entry does to it: it is left alone unless \<open>sel\<close> selects it and the
  server tracks it; then its presence there becomes \<open>b\<close>.\<close>

definition entry_step :: "nserver \<Rightarrow> bool \<Rightarrow> bool \<Rightarrow> notify \<Rightarrow> notify \<Rightarrow> bool" where
  "entry_step serv sel b n n' \<longleftrightarrow> (if sel \<and> tracked serv n then presence_set (ns_id serv) b n n' else n' = n)"

lemma presence_set_trans:
  "presence_set sid b n n' \<Longrightarrow> presence_set sid c n' n'' \<Longrightarrow> presence_set sid c n n''"
  by (auto simp: presence_set_def)

lemma list_update_id_at: "i < length xs \<Longrightarrow> \<exists>n'. xs = xs[i := n'] \<and> n' = xs ! i"
  by (intro exI [of _ "xs ! i"]) simp

text \<open>All entry steps look the state up and then leave it, announce online or announce offline.\<close>

lemma entry_step_found:
  assumes i: "i < length (notify_list st)" and f: "notify_find_server_entry (notify_list st ! i) serv = (Some j, n1)"
    and st1: "st1 = upd_notify i (\<lambda>_. n1) st"
    and r: "r = notify_announce_online env serv (i, j) nick st1 \<and> b \<or>
      r = notify_announce_offline env serv (i, j) nick quiet st1 \<and> \<not> b \<or>
      r = st1 \<and> b = ison (servnot_at (i, j) st1)"
  shows "\<exists>n'. notify_list r = (notify_list st)[i := n'] \<and> entry_step serv True b (notify_list st ! i) n'"
proof (rule find_entry_cases [of "notify_list st ! i" serv])
  fix j' n'
  assume g: "notify_find_server_entry (notify_list st ! i) serv = (Some j', n')" "tracked serv (notify_list st ! i)"
    "server_pos (ns_id serv) (server_list n') = Some j'" "online (ns_id serv) n' = online (ns_id serv) (notify_list st ! i)"
    "\<And>sid. sid \<noteq> ns_id serv \<Longrightarrow> online sid n' = online sid (notify_list st ! i)"
    "n_name n' = n_name (notify_list st ! i)" "n_account n' = n_account (notify_list st ! i)"
    "n_networks n' = n_networks (notify_list st ! i)" "entry_inv (notify_list st ! i) \<Longrightarrow> entry_inv n'"
  have e: "j' = j" "n' = n1" using f g(1) by auto
  have st1n: "notify_list st1 = (notify_list st)[i := n1]" "notify_list st1 ! i = n1" using i st1 by simp_all
  have p: "presence_set (ns_id serv) (ison (servnot_at (i, j) st1)) (notify_list st ! i) n1"
    using g(3-) e st1n by (auto simp: presence_set_def servnot_at_def online_def)
  have pos: "i < length (notify_list st1)" "server_pos (ns_id serv) (server_list (notify_list st1 ! i)) = Some j"
    using i st1n g(3) e by auto
  obtain m where "notify_list r = (notify_list st1)[i := m]" "presence_set (ns_id serv) b n1 m"
  proof -
    from r consider "r = notify_announce_online env serv (i, j) nick st1" b
      | "r = notify_announce_offline env serv (i, j) nick quiet st1" "\<not> b"
      | "r = st1" "b = ison (servnot_at (i, j) st1)" by blast
    then show ?thesis
    proof cases
      case 1
      then show ?thesis using announce_online_list [OF pos, of env nick] st1n that by auto
    next
      case 2
      then show ?thesis using announce_offline_list [OF pos, of env nick quiet] st1n that by auto
    next
      case 3
      have "presence_set (ns_id serv) b n1 n1" using 3 pos st1n by (simp add: presence_set_def online_def servnot_at_def)
      then show ?thesis using 3 st1n that [of n1] by simp
    qed
  qed
  then show ?thesis using st1n presence_set_trans [OF p] g(2) by (auto simp: entry_step_def)
next
  assume "notify_find_server_entry (notify_list st ! i) serv = (None, notify_list st ! i)"
  then show ?thesis using f by simp
qed

lemma entry_step_untracked:
  assumes "i < length (notify_list st)" "notify_find_server_entry (notify_list st ! i) serv = (None, n1)"
  shows "\<exists>n'. notify_list (upd_notify i (\<lambda>_. n1) st) = (notify_list st)[i := n'] \<and> entry_step serv sel b (notify_list st ! i) n'"
  by (rule find_entry_cases [of "notify_list st ! i" serv]) (use assms in \<open>auto simp: entry_step_def\<close>)

lemma entry_step_skip:
  "i < length (notify_list st) \<Longrightarrow> \<exists>n'. notify_list st = (notify_list st)[i := n'] \<and> entry_step serv False b (notify_list st ! i) n'"
  by (intro exI [of _ "notify_list st ! i"]) (simp add: entry_step_def)

lemma mark_entry_step:
  assumes "i < length (notify_list st)"
  shows "\<exists>n'. notify_list (mark_entry env serv words i st) = (notify_list st)[i := n'] \<and>
     entry_step serv (n_name (notify_list st ! i) \<noteq> None)
       (list_ex (\<lambda>w. p_cmp (ns_server serv) (the (n_name (notify_list st ! i))) w = 0) words) (notify_list st ! i) n'"
proof (cases "n_name (notify_list st ! i)")
  case None
  then show ?thesis using entry_step_skip [OF assms] by (simp add: mark_entry_def)
next
  case (Some name)
  obtain r n1 where f: "notify_find_server_entry (notify_list st ! i) serv = (r, n1)" by fastforce
  show ?thesis
  proof (cases r)
    case None
    then show ?thesis using entry_step_untracked [OF assms] f Some by (simp add: mark_entry_def)
  next
    case (Some j)
    let ?seen = "list_ex (\<lambda>w. p_cmp (ns_server serv) name w = 0) words"
    show ?thesis
      using entry_step_found [OF assms f [unfolded Some] refl, of "mark_entry env serv words i st" env name ?seen False]
        f Some \<open>n_name (notify_list st ! i) = Some name\<close>
      by (cases ?seen; cases "ison (servnot_at (i, j) (upd_notify i (\<lambda>_. n1) st))") (simp_all add: mark_entry_def Let_def)
  qed
qed

lemma cleared_entry_step:
  assumes "i < length (notify_list st)"
  shows "\<exists>n'. notify_list (cleared_entry env serv account i st) = (notify_list st)[i := n'] \<and>
     entry_step serv (n_account (notify_list st ! i) = Some account) False (notify_list st ! i) n'"
proof (cases "n_account (notify_list st ! i) = Some account")
  case True
  obtain r n1 where f: "notify_find_server_entry (notify_list st ! i) serv = (r, n1)" by fastforce
  let ?nick = "case n_name (notify_list st ! i) of Some m \<Rightarrow> m | None \<Rightarrow> account"
  show ?thesis
  proof (cases r)
    case None
    then show ?thesis using entry_step_untracked [OF assms] f True by (simp add: cleared_entry_def)
  next
    case (Some j)
    show ?thesis
      using entry_step_found [OF assms f [unfolded Some] refl, of "cleared_entry env serv account i st" env ?nick False False]
        f Some True by (simp add: cleared_entry_def Let_def)
  qed
next
  case False
  then show ?thesis using entry_step_skip [OF assms] by (simp add: cleared_entry_def)
qed

lemma observed_entry_step:
  assumes "i < length (notify_list st)"
  shows "\<exists>n'. notify_list (observed_entry env serv nick account i st) = (notify_list st)[i := n'] \<and>
     entry_step serv (n_account (notify_list st ! i) = Some account) True (notify_list st ! i) n'"
proof (cases "n_account (notify_list st ! i) = Some account")
  case True
  obtain r n1 where f: "notify_find_server_entry (notify_list st ! i) serv = (r, n1)" by fastforce
  let ?nick = "case nonempty nick of Some m \<Rightarrow> m | None \<Rightarrow> account"
  show ?thesis
  proof (cases r)
    case None
    then show ?thesis using entry_step_untracked [OF assms] f True by (simp add: observed_entry_def)
  next
    case (Some j)
    show ?thesis
      using entry_step_found [OF assms f [unfolded Some] refl, of "observed_entry env serv nick account i st" env ?nick True False]
        f Some True by (simp add: observed_entry_def Let_def)
  qed
next
  case False
  then show ?thesis using entry_step_skip [OF assms] by (simp add: observed_entry_def)
qed

section \<open>Accounts in the user lists\<close>

text \<open>A session whose tree holds allocated users only.\<close>

definition sess_users :: "session \<Rightarrow> addr list \<Rightarrow> bool" where
  "sess_users s xs \<longleftrightarrow> (case usertree s of None \<Rightarrow> xs = [] | Some t \<Rightarrow> holds t xs \<and> (\<forall>a \<in> set xs. users s a \<noteq> None))"

definition carries :: "string \<Rightarrow> session \<Rightarrow> addr list \<Rightarrow> bool" where
  "carries account s xs \<longleftrightarrow> (\<exists>a \<in> set xs. \<exists>u. users s a = Some u \<and> u_account u = Some account)"

lemma foreach_account:
  "\<forall>a \<in> set xs. heap a \<noteq> None \<Longrightarrow>
     foreach_from (notify_user_has_account_cb heap) (map Some xs) (Some (Some account)) =
       Some (Some (if \<exists>a \<in> set xs. \<exists>u. heap a = Some u \<and> u_account u = Some account then None else Some account))"
proof (induction xs)
  case (Cons x xs)
  then obtain u where u: "heap x = Some u" by auto
  show ?case
  proof (cases "u_account u = Some account")
    case True
    then show ?thesis using u by (auto simp: notify_user_has_account_cb_def)
  next
    case False
    then show ?thesis using Cons u by (simp add: notify_user_has_account_cb_def)
  qed
qed simp

lemma tree_account:
  assumes "sess_users s xs" "usertree s = Some t"
  shows "tree_foreach (notify_user_has_account_cb (users s)) t (Some (Some account)) =
     Some (Some (if carries account s xs then None else Some account))"
proof -
  have h: "holds t xs" "\<forall>a \<in> set xs. users s a \<noteq> None" using assms by (simp_all add: sess_users_def)
  then have "tree_foreach (notify_user_has_account_cb (users s)) t (Some (Some account)) =
      foreach_from (notify_user_has_account_cb (users s)) (map Some xs) (Some (Some account))"
    by (auto simp: tree_foreach_def holds_def)
  then show ?thesis unfolding foreach_account [OF h(2)] carries_def .
qed

lemma account_probe_result:
  assumes "list_all2 (\<lambda>(sid, s) xs. sess_users s xs) ss xss"
  shows "account_probe serv ss (Some account) =
     Some (if \<exists>x \<in> set (zip ss xss). fst (fst x) = ns_id serv \<and> carries account (snd (fst x)) (snd x)
           then None else Some account)"
  using assms
proof (induction ss xss rule: list_all2_induct)
  case (Cons ss1 ss xs xss)
  obtain sid s where s1: "ss1 = (sid, s)" by (cases ss1) auto
  have stop: "account_probe serv ss None = Some None" by (cases ss) auto
  show ?case
  proof (cases "sid = ns_id serv")
    case True
    show ?thesis
    proof (cases "usertree s")
      case None
      then have "xs = []" using Cons(1) s1 by (simp add: sess_users_def)
      then show ?thesis using Cons(3) s1 True None by (simp add: carries_def)
    next
      case (Some t)
      have "sess_users s xs" using Cons(1) s1 by simp
      from tree_account [OF this Some] show ?thesis using Cons(3) s1 True Some stop by simp
    qed
  next
    case False
    then show ?thesis using Cons(3) s1 by simp
  qed
qed simp

section \<open>Requests to the server\<close>

definition watch_line :: "nserver \<Rightarrow> string list \<Rightarrow> string" where
  "watch_line serv names =
     (if supports_monitor (ns_server serv) then ''MONITOR + '' @ concat (map (\<lambda>n. CHR '','' # n) names)
      else ''WATCH'' @ concat (map (\<lambda>n. '' +'' @ n) names))"

definition watch_width :: "nserver \<Rightarrow> string \<Rightarrow> int" where
  "watch_width serv n = int (length n) + (if supports_monitor (ns_server serv) then 1 else 2)"

lemma g_strlcat_fits: "length dest + length src < n \<Longrightarrow> g_strlcat n dest src = dest @ src"
  by (simp add: g_strlcat_def)

lemma flush_fold:
  "length dest + length (concat (map ((@) sep) names)) < 512 \<Longrightarrow>
     fold (\<lambda>name b. g_strlcat 512 (g_strlcat 512 b sep) name) names dest = dest @ concat (map ((@) sep) names)"
  by (induction names arbitrary: dest) (auto simp: g_strlcat_fits)

lemma watch_width_sum:
  "sum_list (map (watch_width serv) names) =
     int (length (concat (map ((@) (if supports_monitor (ns_server serv) then '','' else '' +'')) names)))"
  by (induction names) (auto simp: watch_width_def)

lemma flush_watches_line:
  assumes "sum_list (map (watch_width serv) names) \<le> 500"
  shows "notify_flush_watches serv names st = n_emit [N_Raw (ns_id serv) (watch_line serv names)] st"
    "length (watch_line serv names) \<le> 510"
proof -
  let ?sep = "if supports_monitor (ns_server serv) then '','' else '' +''"
  let ?head = "if supports_monitor (ns_server serv) then ''MONITOR + '' else ''WATCH''"
  have l: "length (concat (map ((@) ?sep) names)) \<le> 500" using assms watch_width_sum [of serv names] by simp
  have w: "watch_line serv names = ?head @ concat (map ((@) ?sep) names)" by (simp add: watch_line_def cong: map_cong)
  show "length (watch_line serv names) \<le> 510" unfolding w using l by (cases "supports_monitor (ns_server serv)") simp_all
  have "fold (\<lambda>name b. g_strlcat 512 (g_strlcat 512 b ?sep) name) names ?head = watch_line serv names"
    unfolding w by (rule flush_fold) (use l in auto)
  then show "notify_flush_watches serv names st = n_emit [N_Raw (ns_id serv) (watch_line serv names)] st"
    by (simp add: notify_flush_watches_def Let_def)
qed

lemma n_emit_emit: "n_emit es (n_emit es' st) = n_emit (es' @ es) st"
  by (simp add: n_emit_def)

lemma n_emit_Nil: "n_emit [] st = st"
  by (simp add: n_emit_def)

lemma send_watches_loop_batches:
  assumes "\<forall>n \<in> set names. watch_width serv n \<le> 500" "len = sum_list (map (watch_width serv) point)" "len \<le> 500"
  shows "\<exists>chunks. send_watches_loop serv len point names st =
       n_emit (map (\<lambda>c. N_Raw (ns_id serv) (watch_line serv c)) chunks) st \<and>
     concat chunks = rev point @ names \<and> (\<forall>c \<in> set chunks. length (watch_line serv c) \<le> 510)"
  using assms
proof (induction names arbitrary: len point st)
  case Nil
  have w0: "0 < watch_width serv n" for n by (simp add: watch_width_def)
  have 1: "len = 0 \<Longrightarrow> point = []"
  proof (cases point)
    case (Cons p ps)
    have "0 \<le> sum_list (map (watch_width serv) ps)" by (rule sum_list_nonneg) (use w0 in \<open>auto intro: less_imp_le\<close>)
    then show "len = 0 \<Longrightarrow> point = []" using Nil.prems(2) Cons w0 [of p] by simp
  qed
  have "sum_list (map (watch_width serv) (rev point)) \<le> 500" using Nil.prems(2,3) by (simp flip: rev_map)
  note f = flush_watches_line [OF this]
  show ?case
  proof (cases "len = 0")
    case True
    then show ?thesis using 1 by (intro exI [of _ "[]"]) (simp add: n_emit_Nil)
  next
    case False
    then show ?thesis using f by (intro exI [of _ "[rev point]"]) simp
  qed
next
  case (Cons name names)
  let ?w = "watch_width serv name"
  have w: "int (length name) + (if supports_monitor (ns_server serv) then 1 else 2) = ?w" by (simp add: watch_width_def)
  show ?case
  proof (cases "len + ?w > 500")
    case True
    have "sum_list (map (watch_width serv) (rev point)) \<le> 500" using Cons.prems(2,3) by (simp flip: rev_map)
    note f = flush_watches_line [OF this]
    obtain chunks where "send_watches_loop serv ?w [name] names (n_emit [N_Raw (ns_id serv) (watch_line serv (rev point))] st) =
        n_emit (map (\<lambda>c. N_Raw (ns_id serv) (watch_line serv c)) chunks) (n_emit [N_Raw (ns_id serv) (watch_line serv (rev point))] st)"
      "concat chunks = [name] @ names" "\<forall>c \<in> set chunks. length (watch_line serv c) \<le> 510"
      using Cons.IH [of ?w "[name]"] Cons.prems(1) by fastforce
    then show ?thesis using True f w by (intro exI [of _ "rev point # chunks"]) (simp add: n_emit_emit)
  next
    case False
    then show ?thesis using Cons.IH [of "len + ?w" "name # point" st] Cons.prems w by simp
  qed
qed

lemma ison_loop_fits:
  "\<forall>n \<in> set names. length n \<le> 50 \<Longrightarrow> length outbuf \<le> 460 \<Longrightarrow>
     \<exists>b i. ison_loop outbuf some names = Some (i, b) \<and> length b < 512 \<and> prefix outbuf b"
proof (induction names arbitrary: outbuf some)
  case (Cons name names)
  let ?b = "outbuf @ name @ '' ''"
  show ?case
  proof (cases "length ?b > 460")
    case True
    then show ?thesis using Cons.prems by auto
  next
    case False
    then obtain b i where "ison_loop ?b True names = Some (i, b)" "length b < 512" "prefix ?b b"
      using Cons.IH [of ?b True] Cons.prems by auto
    then show ?thesis using False by (auto dest: append_prefixD)
  qed
qed auto

section \<open>The file\<close>

text \<open>A field that survives the file, and an entry all of whose fields do. A networks filter that is empty or
  looks like an account key is not told apart from its absence.\<close>

definition field_ok :: "string \<Rightarrow> bool" where
  "field_ok s \<longleftrightarrow> list_all (\<lambda>c. \<not> is_blank c \<and> c \<notin> {NUL, CHR 0x0A, CHR 0x0D}) s"

definition file_entry :: "notify \<Rightarrow> bool" where
  "file_entry n \<longleftrightarrow> entry_inv n \<and> length (notify_line n) \<le> 256 \<and>
     (\<forall>m. n_name n = Some m \<longrightarrow> field_ok m \<and> hd m \<noteq> CHR ''#'' \<and> \<not> prefix ''account='' m) \<and>
     (\<forall>a. n_account n = Some a \<longrightarrow> field_ok a) \<and>
     (\<forall>t. n_networks n = Some t \<longrightarrow> field_ok t \<and> (n_account n = None \<longrightarrow> t \<noteq> [] \<and> \<not> prefix ''account='' t))"

lemma field_word: "field_ok s \<Longrightarrow> (\<forall>c \<in> set s. \<not> is_blank c)"
  by (simp add: field_ok_def list_all_iff)

lemma split_word_field:
  assumes "field_ok s"
  shows "split_word s = (s, None)" "split_word (s @ CHR '' '' # r) = (s, Some (dropWhile is_blank r))"
proof -
  have "\<not> is_blank c" if "c \<in> set s" for c using assms that by (simp add: field_ok_def list_all_iff)
  then show "split_word s = (s, None)" "split_word (s @ CHR '' '' # r) = (s, Some (dropWhile is_blank r))"
    by (simp_all add: split_word_def Let_def takeWhile_eq_all_conv dropWhile_eq_Nil_conv is_blank_def)
qed

lemma strip_key_hit: "strip_key key (Some (key @ s)) = Some s"
  by (simp add: strip_key_def)

lemma take_prefix: "take (length key) t = key \<longleftrightarrow> prefix key t"
  by (auto simp: prefix_def) (metis append_take_drop_id)

lemma strip_key_miss: "\<not> prefix key s \<Longrightarrow> strip_key key (Some s) = None"
  by (simp add: strip_key_def take_prefix)

lemma prefix_word: "c \<notin> set key \<Longrightarrow> \<not> prefix key m \<Longrightarrow> \<not> prefix key (m @ c # r)"
  by (auto simp: prefix_append prefix_Cons)

text \<open>What follows the account key in a line, and how it is read back.\<close>

definition account_text :: "string \<Rightarrow> string option \<Rightarrow> string" where
  "account_text a nets = a @ (case nets of None \<Rightarrow> [] | Some t \<Rightarrow> CHR '' '' # ''networks='' @ t)"

lemma account_text_back:
  assumes "field_ok a"
  shows "(case split_word (account_text a nets) of (x, tail) \<Rightarrow> (x, strip_key ''networks='' tail)) = (a, nets)"
proof (cases nets)
  case None
  then show ?thesis by (simp add: account_text_def split_word_field(1) [OF assms] strip_key_def)
next
  case (Some t)
  have "dropWhile is_blank (''networks='' @ t) = ''networks='' @ t" by (simp add: is_blank_def)
  then show ?thesis
    using split_word_field(2) [OF assms, of "''networks='' @ t"] strip_key_hit [of "''networks=''" t]
    by (simp only: account_text_def Some option.case prod.case)
qed

lemma rstrip_field: "CHR 0x0D \<notin> set s \<Longrightarrow> rstrip_cr s = s"
  using last_in_set [of s] by (metis rstrip_cr_def)

lemma field_no_cr: "field_ok s \<Longrightarrow> CHR 0x0D \<notin> set s"
  by (auto simp: field_ok_def list_all_iff)

lemma account_text_no_cr: "field_ok a \<Longrightarrow> (\<forall>t. nets = Some t \<longrightarrow> field_ok t) \<Longrightarrow> CHR 0x0D \<notin> set (account_text a nets)"
  by (auto simp: account_text_def field_no_cr split: option.splits)

lemma notify_line_shape:
  "butlast (notify_line n) =
     (case (n_name n, n_account n) of
        (None, None) \<Rightarrow> (case n_networks n of None \<Rightarrow> [] | Some t \<Rightarrow> CHR '' '' # t)
      | (None, Some a) \<Rightarrow> ''account='' @ account_text a (n_networks n)
      | (Some m, Some a) \<Rightarrow> m @ CHR '' '' # ''account='' @ account_text a (n_networks n)
      | (Some m, None) \<Rightarrow> m @ (case n_networks n of None \<Rightarrow> [] | Some t \<Rightarrow> CHR '' '' # t))"
  by (auto simp: notify_line_def opt_def account_text_def butlast_append split: option.splits)

text \<open>The line of an entry is read back as its fields.\<close>

lemma notify_line_fields_back:
  assumes "file_entry n"
  shows "notify_line_fields (butlast (notify_line n)) = (n_name n, n_account n, n_networks n)"
proof -
  note f = assms [unfolded file_entry_def entry_inv_def]
  have nets: "\<forall>t. n_networks n = Some t \<longrightarrow> field_ok t" using f by auto
  have key: "dropWhile is_blank (''account='' @ s) = ''account='' @ s" for s by (simp add: is_blank_def)
  have miss: "strip_key ''account='' (Some m) = None" "strip_key ''account='' (Some (m @ CHR '' '' # r)) = None"
    if "n_name n = Some m" for m r
    using f that prefix_word [of "CHR '' ''" "''account=''" m r] by (simp_all add: strip_key_miss)
  consider (account) a where "n_name n = None" "n_account n = Some a" "field_ok a"
    | (both) m a where "n_name n = Some m" "n_account n = Some a" "field_ok m" "field_ok a"
    | (nick) m where "n_name n = Some m" "n_account n = None" "n_networks n = None" "field_ok m"
    | (nets) m t where "n_name n = Some m" "n_account n = None" "n_networks n = Some t" "field_ok m" "field_ok t"
        "t \<noteq> []" "\<not> prefix ''account='' t"
    using f by (cases "n_name n"; cases "n_account n"; cases "n_networks n") auto
  then show ?thesis
  proof cases
    case account
    have "CHR 0x0D \<notin> set (''account='' @ account_text a (n_networks n))" using account_text_no_cr [OF account(3) nets] by simp
    then show ?thesis
      using account account_text_back [OF account(3), of "n_networks n"] strip_key_hit [of "''account=''" "account_text a (n_networks n)"]
      by (simp add: notify_line_shape notify_line_fields_def rstrip_field del: append.simps split: prod.splits)
  next
    case both
    let ?r = "''account='' @ account_text a (n_networks n)"
    have "CHR 0x0D \<notin> set (m @ CHR '' '' # ?r)"
      using account_text_no_cr [OF both(4) nets] field_no_cr [OF both(3)] by simp
    then show ?thesis
      using both miss(2) [OF both(1), of ?r] account_text_back [OF both(4), of "n_networks n"]
        strip_key_hit [of "''account=''" "account_text a (n_networks n)"] split_word_field(2) [OF both(3), of ?r]
      by (simp add: notify_line_shape notify_line_fields_def rstrip_field key del: append.simps split: prod.splits)
  next
    case nick
    then show ?thesis
      using miss(1) [OF nick(1)] field_no_cr [OF nick(4)]
      by (simp add: notify_line_shape notify_line_fields_def rstrip_field split_word_field(1))
  next
    case nets
    have "dropWhile is_blank t = t" using nets(5) by (cases t) (auto simp: field_ok_def)
    then show ?thesis
      using nets miss(2) [OF nets(1), of t] strip_key_miss [OF nets(7)] field_no_cr [OF nets(4)] field_no_cr [OF nets(5)]
      by (simp add: notify_line_shape notify_line_fields_def rstrip_field split_word_field(2))
  qed
qed

lemma load_line_read:
  "CHR 0x0A \<notin> set l \<Longrightarrow> length buf + length l \<le> 255 \<Longrightarrow>
     notify_load_from buf False (l @ CHR 0x0A # rest) st =
       do { st1 \<leftarrow> load_buf (rev l @ buf) st; notify_load_from [] False rest st1 }"
  by (induction l arbitrary: buf) auto

lemma adduser_offline:
  assumes "serv_list st = []"
  shows "\<exists>st'. notify_adduser name account networks st = Some st' \<and> serv_list st' = [] \<and>
     notify_list st' = new_notify name account networks # notify_list st"
  using assms
  by (cases "n_name (new_notify name account networks)")
     (simp_all add: notify_adduser_def notify_checklist_def notify_watch_all_def Let_def)

text \<open>An entry as the file keeps it.\<close>

definition offline_copy :: "notify \<Rightarrow> notify" where
  "offline_copy n = n\<lparr>server_list := []\<rparr>"

lemma new_notify_back:
  assumes "file_entry n"
  shows "new_notify (n_name n) (n_account n) (n_networks n) = offline_copy n"
proof -
  note f = assms [unfolded file_entry_def entry_inv_def]
  have "despacify_dup t = t" if "field_ok t" for t
    using that by (auto simp: despacify_dup_def field_ok_def list_all_iff is_blank_def filter_id_conv)
  then show ?thesis
    using f by (cases n; cases "n_name n"; cases "n_account n"; cases "n_networks n")
      (auto simp: new_notify_def offline_copy_def nonempty_def NICKLEN_def)
qed

lemma file_line_ok:
  assumes "file_entry n"
  shows "notify_line n = butlast (notify_line n) @ [CHR 0x0A]" "CHR 0x0A \<notin> set (butlast (notify_line n))"
    "cstring (butlast (notify_line n))" "length (butlast (notify_line n)) \<le> 255"
    "chd (butlast (notify_line n)) \<noteq> CHR ''#''" "chd (butlast (notify_line n)) \<noteq> NUL"
proof -
  note f = assms [unfolded file_entry_def entry_inv_def]
  have ok: "CHR 0x0A \<notin> set s" "cstring s" if "field_ok s" for s
    using that by (auto simp: field_ok_def list_all_iff cstring_def)
  show "notify_line n = butlast (notify_line n) @ [CHR 0x0A]" by (simp add: notify_line_def butlast_append)
  have "length (notify_line n) \<le> 256" using f by blast
  then show "length (butlast (notify_line n)) \<le> 255" by simp
  show "CHR 0x0A \<notin> set (butlast (notify_line n))" "cstring (butlast (notify_line n))"
    using f ok by (auto simp: notify_line_shape account_text_def split: option.splits)
  have hd: "chd (m @ r) = hd m" "hd m \<noteq> NUL" if "m \<noteq> []" "field_ok m" for m r
    using that by (cases m; simp add: field_ok_def)+
  show "chd (butlast (notify_line n)) \<noteq> CHR ''#''" "chd (butlast (notify_line n)) \<noteq> NUL"
    using f hd by (cases "n_name n"; cases "n_account n"; simp add: notify_line_shape)+
qed

lemma load_entry:
  assumes "file_entry n" "serv_list st = []"
  shows "\<exists>st'. notify_load_from [] False (notify_line n @ rest) st = notify_load_from [] False rest st' \<and>
     serv_list st' = [] \<and> notify_list st' = offline_copy n # notify_list st"
proof -
  note l = file_line_ok [OF assms(1)]
  have "nonempty (n_name n) \<noteq> None \<or> nonempty (n_account n) \<noteq> None"
    using assms(1) by (auto simp: file_entry_def entry_inv_def nonempty_def split: option.splits)
  then have "notify_load_line (butlast (notify_line n)) st = notify_adduser (n_name n) (n_account n) (n_networks n) st"
    by (simp add: notify_load_line_def notify_line_fields_back [OF assms(1)])
  then have "load_buf (rev (butlast (notify_line n))) st = notify_adduser (n_name n) (n_account n) (n_networks n) st"
    using l(3,5,6) by (simp add: load_buf_def)
  moreover obtain st' where "notify_adduser (n_name n) (n_account n) (n_networks n) st = Some st'" "serv_list st' = []"
    "notify_list st' = offline_copy n # notify_list st"
    using adduser_offline [OF assms(2)] new_notify_back [OF assms(1)] by metis
  ultimately show ?thesis
    using load_line_read [OF l(2), of "[]" rest st] l(4) by (subst l(1)) (intro exI [of _ st'], simp)
qed

lemma notify_load_entries:
  "list_all file_entry ns \<Longrightarrow> serv_list st = [] \<Longrightarrow>
     \<exists>st'. notify_load (concat (map notify_line ns)) st = Some st' \<and>
       notify_list st' = map offline_copy (rev ns) @ notify_list st"
proof (induction ns arbitrary: st)
  case Nil
  then show ?case by (simp add: notify_load_def)
next
  case (Cons n ns)
  then obtain st1 where "notify_load_from [] False (notify_line n @ concat (map notify_line ns)) st =
      notify_load_from [] False (concat (map notify_line ns)) st1" "serv_list st1 = []"
    "notify_list st1 = offline_copy n # notify_list st" using load_entry by force
  with Cons show ?case by (fastforce simp: notify_load_def)
qed

section \<open>The invariant\<close>

definition notify_inv :: "notify_state \<Rightarrow> bool" where
  "notify_inv st \<longleftrightarrow> list_all entry_inv (notify_list st)"

text \<open>A lookup changes nothing one can see.\<close>

definition same_entry :: "notify \<Rightarrow> notify \<Rightarrow> bool" where
  "same_entry n n' \<longleftrightarrow> (\<forall>sid. online sid n' = online sid n) \<and> n_name n' = n_name n \<and> n_account n' = n_account n \<and>
     n_networks n' = n_networks n \<and> (entry_inv n \<longrightarrow> entry_inv n')"

lemma same_entry_refl [simp]: "same_entry n n"
  by (simp add: same_entry_def)

lemma find_server_entry_same: "notify_find_server_entry n serv = (r, n') \<Longrightarrow> same_entry n n'"
proof -
  assume a: "notify_find_server_entry n serv = (r, n')"
  show ?thesis
  proof (rule find_entry_cases [of n serv])
    fix j m
    assume "notify_find_server_entry n serv = (Some j, m)" "online (ns_id serv) m = online (ns_id serv) n"
      "\<And>sid. sid \<noteq> ns_id serv \<Longrightarrow> online sid m = online sid n" "n_name m = n_name n" "n_account m = n_account n"
      "n_networks m = n_networks n" "entry_inv n \<Longrightarrow> entry_inv m"
    then show ?thesis using a by (auto simp: same_entry_def) (metis)+
  qed (use a in auto)
qed

lemma same_entries_refl: "list_all2 same_entry ns ns"
  by (simp add: list_all2_refl)

lemma notify_find_from_same:
  "notify_find_from serv nick ns = (r, ns') \<Longrightarrow>
     list_all2 same_entry ns ns' \<and>
     (case r of
        None \<Rightarrow> \<forall>n \<in> set ns. tracked serv n \<longrightarrow> (\<forall>m. n_name n = Some m \<longrightarrow> p_cmp (ns_server serv) m nick \<noteq> 0)
      | Some (i, j) \<Rightarrow> i < length ns \<and> server_pos (ns_id serv) (server_list (ns' ! i)) = Some j \<and> tracked serv (ns ! i) \<and>
          (\<exists>m. n_name (ns ! i) = Some m \<and> p_cmp (ns_server serv) m nick = 0))"
proof (induction ns arbitrary: r ns')
  case (Cons n ns)
  obtain r2 ns2 where IH: "notify_find_from serv nick ns = (r2, ns2)" by fastforce
  note IH2 = Cons.IH [OF IH]
  show ?case
  proof (cases "n_name n")
    case None
    then show ?thesis using Cons.prems IH IH2 by (cases r2) (auto split: prod.splits)
  next
    case (Some m)
    show ?thesis
    proof (rule find_entry_cases [of n serv])
      fix j n'
      assume f: "notify_find_server_entry n serv = (Some j, n')" "tracked serv n" "server_pos (ns_id serv) (server_list n') = Some j"
      have s: "same_entry n n'" using find_server_entry_same [OF f(1)] .
      show ?thesis
      proof (cases "p_cmp (ns_server serv) m nick = 0")
        case True
        then show ?thesis using Cons.prems Some f s by (auto simp: same_entries_refl)
      next
        case False
        then show ?thesis using Cons.prems Some f s IH IH2 by (cases r2) auto
      qed
    next
      assume "notify_find_server_entry n serv = (None, n)" "\<not> tracked serv n"
      then show ?thesis using Cons.prems Some IH IH2 by (cases r2) auto
    qed
  qed
qed auto

lemma same_entries_inv: "list_all2 same_entry ns ns' \<Longrightarrow> list_all entry_inv ns \<Longrightarrow> list_all entry_inv ns'"
  by (induction ns ns' rule: list_all2_induct) (auto simp: same_entry_def)

lemma list_all_update: "list_all P xs \<Longrightarrow> P x \<Longrightarrow> list_all P (xs[i := x])"
  by (auto simp: list_all_iff dest: set_update_subset_insert [THEN subsetD])

lemma find_announce_inv:
  assumes "notify_inv st" "notify_find serv nick st = (Some (i, j), st1)"
    and "r = notify_announce_online env serv (i, j) nick st1 \<or> r = notify_announce_offline env serv (i, j) nick quiet st1"
  shows "notify_inv r"
proof -
  obtain ns where ns: "notify_find_from serv nick (notify_list st) = (Some (i, j), ns)" "st1 = st\<lparr>notify_list := ns\<rparr>"
    using assms(2) by (auto simp: notify_find_def split: prod.splits)
  note f = notify_find_from_same [OF ns(1)]
  have inv: "list_all entry_inv ns" using same_entries_inv f assms(1) by (auto simp: notify_inv_def)
  have p: "i < length (notify_list st1)" "server_pos (ns_id serv) (server_list (notify_list st1 ! i)) = Some j"
    using f ns(2) by (auto dest: list_all2_lengthD)
  obtain b n' where "notify_list r = (notify_list st1)[i := n']" "presence_set (ns_id serv) b (notify_list st1 ! i) n'"
    using assms(3) announce_online_list [OF p, of env nick] announce_offline_list [OF p, of env nick quiet] by metis
  moreover have "entry_inv (notify_list st1 ! i)" using inv p(1) ns(2) by (simp add: list_all_length)
  ultimately show ?thesis using inv ns(2) by (simp add: notify_inv_def presence_set_def list_all_update)
qed

lemma notify_find_none_inv: "notify_inv st \<Longrightarrow> notify_find serv nick st = (r, st1) \<Longrightarrow> notify_inv st1"
  by (auto simp: notify_inv_def notify_find_def split: prod.splits dest!: notify_find_from_same intro: same_entries_inv)

lemma notify_set_inv:
  assumes "notify_inv st"
  shows "notify_inv (notify_set_online env serv nick st)" "notify_inv (notify_set_offline env serv nick quiet st)"
proof -
  obtain r st1 where f: "notify_find serv nick st = (r, st1)" by fastforce
  show "notify_inv (notify_set_online env serv nick st)" "notify_inv (notify_set_offline env serv nick quiet st)"
    using f assms notify_find_none_inv [OF assms f] find_announce_inv [OF assms, of serv nick]
    by (cases r; force simp: notify_set_online_def notify_set_offline_def)+
qed

lemma fold_entries_inv:
  assumes "\<And>i st. i < length (notify_list st) \<Longrightarrow>
      \<exists>n'. notify_list (f i st) = (notify_list st)[i := n'] \<and> (entry_inv (notify_list st ! i) \<longrightarrow> entry_inv n')"
    and "notify_inv st"
  shows "notify_inv (fold f [0..<length (notify_list st)] st)"
proof -
  have "list_all2 (\<lambda>n n'. entry_inv n \<longrightarrow> entry_inv n') (notify_list st) (notify_list (fold f [0..<length (notify_list st)] st))"
    by (rule fold_entries [of f]) (rule assms(1))
  then show ?thesis using assms(2) unfolding notify_inv_def
    by (induction rule: list_all2_induct) auto
qed

lemma entry_step_inv: "entry_step serv sel b n n' \<Longrightarrow> entry_inv n \<longrightarrow> entry_inv n'"
  by (auto simp: entry_step_def presence_set_def split: if_splits)

lemma show_entry_same:
  assumes "i < length (notify_list st)"
  shows "\<exists>n'. notify_list (show_entry serv i st) = (notify_list st)[i := n'] \<and> same_entry (notify_list st ! i) n'"
proof (cases "case n_name (notify_list st ! i) of Some m \<Rightarrow> Some m | None \<Rightarrow> n_account (notify_list st ! i)")
  case None
  then show ?thesis by (intro exI [of _ "notify_list st ! i"]) (simp add: show_entry_def)
next
  case (Some d)
  obtain r n' where f: "notify_find_server_entry (notify_list st ! i) serv = (r, n')" by fastforce
  then show ?thesis using Some find_server_entry_same [OF f] by (intro exI [of _ n']) (simp add: show_entry_def Let_def)
qed

lemma watch_list [simp]: "notify_list (notify_watch serv nick add st) = notify_list st"
  by (simp add: notify_watch_def Let_def)

lemma watch_all_list [simp]: "notify_list (notify_watch_all n add st) = notify_list st"
proof -
  have "notify_list (fold (\<lambda>serv st. if ns_connected serv \<and> end_of_motd (ns_server serv) \<and> notify_do_network n serv
      then notify_watch serv name add st else st) servs st) = notify_list st" for name servs st
    by (induction servs arbitrary: st) auto
  then show ?thesis by (simp add: notify_watch_all_def split: option.split)
qed

lemma checklist_list: "checklist_from servs st = Some st' \<Longrightarrow> notify_list st' = notify_list st"
  by (induction servs arbitrary: st)
     (auto simp: notify_checklist_for_server_def bind_eq_Some_conv split: if_splits prod.splits)

lemma adduser_list:
  "notify_adduser name account networks st = Some st' \<Longrightarrow> notify_list st' = new_notify name account networks # notify_list st"
  by (auto simp: notify_adduser_def notify_checklist_def Let_def bind_eq_Some_conv dest: checklist_list)

lemma adduser_inv:
  assumes "notify_inv st" "nonempty name \<noteq> None \<or> nonempty account \<noteq> None" "notify_adduser name account networks st = Some st'"
  shows "notify_inv st'"
  using assms(1,2) adduser_list [OF assms(3)]
  by (cases name; cases account) (auto simp: notify_inv_def entry_inv_def new_notify_def nonempty_def NICKLEN_def split: if_splits)

lemma load_buf_inv: "notify_inv st \<Longrightarrow> load_buf buf st = Some st' \<Longrightarrow> notify_inv st'"
  by (auto simp: load_buf_def notify_load_line_def Let_def split: if_splits prod.splits intro: adduser_inv)

lemma load_inv: "notify_load_from buf d inp st = Some st' \<Longrightarrow> notify_inv st \<Longrightarrow> notify_inv st'"
proof (induction inp arbitrary: buf d st)
  case Nil
  then show ?case by (auto split: if_splits intro: load_buf_inv)
next
  case (Cons c inp)
  show ?case
  proof (cases "\<not> d \<and> (c = CHR 0x0A \<or> 256 \<le> length buf + 1)")
    case True
    then obtain st1 where "load_buf buf st = Some st1" "notify_load_from [] (c \<noteq> CHR 0x0A) inp st1 = Some st'"
      using Cons.prems(1) by (auto simp: bind_eq_Some_conv split: if_splits)
    then show ?thesis using Cons.IH load_buf_inv Cons.prems(2) by blast
  next
    case False
    then show ?thesis using Cons.IH Cons.prems by (cases d) (auto split: if_splits)
  qed
qed

lemma isnotify_from_same: "isnotify_from serv name ns = (b, ns') \<Longrightarrow> list_all2 same_entry ns ns'"
proof (induction ns arbitrary: b ns')
  case (Cons n ns)
  obtain b2 ns2 where IH: "isnotify_from serv name ns = (b2, ns2)" by fastforce
  obtain r n' where f: "notify_find_server_entry n serv = (r, n')" by fastforce
  show ?case
    using Cons.prems Cons.IH [OF IH] IH f find_server_entry_same [OF f]
    by (auto simp: same_entries_refl split: if_splits)
qed auto

lemma fold_inv: "(\<And>x st. notify_inv st \<Longrightarrow> notify_inv (f x st)) \<Longrightarrow> notify_inv st \<Longrightarrow> notify_inv (fold f xs st)"
  by (induction xs arbitrary: st) auto

lemma del_inv: "notify_inv st \<Longrightarrow> notify_inv (snd (notify_deluser name st))"
  by (auto simp: notify_deluser_def notify_inv_def list_all_iff Let_def split: option.splits
      dest: in_set_takeD in_set_dropD)

lemma cleanup_inv: "notify_inv st \<Longrightarrow> notify_inv (notify_cleanup st)"
  by (auto simp: notify_cleanup_def notify_inv_def list_all_iff entry_inv_def distinct_map_filter)

lemma send_watches_list: "notify_list (send_watches_loop serv len point names st) = notify_list st"
  by (induction names arbitrary: len point st) (auto simp: Let_def notify_flush_watches_def)

text \<open>Everything that happens to the friends list.\<close>

inductive n_step :: "notify_env \<Rightarrow> notify_state \<Rightarrow> notify_state \<Rightarrow> bool" for env :: notify_env where
  n_set_online: "n_step env st (notify_set_online env serv nick st)"
| n_set_offline: "n_step env st (notify_set_offline env serv nick quiet st)"
| n_online_list: "n_step env st (notify_set_online_list env serv nicks st)"
| n_offline_list: "n_step env st (notify_set_offline_list env serv nicks quiet st)"
| n_markonline: "n_step env st (notify_markonline env serv word st)"
| n_observed: "n_step env st (notify_account_observed env serv nick account st)"
| n_cleared: "notify_account_cleared env serv ss account st = Some st' \<Longrightarrow> n_step env st st'"
| n_isnotify: "n_step env st (snd (notify_isnotify serv name st))"
| n_showlist: "n_step env st (notify_showlist serv st)"
| n_adduser: "nonempty name \<noteq> None \<or> nonempty account \<noteq> None \<Longrightarrow> notify_adduser name account networks st = Some st' \<Longrightarrow>
    n_step env st st'"
| n_deluser: "n_step env st (snd (notify_deluser name st))"
| n_cleanup: "n_step env st (notify_cleanup st)"
| n_checklist: "notify_checklist st = Some st' \<Longrightarrow> n_step env st st'"
| n_send_watches: "n_step env st (notify_send_watches serv st)"
| n_load: "notify_load inp st = Some st' \<Longrightarrow> n_step env st st'"

inductive n_reachable :: "notify_state \<Rightarrow> notify_state \<Rightarrow> bool" for st0 :: notify_state where
  n_refl: "n_reachable st0 st0"
| n_trans: "n_reachable st0 st \<Longrightarrow> n_step env st st' \<Longrightarrow> n_reachable st0 st'"

lemma loops_inv:
  assumes "notify_inv st"
  shows "notify_inv (fold (mark_entry env serv words) [0..<length (notify_list st)] st)"
    "notify_inv (fold (cleared_entry env serv acc) [0..<length (notify_list st)] st)"
    "notify_inv (fold (observed_entry env serv nick acc) [0..<length (notify_list st)] st)"
    "notify_inv (fold (show_entry serv) [0..<length (notify_list st)] st)"
proof -
  show "notify_inv (fold (mark_entry env serv words) [0..<length (notify_list st)] st)"
    by (rule fold_entries_inv [OF _ assms]) (use mark_entry_step entry_step_inv in metis)
  show "notify_inv (fold (cleared_entry env serv acc) [0..<length (notify_list st)] st)"
    by (rule fold_entries_inv [OF _ assms]) (use cleared_entry_step entry_step_inv in metis)
  show "notify_inv (fold (observed_entry env serv nick acc) [0..<length (notify_list st)] st)"
    by (rule fold_entries_inv [OF _ assms]) (use observed_entry_step entry_step_inv in metis)
  show "notify_inv (fold (show_entry serv) [0..<length (notify_list st)] st)"
    by (rule fold_entries_inv [OF _ assms]) (drule show_entry_same [where serv = serv], auto simp: same_entry_def)
qed

lemma n_emit_inv [simp]: "notify_inv (n_emit es st) = notify_inv st"
  by (simp add: notify_inv_def)

lemma n_step_inv: "n_step env st st' \<Longrightarrow> notify_inv st \<Longrightarrow> notify_inv st'"
proof (induction rule: n_step.induct)
  case (n_cleared serv ss account st st')
  then show ?case using loops_inv(2) [OF n_cleared(2)]
    by (auto simp: notify_account_cleared_def bind_eq_Some_conv Let_def split: if_splits)
next
  case (n_isnotify st serv name)
  obtain b ns where f: "isnotify_from serv name (notify_list st) = (b, ns)" by fastforce
  then show ?case using n_isnotify same_entries_inv [OF isnotify_from_same [OF f]] by (simp add: notify_isnotify_def notify_inv_def)
next
  case (n_showlist st serv)
  then show ?case using loops_inv(4) [of "n_emit [N_Print ''XP_TE_NOTIFYHEAD''] st"] by (simp add: notify_showlist_def Let_def)
next
  case (n_load inp st st')
  then show ?case using load_inv by (simp add: notify_load_def)
next
  case (n_checklist st st')
  then show ?case using checklist_list by (simp add: notify_checklist_def notify_inv_def)
next
  case (n_send_watches st serv)
  then show ?case by (simp add: notify_send_watches_def notify_inv_def send_watches_list)
qed (auto simp: notify_set_inv notify_set_online_list_def notify_set_offline_list_def notify_markonline_def
       notify_account_observed_def Let_def loops_inv del_inv cleanup_inv intro: fold_inv adduser_inv)

section \<open>Properties\<close>

definition demo_serv :: "bool \<Rightarrow> nserver" where
  "demo_serv mon =
     \<lparr>ns_id = 1,
      ns_server = blank_server\<lparr>supports_monitor := mon\<rparr>,
      ns_connected = True, ns_network = ''Free Net''\<rparr>"

definition demo_friend :: "string \<Rightarrow> notify" where
  "demo_friend nick = \<lparr>n_name = Some nick, n_account = None, n_networks = Some ''freenet'', server_list = []\<rparr>"

definition demo_account :: notify where
  "demo_account = \<lparr>n_name = None, n_account = Some ''bob'', n_networks = None, server_list = []\<rparr>"

definition demo_notify :: notify_state where
  "demo_notify = \<lparr>notify_list = [demo_friend ''ann'', demo_account, demo_friend ''eve''], serv_list = [], n_log = []\<rparr>"

lemma demo_notify_inv: "notify_inv demo_notify"
  by (simp add: notify_inv_def demo_notify_def demo_account_def demo_friend_def entry_inv_def NICKLEN_def)

lemma demo_serv_id: "ns_id (demo_serv mon) = 1"
  by (simp add: demo_serv_def)

lemma demo_friend_network: "notify_do_network (demo_friend m) (demo_serv False)"
proof -
  have "\<not> fst (token_foreach (CHR '','') (notify_netcmp (demo_serv False)) [] ''freenet'' ())" by code_simp
  then show ?thesis by (simp add: notify_do_network_def demo_friend_def)
qed

lemma ison_loop_overrun:
  "length outbuf + 64 * length names = 517 \<Longrightarrow> names \<noteq> [] \<Longrightarrow> \<forall>n \<in> set names. length n = 63 \<Longrightarrow>
     ison_loop outbuf some names = None"
proof (induction names arbitrary: outbuf some)
  case (Cons name names)
  show ?case
  proof (cases "names = []")
    case False
    then have "64 \<le> 64 * length names" by (cases names) auto
    with Cons False show ?thesis by (simp add: Let_def)
  qed (use Cons.prems in simp)
qed simp

text \<open>C22: The friends list survives its file: loading what \<open>notify_save\<close> wrote, with no server connected, gives back the
  same entries (nick, account, networks) in the same order, all offline, for entries whose fields are free of blanks and
  line ends and fit the 256 bytes of a line.\<close>

theorem notify_save_load_roundtrip:
  assumes "list_all file_entry (notify_list st)" "serv_list st0 = []"
  shows "\<exists>st'. notify_load (notify_save st) st0 = Some st' \<and>
     notify_list st' = map offline_copy (notify_list st) @ notify_list st0"
  using notify_load_entries [of "rev (notify_list st)" st0] assms by (simp add: notify_save_def list_all_iff)

theorem notify_save_load_roundtrip_witness:
  "\<exists>st'. notify_load (notify_save demo_notify) \<lparr>notify_list = [], serv_list = [], n_log = []\<rparr> = Some st' \<and>
     notify_list st' = notify_list demo_notify"
proof -
  have "list_all file_entry (notify_list demo_notify)"
    by (simp add: demo_notify_def demo_account_def demo_friend_def file_entry_def entry_inv_def field_ok_def is_blank_def
        notify_line_def opt_def NICKLEN_def)
  from notify_save_load_roundtrip [OF this, of "\<lparr>notify_list = [], serv_list = [], n_log = []\<rparr>"] show ?thesis
    by (simp add: demo_notify_def demo_account_def demo_friend_def offline_copy_def)
qed

text \<open>C21: Whatever happens to the friends list (additions, removals, loading the file, answers to WATCH, MONITOR and ISON,
  observed accounts, lookups, cleanup), every entry has a nick or an account, nicks fit their buffer, and there is
  at most one state per entry and server.\<close>

theorem notify_reachable_inv:
  assumes "n_reachable st0 st" "notify_inv st0"
  shows "notify_inv st"
  using assms by (induction rule: n_reachable.induct) (auto intro: n_step_inv)

theorem notify_reachable_inv_witness:
  "notify_inv (notify_set_online \<lparr>whois_online = True, now_time = 5\<rparr> (demo_serv True) ''ANN'' demo_notify)"
proof -
  let ?env = "\<lparr>whois_online = True, now_time = 5\<rparr>"
  show ?thesis
    using notify_reachable_inv [OF n_trans [OF n_refl n_set_online [of ?env demo_notify "demo_serv True" "''ANN''"]]] demo_notify_inv .
qed

text \<open>The answer to ISON brings the list up to date: after numeric 303 a nick that takes part on the server is online there
  exactly when it is among the nicks of the message, and nothing changes for other servers or for entries that
  the server does not track.\<close>

theorem notify_markonline_correct:
  "list_all2 (\<lambda>n n'.
       n_name n' = n_name n \<and> n_account n' = n_account n \<and> n_networks n' = n_networks n \<and>
       (\<forall>sid. sid \<noteq> ns_id serv \<longrightarrow> online sid n' = online sid n) \<and>
       (case n_name n of
          None \<Rightarrow> n' = n
        | Some name \<Rightarrow>
            if tracked serv n
            then online (ns_id serv) n' \<longleftrightarrow> list_ex (\<lambda>w. p_cmp (ns_server serv) name w = 0) (ison_words word)
            else n' = n))
     (notify_list st) (notify_list (notify_markonline env serv word st))"
proof -
  let ?R = "\<lambda>n n'. entry_step serv (n_name n \<noteq> None)
    (list_ex (\<lambda>w. p_cmp (ns_server serv) (the (n_name n)) w = 0) (ison_words word)) n n'"
  have "list_all2 ?R (notify_list st) (notify_list (notify_markonline env serv word st))"
    using fold_entries [of "mark_entry env serv (ison_words word)" ?R st] mark_entry_step
    by (simp add: notify_markonline_def)
  then show ?thesis
    by (rule list_all2_mono) (auto simp: entry_step_def presence_set_def split: option.splits if_splits)
qed

theorem notify_markonline_correct_witness:
  "map (online 1) (notify_list (notify_markonline \<lparr>whois_online = False, now_time = 5\<rparr> (demo_serv False)
     [[], '':irc'', ''303'', ''me'', ''Eve'', []] demo_notify)) = [False, False, True] \<and>
   length (notify_list (notify_markonline \<lparr>whois_online = False, now_time = 5\<rparr> (demo_serv False)
     [[], '':irc'', ''303'', ''me'', ''Eve'', []] demo_notify)) = 3"
proof -
  let ?l = "notify_list (notify_markonline \<lparr>whois_online = False, now_time = 5\<rparr> (demo_serv False)
     [[], '':irc'', ''303'', ''me'', ''Eve'', []] demo_notify)"
  have "length ?l = length (notify_list demo_notify)"
    using list_all2_lengthD [OF notify_markonline_correct] by simp
  moreover have "map (online 1) ?l = [False, False, True]" by code_simp
  ultimately show ?thesis by (simp add: demo_notify_def)
qed



text \<open>At login the nicks to watch are announced completely: \<open>notify_send_watches\<close> sends lines of at most 510 bytes, none
  cut by the buffer, and the nicks in them are the watched nicks of the network, each once and in order.\<close>

theorem notify_send_watches_batches:
  assumes "notify_inv st"
  shows "\<exists>chunks. notify_send_watches serv st = n_emit (map (\<lambda>c. N_Raw (ns_id serv) (watch_line serv c)) chunks) st \<and>
     concat chunks = watched_names serv (notify_list st) \<and> (\<forall>c \<in> set chunks. length (watch_line serv c) \<le> 510)"
proof -
  have "\<forall>n \<in> set (watched_names serv (notify_list st)). watch_width serv n \<le> 500"
    using assms by (auto simp: watched_names_def notify_inv_def list_all_iff entry_inv_def watch_width_def NICKLEN_def)
  from send_watches_loop_batches [OF this, of 0 "[]" st] show ?thesis by (simp add: notify_send_watches_def)
qed

theorem notify_send_watches_batches_witness:
  "\<exists>chunks. notify_send_watches (demo_serv True) demo_notify =
       n_emit (map (\<lambda>c. N_Raw 1 (watch_line (demo_serv True) c)) chunks) demo_notify \<and>
     concat chunks = watched_names (demo_serv True) (notify_list demo_notify)"
  using notify_send_watches_batches [OF demo_notify_inv, of "demo_serv True"] unfolding demo_serv_id by blast

text \<open>The ISON request fits its 512 bytes when no nick is longer than 50 bytes; with nicks of 63 bytes, which the list
  accepts, eight of them overrun the buffer, because the length is checked only after a nick was appended.\<close>

theorem notify_ison_buffer:
  "((\<forall>n \<in> set (watched_names serv (notify_list st)). length n \<le> 50) \<longrightarrow> notify_checklist_for_server serv st \<noteq> None) \<and>
   notify_checklist_for_server (demo_serv False)
     (demo_notify\<lparr>notify_list := replicate 8 (demo_friend (replicate 63 (CHR ''x'')))\<rparr>) = None"
proof -
  have "(\<forall>n \<in> set (watched_names serv (notify_list st)). length n \<le> 50) \<longrightarrow> notify_checklist_for_server serv st \<noteq> None"
    using ison_loop_fits [of "watched_names serv (notify_list st)" "''ISON ''" False]
    by (auto simp: notify_checklist_for_server_def)
  moreover have "watched_names (demo_serv False) (replicate 8 (demo_friend m)) = replicate 8 m" for m
    using demo_friend_network [of m] by (simp add: watched_names_def) (simp add: demo_friend_def)
  ultimately show ?thesis
    using ison_loop_overrun [of "''ISON ''" "replicate 8 (replicate 63 (CHR ''x''))" False]
    by (simp add: notify_checklist_for_server_def)
qed

theorem notify_ison_buffer_witness: "notify_checklist_for_server (demo_serv False) demo_notify \<noteq> None"
proof -
  have "\<forall>n \<in> set (watched_names (demo_serv False) (notify_list demo_notify)). length n \<le> 50"
    by (auto simp: watched_names_def demo_notify_def demo_account_def demo_friend_def)
  with notify_ison_buffer [of "demo_serv False" demo_notify] show ?thesis by blast
qed

end
