(* ===== verification/Sendq.thy ===== *)
theory Sendq
  imports Prelude "HOL-Library.Sublist"
begin

text \<open>
  The outgoing side of \<open>src/src/common/server.c\<close>: the throttled queue of lines with four priorities, labels
  for labeled-response and the table of labels that wait for an answer, multi-line batches, and the sweep
  of stale labels and batches; and the splitting of received bytes into lines. Times are seconds of the wall clock,
  passed as \<open>now\<close>. \<open>wire\<close> is the list of lines given to \<open>server_send_real\<close>. \<open>queue_timers\<close> counts the timers
  registered for \<open>tcp_send_queue\<close>; the event loop drops one when its call returns 0. \<open>fe_confirmed\<close> logs the calls of
  \<open>fe_confirm_entry\<close>.
  The two hash tables are association lists (\<open>NULL\<close> is the empty one).
\<close>

section \<open>State\<close>

record pending_label_info =
  info_command :: string
  info_target :: "string option"
  info_sess :: "nat option"
  info_sent_time :: int
  info_entry_id :: nat

record batch_message =
  bm_prefix :: "string option"
  bm_command :: string
  bm_params :: "string list"
  bm_tags :: "(string \<times> string) list option"
  bm_timestamp :: int
  bm_msgid :: "string option"

record batch_info =
  bi_id :: string
  bi_type :: string
  bi_params :: "string list"
  bi_outer :: "string option"
  batch_label :: "string option"
  bi_msgid :: "string option"
  bi_chathistory_end :: bool
  bi_messages :: "batch_message list"
  batch_started :: int
  bi_server_time :: int

type_synonym queued = "nat \<times> string"

record sendq =
  sq_alive :: bool
  outbound_queue :: "queued list"
  sendq_len :: int
  next_send :: int
  prev_now :: int
  sq_end_of_motd :: bool
  batch_burst :: bool
  batch_burst_bytes :: int
  label_counter :: u32
  have_labeled_response :: bool
  pending_labels :: "(string \<times> pending_label_info) list"
  active_batches :: "(string \<times> batch_info) list"
  last_sent_label :: "string option"
  stale_sweep_timer :: bool
  wire :: "string list"
  queue_timers :: nat
  fe_confirmed :: "(nat \<times> nat \<times> string option) list"

text \<open>What a call depends on besides the server: \<open>g_ascii_strncasecmp\<close>, the preference \<open>net_throttle\<close>, the clock.\<close>

record net_env =
  ne_ncmp :: "string \<Rightarrow> string \<Rightarrow> nat \<Rightarrow> int"
  ne_throttle :: bool
  ne_now :: int

section \<open>The throttled queue\<close>

text \<open>The inner scan for the first buffer with the priority byte \<open>pri\<close>, and the queue without it.\<close>

fun next_of_pri :: "nat \<Rightarrow> queued list \<Rightarrow> (string \<times> queued list) option" where
  "next_of_pri pri [] = None"
| "next_of_pri pri ((p, buf) # list) =
     (if p = pri then Some (buf, list)
      else map_option (\<lambda>(b, rest). (b, (p, buf) # rest)) (next_of_pri pri list))"

text \<open>The seconds a line costs: what follows the first space counts.\<close>

definition line_cost :: "string \<Rightarrow> int" where
  "line_cost buf = 2 + int (length (dropWhile (\<lambda>c. c \<noteq> CHR '' '') buf) div 120)"

text \<open>\<open>next_send\<close> before a line is sent; \<open>None\<close> when the line has to wait. A clock that went backwards resets
  the throttle.\<close>

definition pace :: "int \<Rightarrow> sendq \<Rightarrow> int option" where
  "pace now st =
     (let ns = (if next_send st < now then now else next_send st)
      in if ns - now \<ge> 10 then (if now \<ge> prev_now st then None else Some now) else Some ns)"

definition send_one :: "int \<Rightarrow> int \<Rightarrow> string \<Rightarrow> queued list \<Rightarrow> sendq \<Rightarrow> sendq" where
  "send_one now ns buf rest st =
     st\<lparr>next_send := ns + line_cost (c_str buf),
        sendq_len := sendq_len st - int (length (c_str buf)),
        prev_now := now,
        wire := wire st @ [c_str buf],
        outbound_queue := rest\<rparr>"

lemma next_of_pri_length: "next_of_pri pri q = Some (b, r) \<Longrightarrow> length q = Suc (length r)"
  by (induction pri q arbitrary: r rule: next_of_pri.induct) (auto split: if_splits)

text \<open>The loops of \<open>tcp_send_queue\<close>: after a line the scan restarts with the same priority. The first component of the
  result is the returned flag: keep the timer.\<close>

function send_queue_from :: "int \<Rightarrow> nat \<Rightarrow> sendq \<Rightarrow> bool \<times> sendq" where
  "send_queue_from now pri st =
     (case next_of_pri pri (outbound_queue st) of
        None \<Rightarrow> (case pri of 0 \<Rightarrow> (False, st) | Suc p \<Rightarrow> send_queue_from now p st)
      | Some (buf, rest) \<Rightarrow>
          (case pace now st of
             None \<Rightarrow> (True, st)
           | Some ns \<Rightarrow> send_queue_from now pri (send_one now ns buf rest st)))"
  by pat_completeness auto
termination
  by (relation "measure (\<lambda>(now, pri, st). length (outbound_queue st) + pri)")
     (auto simp: send_one_def dest: next_of_pri_length)

declare send_queue_from.simps [simp del]

definition tcp_send_queue :: "int \<Rightarrow> sendq \<Rightarrow> bool \<times> sendq" where
  "tcp_send_queue now st = (if \<not> sq_alive st then (False, st) else send_queue_from now 3 st)"

text \<open>A call of the timer of the event loop.\<close>

definition queue_timer_fires :: "int \<Rightarrow> sendq \<Rightarrow> sendq" where
  "queue_timer_fires now st =
     (case tcp_send_queue now st of
        (keep, st') \<Rightarrow> if keep then st' else st'\<lparr>queue_timers := queue_timers st' - 1\<rparr>)"

text \<open>A MODE line that only asks: no \<open>+\<close> or \<open>-\<close> in the word behind the target.\<close>

definition mode_query :: "string \<Rightarrow> bool" where
  "mode_query line =
     (case c_strchr_at (dropWhile (\<lambda>c. c = CHR '' '') (drop 4 line)) (CHR '' '') of
        None \<Rightarrow> True
      | Some mode_str \<Rightarrow>
          (let w = takeWhile (\<lambda>c. c \<noteq> CHR '' '') (dropWhile (\<lambda>c. c = CHR '' '') mode_str)
           in CHR ''-'' \<notin> set w \<and> CHR ''+'' \<notin> set w))"

text \<open>The priority byte; \<open>ncmp\<close> is \<open>g_ascii_strncasecmp\<close>.\<close>

definition line_priority :: "(string \<Rightarrow> string \<Rightarrow> nat \<Rightarrow> int) \<Rightarrow> string \<Rightarrow> nat" where
  "line_priority ncmp line =
     (if ncmp line ''PRIVMSG'' 7 = 0 \<or> ncmp line ''NOTICE'' 6 = 0 then 2
      else if ncmp line ''CHATHISTORY '' 12 = 0 \<or> chd line = CHR ''@'' \<and> sublist '' CHATHISTORY '' line then 1
      else if ncmp line ''WHO '' 4 = 0 \<or> ncmp line ''MARKREAD '' 9 = 0 then 0
      else if ncmp line ''MODE '' 5 = 0 \<and> mode_query line then 0
      else 3)"

definition server_send_real :: "string \<Rightarrow> sendq \<Rightarrow> sendq" where
  "server_send_real buf st = st\<lparr>wire := wire st @ [buf]\<rparr>"

text \<open>\<open>bytes\<close> are the \<open>len\<close> bytes at \<open>buf\<close>.\<close>

definition tcp_send_len :: "net_env \<Rightarrow> string \<Rightarrow> sendq \<Rightarrow> sendq" where
  "tcp_send_len env bytes st =
     (if \<not> ne_throttle env \<or> \<not> sq_end_of_motd st \<or> batch_burst st then
        server_send_real bytes
          (if batch_burst st then st\<lparr>batch_burst_bytes := batch_burst_bytes st + int (length bytes)\<rparr> else st)
      else
        (let noqueue = (outbound_queue st = []);
             st1 = st\<lparr>outbound_queue := outbound_queue st @ [(line_priority (ne_ncmp env) (c_str bytes), bytes)],
                      sendq_len := sendq_len st + int (length bytes)\<rparr>
         in case tcp_send_queue (ne_now env) st1 of
              (keep, st2) \<Rightarrow>
                if keep \<and> noqueue then st2\<lparr>queue_timers := queue_timers st2 + 1\<rparr> else st2))"

definition server_flush_queue :: "sendq \<Rightarrow> sendq" where
  "server_flush_queue st = st\<lparr>outbound_queue := [], sendq_len := 0\<rparr>"

section \<open>Formatted lines, labels, batches\<close>

text \<open>The bytes sent for a formatted text \<open>s\<close>: \<open>g_vsnprintf\<close> with the size \<open>n\<close> writes \<open>n - 1\<close> bytes and a terminator and
  returns the full length, which is taken as the number of bytes to send unless it exceeds \<open>lim\<close>.\<close>

definition printed :: "nat \<Rightarrow> nat \<Rightarrow> string \<Rightarrow> string" where
  "printed n lim s =
     (let b = take (n - 1) s; len = (if length s > lim then length b else length s)
      in take len (b @ [NUL]))"

definition tcp_sendf :: "net_env \<Rightarrow> string \<Rightarrow> sendq \<Rightarrow> sendq" where
  "tcp_sendf env s st = tcp_send_len env (printed 1539 1539 s) st"

definition label_text :: "u32 \<Rightarrow> string" where
  "label_text counter = ''hc'' @ dec_string (unat counter)"

definition tcp_generate_label :: "sendq \<Rightarrow> string \<times> sendq" where
  "tcp_generate_label st = (label_text (label_counter st), st\<lparr>label_counter := label_counter st + 1\<rparr>)"

definition tcp_vsendf_labeled :: "net_env \<Rightarrow> string \<Rightarrow> sendq \<Rightarrow> string option \<times> sendq" where
  "tcp_vsendf_labeled env s st =
     (if \<not> have_labeled_response st then (None, tcp_send_len env (printed 1539 1539 s) st)
      else
        (case tcp_generate_label st of
           (label, st1) \<Rightarrow>
             (Some label, tcp_send_len env (printed 1600 1599 (''@label='' @ label @ '' '' @ take 1538 s)) st1)))"

definition tcp_vsendf_labeled_with_tags ::
    "net_env \<Rightarrow> string option \<Rightarrow> string \<Rightarrow> sendq \<Rightarrow> string option \<times> sendq" where
  "tcp_vsendf_labeled_with_tags env extra_tags s st =
     (let tags = (case extra_tags of None \<Rightarrow> [] | Some t \<Rightarrow> t)
      in if \<not> have_labeled_response st then
           (None,
            if tags \<noteq> [] then tcp_send_len env (printed 1600 1599 (''@'' @ tags @ '' '' @ take 1538 s)) st
            else tcp_send_len env (printed 1539 1539 s) st)
         else
           (case tcp_generate_label st of
              (label, st1) \<Rightarrow>
                (Some label,
                 tcp_send_len env
                   (printed 1600 1599
                      (if tags \<noteq> [] then ''@label='' @ label @ '';'' @ tags @ '' '' @ take 1538 s
                       else ''@label='' @ label @ '' '' @ take 1538 s)) st1)))"

definition tcp_sendf_labeled :: "net_env \<Rightarrow> string \<Rightarrow> sendq \<Rightarrow> string option \<times> sendq" where
  "tcp_sendf_labeled env s st = tcp_vsendf_labeled env s st"

definition server_ensure_stale_sweep_timer :: "sendq \<Rightarrow> sendq" where
  "server_ensure_stale_sweep_timer st = (if \<not> stale_sweep_timer st then st\<lparr>stale_sweep_timer := True\<rparr> else st)"

text \<open>The tracking of a label, the same in the four functions that send labelled commands.\<close>

definition track_label :: "net_env \<Rightarrow> string \<Rightarrow> string option \<Rightarrow> string option \<times> sendq \<Rightarrow> string option \<times> sendq" where
  "track_label env command target r =
     (case r of
        (None, st) \<Rightarrow> (None, st)
      | (Some label, st) \<Rightarrow>
          (Some label,
           server_ensure_stale_sweep_timer
             (st\<lparr>pending_labels := ht_insert label
                   \<lparr>info_command = command, info_target = target, info_sess = None, info_sent_time = ne_now env,
                     info_entry_id = 0\<rparr> (pending_labels st),
                 last_sent_label := Some label\<rparr>)))"

definition tcp_sendf_labeled_tracked ::
    "net_env \<Rightarrow> string \<Rightarrow> string option \<Rightarrow> string \<Rightarrow> sendq \<Rightarrow> string option \<times> sendq" where
  "tcp_sendf_labeled_tracked env command target s st =
     track_label env command target (tcp_vsendf_labeled env s st)"

definition tcp_sendf_with_tags ::
    "net_env \<Rightarrow> string \<Rightarrow> string option \<Rightarrow> string \<Rightarrow> string \<Rightarrow> string \<Rightarrow> sendq \<Rightarrow> string option \<times> sendq" where
  "tcp_sendf_with_tags env command target tag_key tag_value s st =
     track_label env command target
       (tcp_vsendf_labeled_with_tags env (Some (tag_key @ ''='' @ tag_value)) s st)"

definition tcp_sendf_with_raw_tags ::
    "net_env \<Rightarrow> string \<Rightarrow> string option \<Rightarrow> string option \<Rightarrow> string \<Rightarrow> sendq \<Rightarrow> string option \<times> sendq" where
  "tcp_sendf_with_raw_tags env command target extra_tags s st =
     track_label env command target (tcp_vsendf_labeled_with_tags env extra_tags s st)"

abbreviation crlf :: string where
  "crlf \<equiv> [CHR 0x0D, CHR 0x0A]"

definition tcp_batch_open_multiline :: "net_env \<Rightarrow> string \<Rightarrow> sendq \<Rightarrow> string \<times> sendq" where
  "tcp_batch_open_multiline env target st =
     (let batch_tag = ''hcb'' @ dec_string (unat (label_counter st));
          st1 = st\<lparr>label_counter := label_counter st + 1, batch_burst := True, batch_burst_bytes := 0\<rparr>
      in (batch_tag,
          snd (track_label env ''BATCH'' (Some target)
                 (tcp_sendf_labeled env (''BATCH +'' @ batch_tag @ '' draft/multiline '' @ target @ crlf) st1))))"

definition tcp_batch_privmsg :: "net_env \<Rightarrow> string \<Rightarrow> string \<Rightarrow> string \<Rightarrow> sendq \<Rightarrow> sendq" where
  "tcp_batch_privmsg env batch_tag target msg st =
     tcp_sendf env (''@batch='' @ batch_tag @ '' PRIVMSG '' @ target @ '' :'' @ msg @ crlf) st"

definition tcp_batch_close :: "net_env \<Rightarrow> string \<Rightarrow> sendq \<Rightarrow> sendq" where
  "tcp_batch_close env batch_tag st =
     (let st1 = tcp_sendf env (''BATCH -'' @ batch_tag @ crlf) st
      in if batch_burst st1 then
           st1\<lparr>batch_burst := False,
               next_send := (if next_send st1 < ne_now env then ne_now env else next_send st1) +
                 (2 + batch_burst_bytes st1 div 120),
               batch_burst_bytes := 0\<rparr>
         else st1)"

definition STALE_LABEL_TIMEOUT :: int where "STALE_LABEL_TIMEOUT = 60"
definition STALE_BATCH_TIMEOUT :: int where "STALE_BATCH_TIMEOUT = 120"

text \<open>\<open>check_stale_label\<close> and \<open>check_stale_batch\<close> select the keys that are too old.\<close>

definition check_stale_label :: "int \<Rightarrow> pending_label_info \<Rightarrow> bool" where
  "check_stale_label now info \<longleftrightarrow> now - info_sent_time info > STALE_LABEL_TIMEOUT"

definition check_stale_batch :: "int \<Rightarrow> batch_info \<Rightarrow> bool" where
  "check_stale_batch now batch \<longleftrightarrow> now - batch_started batch > STALE_BATCH_TIMEOUT"

text \<open>Removing a stale batch also drops the label it answers.\<close>

definition sweep_batch :: "string \<Rightarrow> sendq \<Rightarrow> sendq" where
  "sweep_batch batch_id st =
     (let st1 = (case map_of (active_batches st) batch_id of
                   None \<Rightarrow> st
                 | Some batch \<Rightarrow>
                     (case batch_label batch of
                        None \<Rightarrow> st
                      | Some l \<Rightarrow> st\<lparr>pending_labels := ht_remove l (pending_labels st)\<rparr>))
      in st1\<lparr>active_batches := ht_remove batch_id (active_batches st1)\<rparr>)"

definition stale_sweep_cb :: "int \<Rightarrow> sendq \<Rightarrow> bool \<times> sendq" where
  "stale_sweep_cb now st =
     (let stale_labels = map fst (filter (\<lambda>(k, i). check_stale_label now i) (pending_labels st));
          st1 = st\<lparr>pending_labels := fold ht_remove stale_labels (pending_labels st)\<rparr>;
          have_labels = (pending_labels st1 \<noteq> []);
          stale_keys = map fst (filter (\<lambda>(k, b). check_stale_batch now b) (active_batches st1));
          st2 = fold sweep_batch stale_keys st1;
          have_entries = (have_labels \<or> active_batches st2 \<noteq> [])
      in if \<not> have_entries then (False, st2\<lparr>stale_sweep_timer := False\<rparr>) else (True, st2))"

section \<open>Received bytes\<close>

text \<open>\<open>linebuf\<close> up to \<open>pos\<close>, and the lines given to \<open>server_inline\<close>.\<close>

record linebuf =
  lb_buf :: string
  lb_lines :: "string list"

definition LINEBUF_SIZE :: nat where "LINEBUF_SIZE = 8704"

definition read_char :: "char \<Rightarrow> linebuf \<Rightarrow> linebuf" where
  "read_char c lb =
     (if c = CHR 0x0D then lb
      else if c = CHR 0x0A then \<lparr>lb_buf = [], lb_lines = lb_lines lb @ [lb_buf lb]\<rparr>
      else if length (lb_buf lb) \<ge> LINEBUF_SIZE - 1 then lb
      else lb\<lparr>lb_buf := lb_buf lb @ [c]\<rparr>)"

definition server_read :: "string \<Rightarrow> linebuf \<Rightarrow> linebuf" where
  "server_read received lb = fold read_char received lb"

section \<open>Base64 for proxy authentication\<close>

definition tab64 :: string where
  "tab64 = ''ABCDEFGHIJKLMNOPQRSTUVWXYZabcdefghijklmnopqrstuvwxyz0123456789+/''"

definition three_to_four :: "char \<Rightarrow> char \<Rightarrow> char \<Rightarrow> string" where
  "three_to_four a b c =
     [tab64 ! nat (drop_bit 2 (schar a) AND 63),
      tab64 ! nat ((push_bit 4 (schar a) OR drop_bit 4 (schar b)) AND 63),
      tab64 ! nat ((push_bit 2 (schar b) OR drop_bit 6 (schar c)) AND 63),
      tab64 ! nat (schar c AND 63)]"

fun base64_encode :: "string \<Rightarrow> string" where
  "base64_encode (a # b # c # rest) = three_to_four a b c @ base64_encode rest"
| "base64_encode [a, b] = take 3 (three_to_four a b NUL) @ ''=''"
| "base64_encode [a] = take 2 (three_to_four a NUL NUL) @ ''==''"
| "base64_encode [] = []"

section \<open>Order, pace and progress of the queue\<close>

definition by_pri :: "nat \<Rightarrow> queued list \<Rightarrow> string list" where
  "by_pri p q = map (c_str \<circ> snd) (filter (\<lambda>x. fst x = p) q)"

text \<open>The order in which a queue is to be sent: by falling priority, first come first served within one.\<close>

definition send_order :: "queued list \<Rightarrow> string list" where
  "send_order q = by_pri 3 q @ by_pri 2 q @ by_pri 1 q @ by_pri 0 q"

definition queue_ok :: "queued list \<Rightarrow> bool" where
  "queue_ok q \<longleftrightarrow> list_all (\<lambda>x. fst x \<le> 3 \<and> cstring (snd x)) q"

definition total_cost :: "string list \<Rightarrow> int" where
  "total_cost ls = sum_list (map line_cost ls)"

definition queue_bytes :: "queued list \<Rightarrow> int" where
  "queue_bytes q = sum_list (map (int \<circ> length \<circ> snd) q)"

lemma line_cost_ge: "2 \<le> line_cost l"
  by (simp add: line_cost_def)

lemma total_cost_simps [simp]:
  "total_cost [] = 0" "total_cost (l # ls) = line_cost l + total_cost ls"
  "total_cost (ls @ ls') = total_cost ls + total_cost ls'"
  by (simp_all add: total_cost_def)

lemma total_cost_ge: "2 * int (length ls) \<le> total_cost ls"
proof (induction ls)
  case (Cons l ls)
  then show ?case using line_cost_ge [of l] by simp
qed simp

lemma by_pri_simps [simp]:
  "by_pri p [] = []"
  "by_pri p (x # q) = (if fst x = p then [c_str (snd x)] else []) @ by_pri p q"
  "by_pri p (q @ q') = by_pri p q @ by_pri p q'"
  by (simp_all add: by_pri_def)

lemma next_of_pri_None: "next_of_pri p q = None \<longleftrightarrow> by_pri p q = []"
  by (induction p q rule: next_of_pri.induct) auto

lemma next_of_pri_Some:
  "next_of_pri p q = Some (b, r) \<Longrightarrow>
     by_pri p q = c_str b # by_pri p r \<and> (\<forall>p'. p' \<noteq> p \<longrightarrow> by_pri p' q = by_pri p' r) \<and>
     (queue_ok q \<longrightarrow> queue_ok r \<and> cstring b) \<and> queue_bytes q = int (length b) + queue_bytes r"
proof (induction p q arbitrary: b r rule: next_of_pri.induct)
  case (2 pri p buf list)
  show ?case
  proof (cases "p = pri")
    case True
    with "2.prems" show ?thesis by (auto simp: queue_ok_def queue_bytes_def)
  next
    case False
    with "2.prems" obtain r' where r: "next_of_pri pri list = Some (b, r')" "r = (p, buf) # r'" by auto
    with "2.IH" [OF False r(1)] False show ?thesis by (auto simp: queue_ok_def queue_bytes_def)
  qed
qed simp

lemma send_order_empty: "queue_ok q \<Longrightarrow> send_order q = [] \<longleftrightarrow> q = []"
proof (cases q)
  case (Cons x q')
  assume "queue_ok q"
  then have "fst x = 0 \<or> fst x = 1 \<or> fst x = 2 \<or> fst x = 3" using Cons by (auto simp: queue_ok_def)
  then show ?thesis using Cons by (auto simp: send_order_def)
qed (simp add: send_order_def)

text \<open>The line that is sent next.\<close>

lemma send_order_pick:
  assumes "\<forall>p > pri. by_pri p q = []" "pri \<le> 3" "next_of_pri pri q = Some (b, r)"
  shows "send_order q = c_str b # send_order r" "\<forall>p > pri. by_pri p r = []"
proof -
  note n = next_of_pri_Some [OF assms(3)]
  have "pri = 0 \<or> pri = 1 \<or> pri = 2 \<or> pri = 3" using assms(2) by auto
  then show "send_order q = c_str b # send_order r"
    using n assms(1) by (elim disjE) (simp_all add: send_order_def)
  show "\<forall>p > pri. by_pri p r = []" using n assms(1) by auto
qed

text \<open>The fields that sending from the queue leaves alone.\<close>

definition frame :: "sendq \<Rightarrow> sendq" where
  "frame st = st\<lparr>outbound_queue := [], wire := [], sendq_len := 0, next_send := 0, prev_now := 0\<rparr>"

lemma frame_eqD:
  assumes "frame st' = frame st"
  shows "sq_alive st' = sq_alive st" "sq_end_of_motd st' = sq_end_of_motd st" "batch_burst st' = batch_burst st"
    "batch_burst_bytes st' = batch_burst_bytes st" "label_counter st' = label_counter st"
    "have_labeled_response st' = have_labeled_response st" "pending_labels st' = pending_labels st"
    "active_batches st' = active_batches st" "last_sent_label st' = last_sent_label st"
    "stale_sweep_timer st' = stale_sweep_timer st" "queue_timers st' = queue_timers st"
  using assms by (cases st; cases st'; simp add: frame_def)+

lemma frame_send_one [simp]: "frame (send_one now ns b r st) = frame st"
  by (simp add: frame_def send_one_def)

lemma send_queue_frame: "frame (snd (send_queue_from now pri st)) = frame st"
proof (induction now pri st rule: send_queue_from.induct)
  case (1 now pri st)
  then show ?case by (subst send_queue_from.simps) (auto split: option.splits nat.splits)
qed

text \<open>What one pass of the queue did.\<close>

definition pass_result :: "int \<Rightarrow> sendq \<Rightarrow> bool \<Rightarrow> sendq \<Rightarrow> string list \<Rightarrow> bool" where
  "pass_result now st keep st' sent \<longleftrightarrow>
     send_order (outbound_queue st) = sent @ send_order (outbound_queue st') \<and>
     wire st' = wire st @ sent \<and> frame st' = frame st \<and>
     sendq_len st' = sendq_len st - sum_list (map (int \<circ> length) sent) \<and>
     queue_ok (outbound_queue st') \<and>
     queue_bytes (outbound_queue st) = sum_list (map (int \<circ> length) sent) + queue_bytes (outbound_queue st') \<and>
     (keep \<longleftrightarrow> outbound_queue st' \<noteq> []) \<and>
     (if sent = [] then next_send st' = next_send st \<and> prev_now st' = prev_now st
      else next_send st' = max (next_send st) now + total_cost sent \<and>
           next_send st' < now + 10 + line_cost (last sent) \<and> prev_now st' = now) \<and>
     (keep \<longrightarrow> now + 10 \<le> next_send st')"

lemma pass_result_Cons:
  assumes ns: "ns = max (next_send st) now" "ns < now + 10"
    and o: "send_order (outbound_queue st) = c_str b # send_order r"
    and n: "queue_bytes (outbound_queue st) = int (length b) + queue_bytes r"
    and cb: "cstring b"
    and p: "pass_result now (send_one now ns b r st) keep st' sent"
    and m: "max (ns + line_cost b) now = ns + line_cost b"
  shows "pass_result now st keep st' (c_str b # sent)"
proof -
  let ?st1 = "send_one now ns b r st"
  have f: "outbound_queue ?st1 = r" "wire ?st1 = wire st @ [b]" "sendq_len ?st1 = sendq_len st - int (length b)"
    "next_send ?st1 = ns + line_cost b" "prev_now ?st1 = now"
    using cb by (simp_all add: send_one_def)
  note p' = p [unfolded pass_result_def f frame_send_one]
  show ?thesis
  proof (cases "sent = []")
    case True
    with p' ns o n cb show ?thesis by (clarsimp simp: pass_result_def)
  next
    case False
    with p' ns o n cb m show ?thesis by (clarsimp simp: pass_result_def)
  qed
qed

lemma send_queue_from_result:
  assumes "prev_now st \<le> now" "queue_ok (outbound_queue st)" "pri \<le> 3" "\<forall>p > pri. by_pri p (outbound_queue st) = []"
  shows "\<exists>sent. pass_result now st (fst (send_queue_from now pri st)) (snd (send_queue_from now pri st)) sent"
  using assms
proof (induction now pri st rule: send_queue_from.induct)
  case (1 now pri st)
  show ?case
  proof (cases "next_of_pri pri (outbound_queue st)")
    case None
    show ?thesis
    proof (cases pri)
      case 0
      have "send_order (outbound_queue st) = []"
        using "1.prems"(4) None 0 by (simp add: send_order_def next_of_pri_None)
      then have "outbound_queue st = []" using send_order_empty "1.prems"(2) by blast
      then show ?thesis using None 0 "1.prems"
        by (intro exI [of _ "[]"]) (simp add: send_queue_from.simps pass_result_def)
    next
      case (Suc p)
      have "\<forall>p' > p. by_pri p' (outbound_queue st) = []"
        using "1.prems"(4) None Suc unfolding next_of_pri_None by (metis Suc_lessI)
      then have "\<exists>sent. pass_result now st (fst (send_queue_from now p st)) (snd (send_queue_from now p st)) sent"
        using "1.IH"(1) [OF None Suc] "1.prems" Suc by simp
      then show ?thesis using None Suc by (simp add: send_queue_from.simps [of now "Suc p"])
    qed
  next
    case (Some br)
    obtain b r where br: "next_of_pri pri (outbound_queue st) = Some (b, r)" using Some by (cases br) auto
    note n = next_of_pri_Some [OF br] and o = send_order_pick [OF "1.prems"(4,3) br]
    have ne: "outbound_queue st \<noteq> []" using br by auto
    show ?thesis
    proof (cases "pace now st")
      case None
      then have "now + 10 \<le> next_send st" by (auto simp: pace_def Let_def split: if_splits)
      then show ?thesis using None br "1.prems" ne
        by (intro exI [of _ "[]"]) (simp add: send_queue_from.simps pass_result_def)
    next
      case (Some ns)
      let ?st1 = "send_one now ns b r st"
      have ns: "ns = max (next_send st) now" "ns < now + 10"
        using Some "1.prems"(1) by (auto simp: pace_def Let_def split: if_splits)
      have cb: "cstring b" and qr: "queue_ok r" using n "1.prems"(2) by auto
      have "\<exists>sent. pass_result now ?st1 (fst (send_queue_from now pri ?st1)) (snd (send_queue_from now pri ?st1)) sent"
        using "1.IH"(2) [OF br refl Some] o(2) qr "1.prems"(3) by (simp add: send_one_def)
      then obtain sent where p: "pass_result now ?st1 (fst (send_queue_from now pri ?st1)) (snd (send_queue_from now pri ?st1)) sent"
        by blast
      have "max (ns + line_cost b) now = ns + line_cost b" using ns(1) line_cost_ge [of b] by simp
      then have "pass_result now st (fst (send_queue_from now pri ?st1)) (snd (send_queue_from now pri ?st1)) (c_str b # sent)"
        using p by (rule pass_result_Cons [OF ns o(1) n [THEN conjunct2, THEN conjunct2, THEN conjunct2] cb, rotated])
      then show ?thesis using Some br by (auto simp: send_queue_from.simps [of now pri st])
    qed
  qed
qed

lemma tcp_send_queue_result:
  assumes "prev_now st \<le> now" "queue_ok (outbound_queue st)" "sq_alive st"
  shows "\<exists>sent. pass_result now st (fst (tcp_send_queue now st)) (snd (tcp_send_queue now st)) sent"
proof -
  have "\<forall>p > 3. by_pri p (outbound_queue st) = []"
    using assms(2) by (auto simp: by_pri_def queue_ok_def list_all_iff filter_empty_conv)
  then show ?thesis using send_queue_from_result [OF assms(1,2)] assms(3) by (simp add: tcp_send_queue_def)
qed

section \<open>The invariant of the outgoing side\<close>

text \<open>Besides the queue: a line that waits has a timer that will send it, a table with entries has the sweep timer,
  and labels and batches are keys of their tables once.\<close>

definition sendq_inv :: "sendq \<Rightarrow> bool" where
  "sendq_inv st \<longleftrightarrow>
     sq_alive st \<and> queue_ok (outbound_queue st) \<and> sendq_len st = queue_bytes (outbound_queue st) \<and>
     (outbound_queue st \<noteq> [] \<longrightarrow> 0 < queue_timers st) \<and>
     (pending_labels st \<noteq> [] \<or> active_batches st \<noteq> [] \<longrightarrow> stale_sweep_timer st) \<and>
     distinct (map fst (pending_labels st)) \<and> distinct (map fst (active_batches st))"

lemma line_priority_le: "line_priority ncmp l \<le> 3"
  by (simp add: line_priority_def)

lemma queue_ok_Nil [simp]: "queue_ok []"
  by (simp add: queue_ok_def)

lemma queue_append [simp]:
  "queue_ok (q @ [x]) \<longleftrightarrow> queue_ok q \<and> fst x \<le> 3 \<and> cstring (snd x)"
  "queue_bytes (q @ [x]) = queue_bytes q + int (length (snd x))"
  by (auto simp: queue_ok_def queue_bytes_def)

text \<open>The queue with a new line, before it is worked on.\<close>

definition enqueue :: "net_env \<Rightarrow> string \<Rightarrow> sendq \<Rightarrow> sendq" where
  "enqueue env b st =
     st\<lparr>outbound_queue := outbound_queue st @ [(line_priority (ne_ncmp env) (c_str b), b)],
        sendq_len := sendq_len st + int (length b)\<rparr>"

definition throttled :: "net_env \<Rightarrow> sendq \<Rightarrow> bool" where
  "throttled env st \<longleftrightarrow> ne_throttle env \<and> sq_end_of_motd st \<and> \<not> batch_burst st"

lemma tcp_send_len_throttled:
  assumes "throttled env st"
  shows "tcp_send_len env b st =
     (let r = tcp_send_queue (ne_now env) (enqueue env b st)
      in if fst r \<and> outbound_queue st = [] then (snd r)\<lparr>queue_timers := queue_timers (snd r) + 1\<rparr> else snd r)"
  using assms by (simp add: tcp_send_len_def throttled_def enqueue_def Let_def split: prod.split)

lemma enqueue_fields [simp]:
  "frame (enqueue env b st) = frame st" "wire (enqueue env b st) = wire st" "next_send (enqueue env b st) = next_send st"
  "prev_now (enqueue env b st) = prev_now st" "sq_alive (enqueue env b st) = sq_alive st"
  by (simp_all add: enqueue_def frame_def)

lemma enqueue_queue:
  "cstring b \<Longrightarrow> queue_ok (outbound_queue st) \<Longrightarrow> queue_ok (outbound_queue (enqueue env b st))"
  "cstring b \<Longrightarrow> sendq_len st = queue_bytes (outbound_queue st) \<Longrightarrow>
     sendq_len (enqueue env b st) = queue_bytes (outbound_queue (enqueue env b st))"
  by (simp_all add: enqueue_def line_priority_le)

lemma enqueue_result:
  assumes "prev_now st \<le> ne_now env" "queue_ok (outbound_queue st)" "sq_alive st" "cstring b" "throttled env st"
  obtains keep st' sent where "tcp_send_queue (ne_now env) (enqueue env b st) = (keep, st')"
    "pass_result (ne_now env) (enqueue env b st) keep st' sent"
    "tcp_send_len env b st =
       (if keep \<and> outbound_queue st = [] then st'\<lparr>queue_timers := queue_timers st' + 1\<rparr> else st')"
proof -
  obtain keep st' where r: "tcp_send_queue (ne_now env) (enqueue env b st) = (keep, st')" by fastforce
  with tcp_send_queue_result [of "enqueue env b st" "ne_now env"] assms enqueue_queue(1) [of b st env]
  obtain sent where "pass_result (ne_now env) (enqueue env b st) keep st' sent" by auto
  from that [OF r this] show ?thesis by (simp add: tcp_send_len_throttled [OF assms(5)] r Let_def)
qed

lemma pass_inv:
  assumes "pass_result now st keep st' sent" "sq_alive st"
    and "sendq_len st = queue_bytes (outbound_queue st)" "keep \<Longrightarrow> 0 < queue_timers st"
    and "pending_labels st \<noteq> [] \<or> active_batches st \<noteq> [] \<longrightarrow> stale_sweep_timer st"
    and "distinct (map fst (pending_labels st))" "distinct (map fst (active_batches st))"
  shows "sendq_inv st'"
proof -
  have "frame st' = frame st" using assms(1) by (simp add: pass_result_def)
  note f = frame_eqD [OF this]
  have "sendq_len st' = queue_bytes (outbound_queue st')" "queue_ok (outbound_queue st')"
    "outbound_queue st' \<noteq> [] \<longrightarrow> keep" using assms(1,3) by (simp_all add: pass_result_def)
  with assms f show ?thesis by (simp add: sendq_inv_def)
qed

lemma tcp_send_len_inv:
  assumes "sendq_inv st" "prev_now st \<le> ne_now env" "cstring b"
  shows "sendq_inv (tcp_send_len env b st)"
proof (cases "throttled env st")
  case True
  note i = assms(1) [unfolded sendq_inv_def]
  obtain keep st' sent where r: "pass_result (ne_now env) (enqueue env b st) keep st' sent"
    "tcp_send_len env b st = (if keep \<and> outbound_queue st = [] then st'\<lparr>queue_timers := queue_timers st' + 1\<rparr> else st')"
    using enqueue_result [of st env b] assms i True by metis
  let ?e = "\<lambda>n. (enqueue env b st)\<lparr>queue_timers := n\<rparr>"
  have fr: "frame st' = frame st" using r(1) by (simp add: pass_result_def)
  note f = frame_eqD [OF fr]
  have q: "sendq_len st' = queue_bytes (outbound_queue st')" "queue_ok (outbound_queue st')"
    "keep \<longleftrightarrow> outbound_queue st' \<noteq> []"
    using r(1) i assms(3) enqueue_queue(2) [of b st env] by (simp_all add: pass_result_def)
  show ?thesis using q f i by (auto simp: r(2) sendq_inv_def)
next
  case False
  then show ?thesis
    using assms(1) by (auto simp: tcp_send_len_def throttled_def server_send_real_def sendq_inv_def)
qed

lemma queue_timer_fires_inv:
  assumes "sendq_inv st" "prev_now st \<le> now" "0 < queue_timers st"
  shows "sendq_inv (queue_timer_fires now st)"
proof -
  note i = assms(1) [unfolded sendq_inv_def]
  obtain keep st' where r: "tcp_send_queue now st = (keep, st')" by fastforce
  then obtain sent where p: "pass_result now st keep st' sent" using tcp_send_queue_result [of st now] i assms by auto
  then have "sendq_inv st'" by (rule pass_inv) (use i assms(3) in auto)
  moreover have "keep \<longleftrightarrow> outbound_queue st' \<noteq> []" using p by (simp add: pass_result_def)
  ultimately show ?thesis using r by (simp add: queue_timer_fires_def sendq_inv_def)
qed

lemma queue_timer_fires_prev_now:
  assumes "sendq_inv st" "prev_now st \<le> now"
  shows "prev_now (queue_timer_fires now st) \<le> now"
proof -
  obtain keep st' where r: "tcp_send_queue now st = (keep, st')" by fastforce
  then obtain sent where "pass_result now st keep st' sent"
    using tcp_send_queue_result [of st now] assms by (auto simp: sendq_inv_def)
  then have "prev_now st' \<le> now" using assms(2) by (auto simp: pass_result_def split: if_splits)
  then show ?thesis using r by (simp add: queue_timer_fires_def)
qed

lemma tcp_send_len_prev_now:
  assumes "sendq_inv st" "prev_now st \<le> ne_now env" "cstring b"
  shows "prev_now (tcp_send_len env b st) \<le> ne_now env"
proof (cases "throttled env st")
  case True
  obtain keep st' sent where r: "pass_result (ne_now env) (enqueue env b st) keep st' sent"
    "tcp_send_len env b st = (if keep \<and> outbound_queue st = [] then st'\<lparr>queue_timers := queue_timers st' + 1\<rparr> else st')"
    using enqueue_result [of st env b] assms True unfolding sendq_inv_def by metis
  then have "prev_now st' \<le> ne_now env" using assms(2) by (auto simp: pass_result_def split: if_splits)
  then show ?thesis by (simp add: r(2))
next
  case False
  then show ?thesis using assms(2) by (auto simp: tcp_send_len_def throttled_def server_send_real_def)
qed

text \<open>The state a step must find and leave behind.\<close>

definition sendq_at :: "int \<Rightarrow> sendq \<Rightarrow> bool" where
  "sendq_at now st \<longleftrightarrow> sendq_inv st \<and> prev_now st \<le> now"

lemma tcp_send_len_at: "sendq_at (ne_now env) st \<Longrightarrow> cstring b \<Longrightarrow> sendq_at (ne_now env) (tcp_send_len env b st)"
  by (simp add: sendq_at_def tcp_send_len_inv tcp_send_len_prev_now)

text \<open>A formatted text that the buffers hold without a stray terminator.\<close>

lemma printed_cstring: "cstring s \<Longrightarrow> length s < n \<or> lim < length s \<Longrightarrow> cstring (printed n lim s)"
  by (auto simp: printed_def Let_def cstring_def dest: in_set_takeD)

lemma cstring_take: "cstring s \<Longrightarrow> cstring (take n s)"
  by (auto simp: cstring_def dest: in_set_takeD)

lemma cstring_dec_string: "cstring (dec_string n)"
  using dec_string_digits [of n] by (auto simp: cstring_def list_all_iff is_digit_def)

lemma sendq_at_counter: "sendq_at now (st\<lparr>label_counter := c\<rparr>) \<longleftrightarrow> sendq_at now st"
  by (simp add: sendq_at_def sendq_inv_def)

lemma printed_send: "cstring s \<Longrightarrow> cstring (printed 1600 1599 s)"
  by (rule printed_cstring) auto

lemma printed_command: "cstring s \<Longrightarrow> length s \<noteq> 1539 \<Longrightarrow> cstring (printed 1539 1539 s)"
  by (rule printed_cstring) auto

lemma vsendf_labeled_at:
  assumes "sendq_at (ne_now env) st" "cstring s" "length s \<noteq> 1539"
  shows "sendq_at (ne_now env) (snd (tcp_vsendf_labeled env s st))"
  using assms tcp_send_len_at printed_command printed_send
  by (auto simp: tcp_vsendf_labeled_def tcp_generate_label_def label_text_def sendq_at_counter cstring_take cstring_dec_string)

lemma vsendf_labeled_with_tags_at:
  assumes "sendq_at (ne_now env) st" "cstring s" "length s \<noteq> 1539" "\<forall>t. extra = Some t \<longrightarrow> cstring t"
  shows "sendq_at (ne_now env) (snd (tcp_vsendf_labeled_with_tags env extra s st))"
  using assms tcp_send_len_at printed_command printed_send
  by (cases extra)
     (auto simp: tcp_vsendf_labeled_with_tags_def tcp_generate_label_def label_text_def sendq_at_counter Let_def
        cstring_take cstring_dec_string)

lemma ht_keys: "map fst (ht_remove k t) = filter (\<lambda>x. x \<noteq> k) (map fst t)"
  by (induction t) (auto simp: ht_remove_def)

lemma ht_distinct: "distinct (map fst t) \<Longrightarrow> distinct (map fst (ht_remove k t))"
  "distinct (map fst t) \<Longrightarrow> distinct (map fst (ht_insert k v t))"
  by (simp_all add: ht_keys ht_insert_def)

lemma ht_distinct_fold: "distinct (map fst t) \<Longrightarrow> distinct (map fst (fold ht_remove ks t))"
  by (induction ks arbitrary: t) (auto simp: ht_distinct)

lemma track_label_at:
  assumes "sendq_at now (snd r)"
  shows "sendq_at now (snd (track_label env command target r))"
  using assms
  by (cases r; cases "fst r")
     (auto simp: track_label_def sendq_at_def sendq_inv_def server_ensure_stale_sweep_timer_def ht_distinct)

lemma sweep_batch_fields:
  "outbound_queue (sweep_batch k st) = outbound_queue st" "sendq_len (sweep_batch k st) = sendq_len st"
  "sq_alive (sweep_batch k st) = sq_alive st" "queue_timers (sweep_batch k st) = queue_timers st"
  "prev_now (sweep_batch k st) = prev_now st" "stale_sweep_timer (sweep_batch k st) = stale_sweep_timer st"
  "active_batches (sweep_batch k st) = ht_remove k (active_batches st)"
  "\<exists>ks. pending_labels (sweep_batch k st) = fold ht_remove ks (pending_labels st)"
proof -
  show "\<exists>ks. pending_labels (sweep_batch k st) = fold ht_remove ks (pending_labels st)"
  proof (cases "map_of (active_batches st) k")
    case (Some b)
    then show ?thesis
      by (cases "batch_label b")
         (auto simp: sweep_batch_def intro: exI [of _ "[]"] exI [of _ "[the (batch_label b)]"])
  qed (auto simp: sweep_batch_def intro: exI [of _ "[]"])
qed (auto simp: sweep_batch_def Let_def split: option.splits)

lemma sweep_batches_at:
  "sendq_at now st \<Longrightarrow> stale_sweep_timer st \<Longrightarrow>
     sendq_at now (fold sweep_batch ks st) \<and> stale_sweep_timer (fold sweep_batch ks st) \<and>
     active_batches (fold sweep_batch ks st) = fold ht_remove ks (active_batches st)"
proof (induction ks arbitrary: st)
  case (Cons k ks)
  obtain ls where "pending_labels (sweep_batch k st) = fold ht_remove ls (pending_labels st)"
    using sweep_batch_fields(8) by blast
  then have "sendq_at now (sweep_batch k st)" "stale_sweep_timer (sweep_batch k st)"
    using Cons.prems by (auto simp: sendq_at_def sendq_inv_def sweep_batch_fields(1-7) ht_distinct ht_distinct_fold)
  from Cons.IH [OF this] show ?case by (simp add: sweep_batch_fields(7))
qed simp

lemma fold_ht_remove: "fold ht_remove ks t = filter (\<lambda>x. fst x \<notin> set ks) t"
  by (induction ks arbitrary: t) (auto simp: ht_remove_def case_prod_beta intro!: filter_cong)

lemma fold_sweep_labels:
  "set (pending_labels (fold sweep_batch ks st)) \<subseteq> set (pending_labels st) \<and>
   (\<forall>x \<in> set (pending_labels st).
      (\<forall>k b. (k, b) \<in> set (active_batches st) \<longrightarrow> k \<in> set ks \<longrightarrow> batch_label b \<noteq> Some (fst x)) \<longrightarrow>
      x \<in> set (pending_labels (fold sweep_batch ks st)))"
proof (induction ks arbitrary: st)
  case (Cons k ks)
  have sub: "set (pending_labels (sweep_batch k st)) \<subseteq> set (pending_labels st)"
    by (auto simp: sweep_batch_def Let_def ht_remove_def split: option.splits)
  have keep: "x \<in> set (pending_labels (sweep_batch k st))"
    if "x \<in> set (pending_labels st)" "\<forall>b. (k, b) \<in> set (active_batches st) \<longrightarrow> batch_label b \<noteq> Some (fst x)" for x
    using that by (auto simp: sweep_batch_def Let_def ht_remove_def dest: map_of_SomeD split: option.splits)
  have act: "set (active_batches (sweep_batch k st)) \<subseteq> set (active_batches st)"
    by (auto simp: sweep_batch_fields(7) ht_remove_def)
  have "set (pending_labels (fold sweep_batch (k # ks) st)) \<subseteq> set (pending_labels st)"
    using Cons.IH [of "sweep_batch k st"] sub by auto
  moreover have "x \<in> set (pending_labels (fold sweep_batch (k # ks) st))"
    if "x \<in> set (pending_labels st)"
      "\<forall>k' b. (k', b) \<in> set (active_batches st) \<longrightarrow> k' \<in> set (k # ks) \<longrightarrow> batch_label b \<noteq> Some (fst x)" for x
  proof -
    have "x \<in> set (pending_labels (sweep_batch k st))" using keep [OF that(1)] that(2) by auto
    moreover have "\<forall>k' b. (k', b) \<in> set (active_batches (sweep_batch k st)) \<longrightarrow> k' \<in> set ks \<longrightarrow> batch_label b \<noteq> Some (fst x)"
      using that(2) act by auto
    ultimately show ?thesis using Cons.IH [of "sweep_batch k st"] by auto
  qed
  ultimately show ?case by blast
qed auto

lemma stale_sweep_at:
  assumes "sendq_at now st" "stale_sweep_timer st"
  shows "sendq_at now (snd (stale_sweep_cb now st))"
proof -
  let ?st1 = "st\<lparr>pending_labels := fold ht_remove (map fst (filter (\<lambda>(k, i). check_stale_label now i) (pending_labels st)))
                (pending_labels st)\<rparr>"
  let ?ks = "map fst (filter (\<lambda>(k, b). check_stale_batch now b) (active_batches ?st1))"
  have "sendq_at now ?st1" "stale_sweep_timer ?st1"
    using assms by (auto simp: sendq_at_def sendq_inv_def ht_distinct_fold)
  then have s: "sendq_at now (fold sweep_batch ?ks ?st1)" "stale_sweep_timer (fold sweep_batch ?ks ?st1)"
    using sweep_batches_at by blast+
  have "pending_labels ?st1 = [] \<Longrightarrow> pending_labels (fold sweep_batch ?ks ?st1) = []"
    using fold_sweep_labels [of ?ks ?st1] by simp
  with s show ?thesis
    by (auto simp: stale_sweep_cb_def Let_def sendq_at_def sendq_inv_def)
qed

lemma batch_open_at:
  assumes "sendq_at (ne_now env) st" "cstring target" "length target < 1400"
  shows "sendq_at (ne_now env) (snd (tcp_batch_open_multiline env target st))"
proof -
  let ?c = "dec_string (unat (label_counter st))"
  have l: "length (''BATCH +'' @ (''hcb'' @ ?c) @ '' draft/multiline '' @ target @ crlf) \<noteq> 1539"
    using assms(3) dec_string_u32 [of "label_counter st"] by simp
  have "sendq_at (ne_now env) (st\<lparr>label_counter := label_counter st + 1, batch_burst := True, batch_burst_bytes := 0\<rparr>)"
    using assms(1) by (simp add: sendq_at_def sendq_inv_def)
  from vsendf_labeled_at [OF this _ l] show ?thesis
    using assms(2) by (auto simp: tcp_batch_open_multiline_def Let_def tcp_sendf_labeled_def cstring_dec_string intro!: track_label_at)
qed

lemma tcp_sendf_at:
  "sendq_at (ne_now env) st \<Longrightarrow> cstring s \<Longrightarrow> length s \<noteq> 1539 \<Longrightarrow> sendq_at (ne_now env) (tcp_sendf env s st)"
  by (simp add: tcp_sendf_def tcp_send_len_at printed_command)

lemma batch_close_at:
  assumes "sendq_at (ne_now env) st" "cstring tag" "length tag < 1400"
  shows "sendq_at (ne_now env) (tcp_batch_close env tag st)"
proof -
  have "sendq_at (ne_now env) (tcp_sendf env (''BATCH -'' @ tag @ crlf) st)"
    using assms by (intro tcp_sendf_at) auto
  then show ?thesis by (simp add: tcp_batch_close_def Let_def sendq_at_def sendq_inv_def)
qed

text \<open>The steps of the outgoing side: the calls of the client, the timers, and the arrival of a batch, whose table is
  filled by the incoming side with the sweep timer started.\<close>

inductive sq_step :: "net_env \<Rightarrow> sendq \<Rightarrow> sendq \<Rightarrow> bool" where
  step_sendf: "cstring s \<Longrightarrow> length s \<noteq> 1539 \<Longrightarrow> sq_step env st (tcp_sendf env s st)"
| step_labeled: "cstring s \<Longrightarrow> length s \<noteq> 1539 \<Longrightarrow> sq_step env st (snd (tcp_sendf_labeled env s st))"
| step_tracked: "cstring s \<Longrightarrow> length s \<noteq> 1539 \<Longrightarrow>
    sq_step env st (snd (tcp_sendf_labeled_tracked env command target s st))"
| step_tags: "cstring s \<Longrightarrow> length s \<noteq> 1539 \<Longrightarrow> cstring key \<Longrightarrow> cstring val \<Longrightarrow>
    sq_step env st (snd (tcp_sendf_with_tags env command target key val s st))"
| step_raw_tags: "cstring s \<Longrightarrow> length s \<noteq> 1539 \<Longrightarrow> (\<forall>t. extra = Some t \<longrightarrow> cstring t) \<Longrightarrow>
    sq_step env st (snd (tcp_sendf_with_raw_tags env command target extra s st))"
| step_open: "cstring target \<Longrightarrow> length target < 1400 \<Longrightarrow> sq_step env st (snd (tcp_batch_open_multiline env target st))"
| step_close: "cstring tag \<Longrightarrow> length tag < 1400 \<Longrightarrow> sq_step env st (tcp_batch_close env tag st)"
| step_timer: "0 < queue_timers st \<Longrightarrow> sq_step env st (queue_timer_fires (ne_now env) st)"
| step_sweep: "stale_sweep_timer st \<Longrightarrow> sq_step env st (snd (stale_sweep_cb (ne_now env) st))"
| step_flush: "sq_step env st (server_flush_queue st)"
| step_batch: "sq_step env st
    (server_ensure_stale_sweep_timer (st\<lparr>active_batches := ht_insert batch_id b (active_batches st)\<rparr>))"
| step_motd: "sq_step env st (st\<lparr>sq_end_of_motd := e, have_labeled_response := l\<rparr>)"

inductive sq_reachable :: "int \<Rightarrow> sendq \<Rightarrow> int \<Rightarrow> sendq \<Rightarrow> bool" for t0 :: int and st0 :: sendq where
  sq_refl: "sq_reachable t0 st0 t0 st0"
| sq_trans: "sq_reachable t0 st0 t st \<Longrightarrow> t \<le> ne_now env \<Longrightarrow> sq_step env st st' \<Longrightarrow>
    sq_reachable t0 st0 (ne_now env) st'"

lemma sq_step_at: "sq_step env st st' \<Longrightarrow> sendq_at (ne_now env) st \<Longrightarrow> sendq_at (ne_now env) st'"
proof (induction rule: sq_step.induct)
  case (step_timer st env)
  then show ?case by (simp add: sendq_at_def queue_timer_fires_inv queue_timer_fires_prev_now)
next
  case (step_tags s key val env st command target)
  then show ?case by (auto simp: tcp_sendf_with_tags_def intro!: track_label_at vsendf_labeled_with_tags_at)
next
  case (step_flush env st)
  then show ?case by (simp add: sendq_at_def sendq_inv_def server_flush_queue_def queue_bytes_def)
next
  case (step_batch env st batch_id b)
  then show ?case by (auto simp: sendq_at_def sendq_inv_def server_ensure_stale_sweep_timer_def ht_distinct)
next
  case (step_motd env st e l)
  then show ?case by (simp add: sendq_at_def sendq_inv_def)
qed (auto simp: tcp_sendf_labeled_def tcp_sendf_labeled_tracked_def tcp_sendf_with_raw_tags_def
       intro!: track_label_at vsendf_labeled_at vsendf_labeled_with_tags_at tcp_sendf_at batch_open_at batch_close_at
         stale_sweep_at)

lemma sendq_at_mono: "sendq_at t st \<Longrightarrow> t \<le> t' \<Longrightarrow> sendq_at t' st"
  by (simp add: sendq_at_def)

lemma sq_reachable_at: "sq_reachable t0 st0 t st \<Longrightarrow> sendq_at t0 st0 \<Longrightarrow> sendq_at t st \<and> t0 \<le> t"
  by (induction rule: sq_reachable.induct) (auto intro: sq_step_at sendq_at_mono)

section \<open>Runs of the timer\<close>

text \<open>A tick of the event loop calls the queue as long as its timer is registered.\<close>

definition queue_tick :: "int \<Rightarrow> sendq \<Rightarrow> sendq" where
  "queue_tick now st = (if queue_timers st = 0 then st else queue_timer_fires now st)"

text \<open>What is left to do after a step that sent \<open>sent\<close> from the queue \<open>q\<close>.\<close>

definition progress :: "int \<Rightarrow> queued list \<Rightarrow> sendq \<Rightarrow> sendq \<Rightarrow> string list \<Rightarrow> bool" where
  "progress now q st st' sent \<longleftrightarrow>
     sendq_at now st' \<and> wire st' = wire st @ sent \<and> send_order q = sent @ send_order (outbound_queue st') \<and>
     next_send st' = (if sent = [] then next_send st else max (next_send st) now + total_cost sent) \<and>
     (sent \<noteq> [] \<longrightarrow> next_send st' < now + 10 + line_cost (last sent)) \<and>
     (outbound_queue st' \<noteq> [] \<longrightarrow> now + 10 \<le> next_send st') \<and>
     sq_end_of_motd st' = sq_end_of_motd st \<and> batch_burst st' = batch_burst st"

lemma queue_tick_progress:
  assumes "sendq_at now st"
  shows "\<exists>sent. progress now (outbound_queue st) st (queue_tick now st) sent"
proof (cases "queue_timers st = 0")
  case True
  then have "outbound_queue st = []" using assms by (auto simp: sendq_at_def sendq_inv_def)
  then show ?thesis using True assms by (intro exI [of _ "[]"]) (simp add: progress_def queue_tick_def)
next
  case False
  obtain keep st' where r: "tcp_send_queue now st = (keep, st')" by fastforce
  then obtain sent where p: "pass_result now st keep st' sent"
    using tcp_send_queue_result [of st now] assms by (auto simp: sendq_at_def sendq_inv_def)
  have "frame st' = frame st" using p by (simp add: pass_result_def)
  note f = frame_eqD [OF this]
  have "sendq_at now (queue_timer_fires now st)"
    using assms False by (simp add: sendq_at_def queue_timer_fires_inv queue_timer_fires_prev_now)
  then have "progress now (outbound_queue st) st (queue_timer_fires now st) sent"
    using p f by (auto simp: progress_def pass_result_def queue_timer_fires_def r split: if_splits)
  then show ?thesis using False by (auto simp: queue_tick_def)
qed

lemma tcp_send_len_progress:
  assumes "sendq_at (ne_now env) st" "cstring b" "throttled env st"
  shows "\<exists>sent. progress (ne_now env) (outbound_queue (enqueue env b st)) st (tcp_send_len env b st) sent"
proof -
  obtain keep st' sent where r: "pass_result (ne_now env) (enqueue env b st) keep st' sent"
    "tcp_send_len env b st = (if keep \<and> outbound_queue st = [] then st'\<lparr>queue_timers := queue_timers st' + 1\<rparr> else st')"
    using enqueue_result [of st env b] assms unfolding sendq_at_def sendq_inv_def by metis
  have "frame st' = frame st" using r(1) by (simp add: pass_result_def)
  note f = frame_eqD [OF this]
  have at: "sendq_at (ne_now env) (tcp_send_len env b st)" using tcp_send_len_at assms by blast
  have eq: "wire (tcp_send_len env b st) = wire st'" "outbound_queue (tcp_send_len env b st) = outbound_queue st'"
    "next_send (tcp_send_len env b st) = next_send st'" "sq_end_of_motd (tcp_send_len env b st) = sq_end_of_motd st'"
    "batch_burst (tcp_send_len env b st) = batch_burst st'"
    by (simp_all add: r(2))
  have "progress (ne_now env) (outbound_queue (enqueue env b st)) st (tcp_send_len env b st) sent"
    unfolding progress_def eq using at r(1) f by (simp add: pass_result_def split: if_splits)
  then show ?thesis by blast
qed

text \<open>Ticks that are at most 10 seconds apart.\<close>

fun cadence :: "int \<Rightarrow> int list \<Rightarrow> bool" where
  "cadence t [] = True"
| "cadence t (u # us) = (t \<le> u \<and> u \<le> t + 10 \<and> cadence u us)"

lemma ticks_progress:
  assumes "sendq_at t st" "outbound_queue st \<noteq> [] \<longrightarrow> t + 10 \<le> next_send st" "cadence t ts"
  shows "\<exists>sent. let st' = fold queue_tick ts st in
     wire st' = wire st @ sent \<and> send_order (outbound_queue st) = sent @ send_order (outbound_queue st') \<and>
     sendq_at (last (t # ts)) st' \<and>
     (outbound_queue st' \<noteq> [] \<longrightarrow> last (t # ts) + 10 \<le> next_send st' \<and>
        next_send st' + total_cost (send_order (outbound_queue st')) =
          next_send st + total_cost (send_order (outbound_queue st)))"
  using assms
proof (induction ts arbitrary: t st)
  case Nil
  then show ?case by (intro exI [of _ "[]"]) simp
next
  case (Cons u us)
  let ?st1 = "queue_tick u st"
  have "sendq_at u st" using Cons.prems sendq_at_mono by auto
  then obtain s1 where p: "progress u (outbound_queue st) st ?st1 s1" using queue_tick_progress by blast
  then have 1: "sendq_at u ?st1" "outbound_queue ?st1 \<noteq> [] \<longrightarrow> u + 10 \<le> next_send ?st1" "cadence u us"
    using Cons.prems(3) unfolding progress_def cadence.simps by blast+
  from Cons.IH [OF this] obtain s2 where s2: "let st' = fold queue_tick us ?st1 in
     wire st' = wire ?st1 @ s2 \<and> send_order (outbound_queue ?st1) = s2 @ send_order (outbound_queue st') \<and>
     sendq_at (last (u # us)) st' \<and>
     (outbound_queue st' \<noteq> [] \<longrightarrow> last (u # us) + 10 \<le> next_send st' \<and>
        next_send st' + total_cost (send_order (outbound_queue st')) =
          next_send ?st1 + total_cost (send_order (outbound_queue ?st1)))" by blast
  have w: "wire ?st1 = wire st @ s1" "send_order (outbound_queue st) = s1 @ send_order (outbound_queue ?st1)"
    using p by (simp_all add: progress_def)
  have c: "next_send ?st1 + total_cost (send_order (outbound_queue ?st1)) =
      next_send st + total_cost (send_order (outbound_queue st))" if "outbound_queue st \<noteq> []"
  proof -
    have "u \<le> next_send st" using that Cons.prems by auto
    then show ?thesis using p w(2) by (auto simp: progress_def)
  qed
  have e: "outbound_queue st \<noteq> []" if "outbound_queue (fold queue_tick us ?st1) \<noteq> []"
  proof
    assume "outbound_queue st = []"
    then have "send_order (outbound_queue (fold queue_tick us ?st1)) = []"
      using w(2) s2 by (simp add: Let_def send_order_def)
    moreover have "queue_ok (outbound_queue (fold queue_tick us ?st1))"
      using s2 by (simp add: Let_def sendq_at_def sendq_inv_def)
    ultimately show False using send_order_empty that by blast
  qed
  show ?case
    using s2 w c e by (intro exI [of _ "s1 @ s2"]) (auto simp: Let_def)
qed

text \<open>A run of events in throttled mode: a line to send (\<open>Some\<close>) or a tick, with the clock at each.\<close>

fun throttled_run :: "(string \<Rightarrow> string \<Rightarrow> nat \<Rightarrow> int) \<Rightarrow> (int \<times> string option) list \<Rightarrow> sendq \<Rightarrow> sendq" where
  "throttled_run ncmp [] st = st"
| "throttled_run ncmp ((now, None) # evs) st = throttled_run ncmp evs (queue_tick now st)"
| "throttled_run ncmp ((now, Some b) # evs) st =
     throttled_run ncmp evs (tcp_send_len \<lparr>ne_ncmp = ncmp, ne_throttle = True, ne_now = now\<rparr> b st)"

definition run_event_ok :: "int \<Rightarrow> int \<times> string option \<Rightarrow> bool" where
  "run_event_ok L e \<longleftrightarrow> (\<forall>b. snd e = Some b \<longrightarrow> cstring b \<and> line_cost b \<le> L)"

lemma send_order_enqueue: "cstring b \<Longrightarrow> set (send_order (outbound_queue (enqueue env b st))) \<subseteq> insert b (set (send_order (outbound_queue st)))"
  by (auto simp: enqueue_def send_order_def)

text \<open>One event of a run: it sends from a queue whose lines are all within the cost \<open>L\<close>.\<close>

lemma throttled_event:
  assumes "sendq_at now st" "sq_end_of_motd st" "\<not> batch_burst st" "run_event_ok L (now, e)"
    and "\<forall>l \<in> set (send_order (outbound_queue st)). line_cost l \<le> L"
  obtains q sent st' where "throttled_run ncmp ((now, e) # evs) st = throttled_run ncmp evs st'"
    "progress now q st st' sent" "\<forall>l \<in> set (send_order q). line_cost l \<le> L"
proof (cases e)
  case None
  obtain sent where "progress now (outbound_queue st) st (queue_tick now st) sent"
    using queue_tick_progress assms(1) by blast
  then show ?thesis using that [of "queue_tick now st" "outbound_queue st" sent] None assms(5) by simp
next
  case (Some b)
  let ?env = "\<lparr>ne_ncmp = ncmp, ne_throttle = True, ne_now = now\<rparr>"
  have b: "cstring b" "line_cost b \<le> L" using assms(4) Some by (auto simp: run_event_ok_def)
  then obtain sent where "progress now (outbound_queue (enqueue ?env b st)) st (tcp_send_len ?env b st) sent"
    using tcp_send_len_progress [of ?env st b] assms by (auto simp: throttled_def)
  moreover have "\<forall>l \<in> set (send_order (outbound_queue (enqueue ?env b st))). line_cost l \<le> L"
    using send_order_enqueue [OF b(1), of ?env st] b(2) assms(5) by blast
  ultimately show ?thesis using that [of "tcp_send_len ?env b st" "outbound_queue (enqueue ?env b st)" sent] Some by simp
qed

lemma throttled_run_rate:
  assumes "sendq_at t st" "sq_end_of_motd st" "\<not> batch_burst st" "sorted (t # map fst evs)" "list_all (run_event_ok L) evs"
    and "\<forall>l \<in> set (send_order (outbound_queue st)). line_cost l \<le> L"
  shows "\<exists>sent. wire (throttled_run ncmp evs st) = wire st @ sent \<and>
     (if sent = [] then next_send (throttled_run ncmp evs st) = next_send st
      else max (next_send st) t + 2 * int (length sent) \<le> next_send (throttled_run ncmp evs st) \<and>
        next_send (throttled_run ncmp evs st) < last (t # map fst evs) + 10 + L)"
  using assms
proof (induction evs arbitrary: t st)
  case Nil
  then show ?case by simp
next
  case (Cons ev evs)
  obtain now e where ev: "ev = (now, e)" by (cases ev) auto
  have le: "t \<le> now" "now \<le> last (now # map fst evs)"
    using Cons.prems(4) ev last_in_set [of "now # map fst evs"] by auto
  have at: "sendq_at now st" using Cons.prems(1) le sendq_at_mono by blast
  obtain q s1 st1 where r: "throttled_run ncmp ((now, e) # evs) st = throttled_run ncmp evs st1"
    and p: "progress now q st st1 s1" and q: "\<forall>l \<in> set (send_order q). line_cost l \<le> L"
    by (rule throttled_event [OF at Cons.prems(2,3)]) (use Cons.prems ev in auto)
  have f: "sendq_at now st1" "sq_end_of_motd st1" "\<not> batch_burst st1" "wire st1 = wire st @ s1"
    and so: "send_order q = s1 @ send_order (outbound_queue st1)"
    using p Cons.prems(2,3) by (auto simp: progress_def)
  have n1: "if s1 = [] then next_send st1 = next_send st else
      max (next_send st) now + 2 * int (length s1) \<le> next_send st1 \<and> next_send st1 < now + 10 + L"
  proof (cases "s1 = []")
    case False
    then have "line_cost (last s1) \<le> L" using q so by auto
    then show ?thesis using p False total_cost_ge [of s1] by (auto simp: progress_def)
  qed (use p in \<open>simp add: progress_def\<close>)
  obtain s2 where s2: "wire (throttled_run ncmp evs st1) = wire st1 @ s2"
    "if s2 = [] then next_send (throttled_run ncmp evs st1) = next_send st1
      else max (next_send st1) now + 2 * int (length s2) \<le> next_send (throttled_run ncmp evs st1) \<and>
        next_send (throttled_run ncmp evs st1) < last (now # map fst evs) + 10 + L"
    using Cons.IH [OF f(1-3)] Cons.prems(4,5) q so ev by auto
  show ?case
    using n1 s2 le f(4) unfolding ev r by (intro exI [of _ "s1 @ s2"]) (auto split: if_splits)
qed

section \<open>Lines and base64\<close>

lemma read_line:
  assumes "CHR 0x0A \<notin> set l" "CHR 0x0D \<notin> set l" "length (lb_buf lb) \<le> LINEBUF_SIZE - 1"
  shows "fold read_char l lb = lb\<lparr>lb_buf := take (LINEBUF_SIZE - 1) (lb_buf lb @ l)\<rparr>"
  using assms
proof (induction l arbitrary: lb)
  case (Cons c l)
  have "fold read_char (c # l) lb = fold read_char l (read_char c lb)" by simp
  also have "\<dots> = (read_char c lb)\<lparr>lb_buf := take (LINEBUF_SIZE - 1) (lb_buf (read_char c lb) @ l)\<rparr>"
    by (rule Cons.IH) (use Cons.prems in \<open>auto simp: read_char_def\<close>)
  also have "\<dots> = lb\<lparr>lb_buf := take (LINEBUF_SIZE - 1) (lb_buf lb @ c # l)\<rparr>"
    using Cons.prems by (auto simp: read_char_def take_Cons' Suc_diff_Suc)
  finally show ?case .
qed simp

definition wire_text :: "string list \<Rightarrow> string" where
  "wire_text ls = concat (map (\<lambda>l. l @ crlf) ls)"

definition plain_line :: "string \<Rightarrow> bool" where
  "plain_line l \<longleftrightarrow> CHR 0x0A \<notin> set l \<and> CHR 0x0D \<notin> set l"

lemma read_lines:
  "list_all plain_line ls \<Longrightarrow> plain_line part \<Longrightarrow>
     server_read (wire_text ls @ part) \<lparr>lb_buf = [], lb_lines = done\<rparr> =
       \<lparr>lb_buf = take (LINEBUF_SIZE - 1) part, lb_lines = done @ map (take (LINEBUF_SIZE - 1)) ls\<rparr>"
proof (induction ls arbitrary: "done")
  case Nil
  then show ?case by (simp add: server_read_def wire_text_def plain_line_def read_line)
next
  case (Cons l ls)
  have w: "wire_text (l # ls) @ part = l @ crlf @ wire_text ls @ part" by (simp add: wire_text_def)
  have "fold read_char crlf \<lparr>lb_buf = b, lb_lines = d\<rparr> = \<lparr>lb_buf = [], lb_lines = d @ [b]\<rparr>" for b d
    by (simp add: read_char_def)
  moreover have "fold read_char l \<lparr>lb_buf = [], lb_lines = d\<rparr> = \<lparr>lb_buf = take (LINEBUF_SIZE - 1) l, lb_lines = d\<rparr>" for d
    using Cons.prems read_line [of l "\<lparr>lb_buf = [], lb_lines = d\<rparr>"] by (simp add: plain_line_def)
  ultimately show ?case using Cons.IH Cons.prems unfolding w by (simp add: server_read_def)
qed

lemma read_chunks: "fold server_read chunks lb = server_read (concat chunks) lb"
  by (induction chunks arbitrary: lb) (auto simp: server_read_def)

text \<open>The decoder of RFC 4648 for complete groups of four.\<close>

fun pos_in :: "char \<Rightarrow> string \<Rightarrow> nat" where
  "pos_in c [] = 0"
| "pos_in c (x # s) = (if x = c then 0 else Suc (pos_in c s))"

definition val64 :: "char \<Rightarrow> nat" where
  "val64 c = pos_in c tab64"

definition four_to_three :: "nat \<Rightarrow> nat \<Rightarrow> nat \<Rightarrow> nat \<Rightarrow> string" where
  "four_to_three w x y z =
     [char_of (w * 4 + x div 16), char_of ((x mod 16) * 16 + y div 4), char_of ((y mod 4) * 64 + z)]"

fun base64_decode :: "string \<Rightarrow> string option" where
  "base64_decode [] = Some []"
| "base64_decode [w, x, y, z] =
     (if y = CHR ''='' then Some (take 1 (four_to_three (val64 w) (val64 x) 0 0))
      else if z = CHR ''='' then Some (take 2 (four_to_three (val64 w) (val64 x) (val64 y) 0))
      else Some (four_to_three (val64 w) (val64 x) (val64 y) (val64 z)))"
| "base64_decode (w # x # y # z # rest) =
     map_option ((@) (four_to_three (val64 w) (val64 x) (val64 y) (val64 z))) (base64_decode rest)"
| "base64_decode _ = None"

lemma tab64_table: "v < 64 \<Longrightarrow> val64 (tab64 ! v) = v \<and> tab64 ! v \<noteq> CHR ''=''"
proof -
  assume "v < 64"
  moreover have "list_all (\<lambda>v. val64 (tab64 ! v) = v \<and> tab64 ! v \<noteq> CHR ''='') [0..<64]" by code_simp
  ultimately show ?thesis by (simp add: list_all_iff del: upt_rec_numeral)
qed

lemma shift_or:
  assumes "0 \<le> (b :: int)" "b < 2 ^ n * 2 ^ k"
  shows "push_bit n a OR drop_bit k b = 2 ^ n * a + b div 2 ^ k"
proof -
  have "b div 2 ^ k < 2 ^ n"
  proof (rule ccontr)
    assume "\<not> b div 2 ^ k < 2 ^ n"
    then have "2 ^ n * 2 ^ k \<le> b div 2 ^ k * 2 ^ k" by (intro mult_right_mono) auto
    also have "\<dots> \<le> b" using minus_mod_eq_div_mult [of b "2 ^ k"] by (simp flip: minus_mod_eq_div_mult)
    finally show False using assms(2) by simp
  qed
  then have t: "take_bit n (drop_bit k b) = b div 2 ^ k"
    using assms(1) by (simp add: drop_bit_eq_div take_bit_int_eq_self pos_imp_zdiv_nonneg_iff)
  have "push_bit n a OR drop_bit k b = concat_bit n (drop_bit k b) a"
    using t by (simp add: concat_bit_def or.commute drop_bit_eq_div)
  also have "\<dots> = take_bit n (drop_bit k b) + push_bit n a" by (rule concat_bit_eq)
  finally show ?thesis using t by (simp add: push_bit_eq_mult)
qed

lemma and_63: "(x :: int) AND 63 = x mod 64"
  using take_bit_eq_mask [of 6 x] by (simp add: take_bit_eq_mod mask_eq_exp_minus_1)

lemma low_bits: "(y :: nat) < k \<Longrightarrow> (k * x + y) mod (k * m) = x mod m * k + y"
  by (simp add: mod_mult2_eq)

lemma three_to_four_ascii:
  assumes "uchar a < 128" "uchar b < 128" "uchar c < 128"
  shows "three_to_four a b c =
     [tab64 ! (uchar a div 4), tab64 ! ((uchar a mod 4) * 16 + uchar b div 16),
      tab64 ! ((uchar b mod 16) * 4 + uchar c div 64), tab64 ! (uchar c mod 64)]"
proof -
  have s: "schar a = int (uchar a)" "schar b = int (uchar b)" "schar c = int (uchar c)"
    using assms by (simp_all add: schar_def)
  have 1: "drop_bit 2 (schar a) AND 63 = int (uchar a div 4)"
    using assms(1) by (simp add: and_63 s drop_bit_eq_div)
  have "(push_bit 4 (schar a) OR drop_bit 4 (schar b)) AND 63 = (16 * int (uchar a) + int (uchar b) div 16) mod 64"
    using shift_or [of "schar b" 4 4 "schar a"] assms(2) by (simp add: and_63 s)
  also have "\<dots> = int ((16 * uchar a + uchar b div 16) mod 64)" by (simp add: zmod_int zdiv_int)
  also have "(16 * uchar a + uchar b div 16) mod 64 = (uchar a mod 4) * 16 + uchar b div 16"
    using assms(2) low_bits [of "uchar b div 16" 16 "uchar a" 4] by simp
  finally have 2: "(push_bit 4 (schar a) OR drop_bit 4 (schar b)) AND 63 = int ((uchar a mod 4) * 16 + uchar b div 16)" .
  have "(push_bit 2 (schar b) OR drop_bit 6 (schar c)) AND 63 = (4 * int (uchar b) + int (uchar c) div 64) mod 64"
    using shift_or [of "schar c" 2 6 "schar b"] assms(3) by (simp add: and_63 s)
  also have "\<dots> = int ((4 * uchar b + uchar c div 64) mod 64)" by (simp add: zmod_int zdiv_int)
  also have "(4 * uchar b + uchar c div 64) mod 64 = (uchar b mod 16) * 4 + uchar c div 64"
    using assms(3) low_bits [of "uchar c div 64" 4 "uchar b" 16] by simp
  finally have 3: "(push_bit 2 (schar b) OR drop_bit 6 (schar c)) AND 63 = int ((uchar b mod 16) * 4 + uchar c div 64)" .
  have 4: "schar c AND 63 = int (uchar c mod 64)" by (simp add: and_63 s zmod_int)
  show ?thesis unfolding three_to_four_def 1 2 3 4 nat_int ..
qed

lemma four_to_three_ascii:
  assumes "uchar a < 128" "uchar b < 128" "uchar c < 128"
  shows "four_to_three (val64 (three_to_four a b c ! 0)) (val64 (three_to_four a b c ! 1))
     (val64 (three_to_four a b c ! 2)) (val64 (three_to_four a b c ! 3)) = [a, b, c]"
proof -
  have v: "val64 (tab64 ! (uchar a div 4)) = uchar a div 4"
    "val64 (tab64 ! ((uchar a mod 4) * 16 + uchar b div 16)) = (uchar a mod 4) * 16 + uchar b div 16"
    "val64 (tab64 ! ((uchar b mod 16) * 4 + uchar c div 64)) = (uchar b mod 16) * 4 + uchar c div 64"
    "val64 (tab64 ! (uchar c mod 64)) = uchar c mod 64"
    using assms by (intro tab64_table [THEN conjunct1]; linarith)+
  have x: "((uchar a mod 4) * 16 + uchar b div 16) div 16 = uchar a mod 4"
    "((uchar a mod 4) * 16 + uchar b div 16) mod 16 = uchar b div 16"
    "((uchar b mod 16) * 4 + uchar c div 64) div 4 = uchar b mod 16"
    "((uchar b mod 16) * 4 + uchar c div 64) mod 4 = uchar c div 64"
    using assms by (simp_all add: less_mult_imp_div_less)
  have y: "uchar a div 4 * 4 + uchar a mod 4 = uchar a" "uchar b div 16 * 16 + uchar b mod 16 = uchar b"
    "uchar c div 64 * 64 + uchar c mod 64 = uchar c" "uchar b div 16 mod 16 = uchar b div 16"
    "uchar c div 64 mod 4 = uchar c div 64"
    using assms by (simp_all add: less_mult_imp_div_less)
  show ?thesis
    unfolding three_to_four_ascii [OF assms] four_to_three_def
    by (simp add: v x y numeral_3_eq_3 numeral_2_eq_2 del: One_nat_def)
qed

lemma three_to_four_plain:
  assumes "uchar a < 128" "uchar b < 128" "uchar c < 128"
  shows "\<exists>w x y z. three_to_four a b c = [w, x, y, z] \<and> y \<noteq> CHR ''='' \<and> z \<noteq> CHR ''='' \<and>
     four_to_three (val64 w) (val64 x) (val64 y) (val64 z) = [a, b, c]"
proof -
  have "uchar b mod 16 * 4 + uchar c div 64 < 64" "uchar c mod 64 < 64" using assms by linarith+
  then show ?thesis
    using four_to_three_ascii [OF assms] tab64_table by (simp add: three_to_four_ascii [OF assms] numeral_3_eq_3 numeral_2_eq_2)
qed

lemma base64_decode_group:
  "rest \<noteq> [] \<Longrightarrow> base64_decode (w # x # y # z # rest) =
     map_option ((@) (four_to_three (val64 w) (val64 x) (val64 y) (val64 z))) (base64_decode rest)"
  by (cases rest) auto

lemma base64_encode_empty: "base64_encode s = [] \<longleftrightarrow> s = []"
  by (cases s rule: base64_encode.cases) (auto simp: three_to_four_def)

lemma base64_roundtrip: "ascii s \<Longrightarrow> base64_decode (base64_encode s) = Some s"
proof (induction s rule: base64_encode.induct)
  case (1 a b c rest)
  then obtain w x y z where f: "three_to_four a b c = [w, x, y, z]" "y \<noteq> CHR ''=''" "z \<noteq> CHR ''=''"
    "four_to_three (val64 w) (val64 x) (val64 y) (val64 z) = [a, b, c]"
    using three_to_four_plain [of a b c] by auto
  show ?case
  proof (cases "rest = []")
    case False
    then show ?thesis using f 1 base64_encode_empty [of rest] by (simp add: base64_decode_group)
  qed (use f in simp)
next
  case (2 a b)
  then obtain w x y z where f: "three_to_four a b NUL = [w, x, y, z]" "y \<noteq> CHR ''=''"
    "four_to_three (val64 w) (val64 x) (val64 y) (val64 z) = [a, b, NUL]"
    using three_to_four_plain [of a b NUL] by auto
  then show ?case by (auto simp: four_to_three_def)
next
  case (3 a)
  then obtain w x y z where f: "three_to_four a NUL NUL = [w, x, y, z]" "y \<noteq> CHR ''=''"
    "four_to_three (val64 w) (val64 x) (val64 y) (val64 z) = [a, NUL, NUL]"
    using three_to_four_plain [of a NUL NUL] by auto
  then show ?case by (auto simp: four_to_three_def)
qed simp

section \<open>A line is on its way\<close>

text \<open>Whatever the throttle does, a line that was handed over has been sent or waits in the queue.\<close>

lemma tcp_send_len_delivers:
  assumes "sendq_at (ne_now env) st" "cstring b"
  shows "b \<in> set (wire (tcp_send_len env b st) @ send_order (outbound_queue (tcp_send_len env b st)))"
proof (cases "throttled env st")
  case True
  obtain sent where p: "progress (ne_now env) (outbound_queue (enqueue env b st)) st (tcp_send_len env b st) sent"
    using tcp_send_len_progress [OF assms True] by blast
  have "c_str b = b" using assms(2) by (auto simp: c_str_def cstring_def takeWhile_eq_all_conv)
  moreover have "line_priority (ne_ncmp env) (c_str b) \<in> {0, 1, 2, 3}" by (simp add: line_priority_def)
  ultimately have "b \<in> set (send_order (outbound_queue (enqueue env b st)))"
    by (auto simp: enqueue_def send_order_def by_pri_def)
  then show ?thesis using p by (auto simp: progress_def)
next
  case False
  then show ?thesis by (auto simp: tcp_send_len_def throttled_def server_send_real_def)
qed

section \<open>Properties\<close>

definition demo_sendq :: sendq where
  "demo_sendq = \<lparr>sq_alive = True, outbound_queue = [], sendq_len = 0, next_send = 0, prev_now = 0, sq_end_of_motd = True,
     batch_burst = False, batch_burst_bytes = 0, label_counter = 0, have_labeled_response = True, pending_labels = [],
     active_batches = [], last_sent_label = None, stale_sweep_timer = False, wire = [], queue_timers = 0, fe_confirmed = []\<rparr>"

definition demo_ncmp :: "string \<Rightarrow> string \<Rightarrow> nat \<Rightarrow> int" where
  "demo_ncmp a b n = (if map ascii_lower (take n a) = map ascii_lower (take n b) then 0 else 1)"

lemma demo_sendq_at: "0 \<le> t \<Longrightarrow> sendq_at t demo_sendq"
  by (simp add: demo_sendq_def sendq_at_def sendq_inv_def queue_bytes_def)



text \<open>C24: A pass over the queue sends lines in the order of their priorities, first come first served within a priority,
  and stops only at the throttle: what it puts on the wire followed by the order of what it leaves is the order of the
  queue, no line is lost or duplicated, and it asks for another call exactly when lines are left.\<close>

theorem tcp_send_queue_order:
  assumes "sendq_inv st" "prev_now st \<le> now" "tcp_send_queue now st = (keep, st')"
  shows "\<exists>sent. wire st' = wire st @ sent \<and> send_order (outbound_queue st) = sent @ send_order (outbound_queue st') \<and>
     sendq_len st' = queue_bytes (outbound_queue st') \<and> (keep \<longleftrightarrow> outbound_queue st' \<noteq> [])"
proof -
  obtain sent where "pass_result now st keep st' sent"
    using tcp_send_queue_result [of st now] assms by (auto simp: sendq_inv_def)
  then show ?thesis using assms(1) by (intro exI [of _ sent]) (simp add: pass_result_def sendq_inv_def)
qed

definition demo_queue :: sendq where
  "demo_queue = demo_sendq\<lparr>outbound_queue := [(0, ''WHO #a''), (2, ''PRIVMSG #a :1''), (3, ''JOIN #b''), (2, ''PRIVMSG #a :2'')],
     sendq_len := 39, queue_timers := 1\<rparr>"

lemma demo_queue_at: "0 \<le> t \<Longrightarrow> sendq_at t demo_queue"
  by (simp add: demo_queue_def demo_sendq_def sendq_at_def sendq_inv_def queue_bytes_def queue_ok_def)

theorem tcp_send_queue_order_witness:
  "wire (snd (tcp_send_queue 100 demo_queue)) = [''JOIN #b'', ''PRIVMSG #a :1'', ''PRIVMSG #a :2'', ''WHO #a''] \<and>
   (\<exists>sent. wire (snd (tcp_send_queue 100 demo_queue)) = wire demo_queue @ sent \<and>
     send_order (outbound_queue demo_queue) = sent @ send_order (outbound_queue (snd (tcp_send_queue 100 demo_queue))))"
proof -
  have "wire (snd (tcp_send_queue 100 demo_queue)) = [''JOIN #b'', ''PRIVMSG #a :1'', ''PRIVMSG #a :2'', ''WHO #a'']"
    by code_simp
  then show ?thesis
    using tcp_send_queue_order [of demo_queue 100 "fst (tcp_send_queue 100 demo_queue)" "snd (tcp_send_queue 100 demo_queue)"]
      demo_queue_at [of 100] by (auto simp: sendq_at_def)
qed

text \<open>C20: The throttle holds back floods: in any run of sends and timer calls from time \<open>t\<close> on, with lines of a cost of
  at most \<open>L\<close> seconds (2 and one for every 120 bytes behind the first word), the number of lines that reach the wire is
  less than half of the time that has passed plus 10 plus \<open>L\<close>.\<close>

theorem throttle_rate:
  assumes "sendq_at t st" "sq_end_of_motd st" "\<not> batch_burst st" "sorted (t # map fst evs)" "list_all (run_event_ok L) evs"
    and "\<forall>l \<in> set (send_order (outbound_queue st)). line_cost l \<le> L" "0 \<le> L"
  shows "\<exists>sent. wire (throttled_run ncmp evs st) = wire st @ sent \<and>
     2 * int (length sent) < (last (t # map fst evs) - t) + 10 + L"
proof -
  obtain sent where s: "wire (throttled_run ncmp evs st) = wire st @ sent"
    "if sent = [] then next_send (throttled_run ncmp evs st) = next_send st
     else max (next_send st) t + 2 * int (length sent) \<le> next_send (throttled_run ncmp evs st) \<and>
       next_send (throttled_run ncmp evs st) < last (t # map fst evs) + 10 + L"
    using throttled_run_rate [OF assms(1-6)] by blast
  have "t \<le> last (t # map fst evs)" using assms(4) last_in_set [of "t # map fst evs"] by auto
  with s assms(7) show ?thesis by (intro exI [of _ sent]) (auto split: if_splits)
qed

theorem throttle_rate_witness:
  "\<exists>sent. wire (throttled_run demo_ncmp (replicate 20 (100, Some ''PRIVMSG #a :hello'')) demo_sendq) = sent \<and>
     2 * int (length sent) < 12"
proof -
  let ?evs = "replicate 20 (100 :: int, Some ''PRIVMSG #a :hello'')"
  have "list_all (run_event_ok 2) ?evs"
    by (simp add: list_all_iff run_event_ok_def line_cost_def)
  with throttle_rate [of 100 demo_sendq ?evs 2 demo_ncmp] demo_sendq_at [of 100] show ?thesis
    by (auto simp: demo_sendq_def send_order_def sorted_replicate)
qed

lemma queue_drains:
  assumes "sendq_at t st" "cadence t ts"
    and "max (next_send st) t + total_cost (send_order (outbound_queue st)) < last (t # ts) + 12"
  shows "outbound_queue (fold queue_tick (t # ts) st) = [] \<and>
     wire (fold queue_tick (t # ts) st) = wire st @ send_order (outbound_queue st)"
proof -
  let ?st1 = "queue_tick t st"
  obtain s1 where p: "progress t (outbound_queue st) st ?st1 s1" using queue_tick_progress assms(1) by blast
  then have 1: "sendq_at t ?st1" "outbound_queue ?st1 \<noteq> [] \<longrightarrow> t + 10 \<le> next_send ?st1"
    unfolding progress_def by blast+
  let ?st' = "fold queue_tick ts ?st1"
  obtain s2 where s2: "wire ?st' = wire ?st1 @ s2" "send_order (outbound_queue ?st1) = s2 @ send_order (outbound_queue ?st')"
    "sendq_at (last (t # ts)) ?st'"
    "outbound_queue ?st' \<noteq> [] \<longrightarrow> last (t # ts) + 10 \<le> next_send ?st' \<and>
        next_send ?st' + total_cost (send_order (outbound_queue ?st')) =
          next_send ?st1 + total_cost (send_order (outbound_queue ?st1))"
    using ticks_progress [OF 1 assms(2)] by (auto simp: Let_def)
  have so: "send_order (outbound_queue st) = s1 @ send_order (outbound_queue ?st1)" "wire ?st1 = wire st @ s1"
    using p by (simp_all add: progress_def)
  have c: "next_send ?st1 + total_cost (send_order (outbound_queue ?st1)) \<le>
      max (next_send st) t + total_cost (send_order (outbound_queue st))"
    using p so(1) by (auto simp: progress_def)
  have empty: "outbound_queue ?st' = []"
  proof (rule ccontr)
    assume ne: "outbound_queue ?st' \<noteq> []"
    have "queue_ok (outbound_queue ?st')" using s2(3) by (simp add: sendq_at_def sendq_inv_def)
    then have "send_order (outbound_queue ?st') \<noteq> []" using ne send_order_empty by blast
    then have "1 \<le> int (length (send_order (outbound_queue ?st')))" by (cases "send_order (outbound_queue ?st')") auto
    then have "2 \<le> total_cost (send_order (outbound_queue ?st'))"
      using total_cost_ge [of "send_order (outbound_queue ?st')"] by linarith
    with s2(4) ne c assms(3) show False by linarith
  qed
  have "send_order [] = []" by (simp add: send_order_def)
  with empty s2 so show ?thesis by simp
qed

text \<open>C7: Every queued line is sent in the end: when the timer is called at least every 10 seconds (it fires twice a
  second), the queue is empty and all its lines have been sent in order once the clock passes the time at which the throttle allows
  the last line, that is \<open>next_send\<close> plus the cost of all lines minus 12 seconds.\<close>

theorem sendq_drains:
  assumes "sendq_at t st" "cadence t ts"
    and "max (next_send st) t + total_cost (send_order (outbound_queue st)) < last (t # ts) + 12"
  shows "outbound_queue (fold queue_tick (t # ts) st) = [] \<and>
     wire (fold queue_tick (t # ts) st) = wire st @ send_order (outbound_queue st)"
  by (rule queue_drains [OF assms])

theorem sendq_drains_witness:
  "outbound_queue (fold queue_tick [100, 107] (demo_queue\<lparr>next_send := 110\<rparr>)) = [] \<and>
   wire (fold queue_tick [100, 107] (demo_queue\<lparr>next_send := 110\<rparr>)) =
     [''JOIN #b'', ''PRIVMSG #a :1'', ''PRIVMSG #a :2'', ''WHO #a'']"
proof -
  have so: "send_order (outbound_queue demo_queue) = [''JOIN #b'', ''PRIVMSG #a :1'', ''PRIVMSG #a :2'', ''WHO #a'']"
    by code_simp
  have "total_cost (send_order (outbound_queue demo_queue)) = 8"
    unfolding so by (simp add: line_cost_def)
  moreover have "sendq_at 100 (demo_queue\<lparr>next_send := 110\<rparr>)"
    using demo_queue_at [of 100] by (simp add: sendq_at_def sendq_inv_def)
  ultimately show ?thesis
    using sendq_drains [of 100 "demo_queue\<lparr>next_send := 110\<rparr>" "[107]"] so by (simp add: demo_queue_def demo_sendq_def)
qed

lemma filter_stale:
  assumes "distinct (map fst t)"
  shows "filter (\<lambda>x. fst x \<notin> fst ` {y \<in> set t. P (snd y)}) t = filter (\<lambda>x. \<not> P (snd x)) t"
proof (rule filter_cong [OF refl])
  fix x assume x: "x \<in> set t"
  have "snd y = snd x" if "y \<in> set t" "fst y = fst x" for y
    using eq_key_imp_eq_value [OF assms, of "fst x" "snd y" "snd x"] that x by (metis prod.collapse)
  then have "fst x \<in> fst ` {y \<in> set t. P (snd y)} \<longleftrightarrow> P (snd x)" using x by (force simp only: image_iff mem_Collect_eq)
  then show "(fst x \<notin> fst ` {y \<in> set t. P (snd y)}) = (\<not> P (snd x))" by simp
qed

text \<open>The sweep removes every label that waits for more than 60 seconds and every batch that is open for more than
  120, keeps the batches and labels that are younger (a label only if it does not belong to a batch that is removed), and it
  stops its timer only when both tables are empty.\<close>

theorem stale_sweep_correct:
  assumes "stale_sweep_cb now st = (keep, st')" "distinct (map fst (active_batches st))" "distinct (map fst (pending_labels st))"
  shows "(\<forall>x \<in> set (pending_labels st'). x \<in> set (pending_labels st) \<and> \<not> check_stale_label now (snd x)) \<and>
     (\<forall>x \<in> set (pending_labels st). \<not> check_stale_label now (snd x) \<longrightarrow>
        (\<forall>b \<in> set (active_batches st). check_stale_batch now (snd b) \<longrightarrow> batch_label (snd b) \<noteq> Some (fst x)) \<longrightarrow>
        x \<in> set (pending_labels st')) \<and>
     active_batches st' = filter (\<lambda>x. \<not> check_stale_batch now (snd x)) (active_batches st) \<and>
     (\<not> keep \<longrightarrow> pending_labels st' = [] \<and> active_batches st' = [] \<and> \<not> stale_sweep_timer st')"
proof -
  let ?st1 = "st\<lparr>pending_labels := fold ht_remove (map fst (filter (\<lambda>(k, i). check_stale_label now i) (pending_labels st)))
                (pending_labels st)\<rparr>"
  let ?ks = "map fst (filter (\<lambda>(k, b). check_stale_batch now b) (active_batches st))"
  let ?st2 = "fold sweep_batch ?ks ?st1"
  have p1: "pending_labels ?st1 = filter (\<lambda>x. \<not> check_stale_label now (snd x)) (pending_labels st)"
    using filter_stale [OF assms(3), of "check_stale_label now"] by (simp add: fold_ht_remove case_prod_beta)
  have "active_batches (fold sweep_batch ks s) = fold ht_remove ks (active_batches s)" for ks s
    by (induction ks arbitrary: s) (auto simp: sweep_batch_fields(7))
  then have a2: "active_batches ?st2 = filter (\<lambda>x. \<not> check_stale_batch now (snd x)) (active_batches st)"
    using filter_stale [OF assms(2), of "check_stale_batch now"] by (simp add: fold_ht_remove case_prod_beta)
  note l = fold_sweep_labels [of ?ks ?st1]
  have r: "pending_labels st' = pending_labels ?st2" "active_batches st' = active_batches ?st2"
    "\<not> keep \<Longrightarrow> pending_labels ?st1 = [] \<and> active_batches ?st2 = [] \<and> \<not> stale_sweep_timer st'"
    using assms(1) by (auto simp: stale_sweep_cb_def Let_def split: if_splits)
  have "x \<in> set (pending_labels ?st2)" if "x \<in> set (pending_labels st)" "\<not> check_stale_label now (snd x)"
    and stale: "\<forall>b \<in> set (active_batches st). check_stale_batch now (snd b) \<longrightarrow> batch_label (snd b) \<noteq> Some (fst x)" for x
  proof -
    have "x \<in> set (pending_labels ?st1)" using that p1 by simp
    moreover have "batch_label b \<noteq> Some (fst x)" if kb: "(k, b) \<in> set (active_batches ?st1)" "k \<in> set ?ks" for k b
    proof -
      obtain b' where "(k, b') \<in> set (active_batches st)" "check_stale_batch now b'" using kb(2) by auto
      moreover have "b' = b" using eq_key_imp_eq_value [OF assms(2), of k b' b] kb(1) calculation by simp
      ultimately show ?thesis using stale by force
    qed
    ultimately show ?thesis using l by blast
  qed
  moreover have "x \<in> set (pending_labels st) \<and> \<not> check_stale_label now (snd x)" if "x \<in> set (pending_labels ?st2)" for x
    using that l p1 by auto
  moreover have "pending_labels ?st1 = [] \<Longrightarrow> pending_labels ?st2 = []" using l by simp
  ultimately show ?thesis unfolding r(1,2) a2 [symmetric] using r(3) by blast
qed

text \<open>C33: Received bytes are cut into lines independently of how the network groups them: whatever chunks a stream of lines
  ended by carriage return and line feed arrives in, the lines handed on are exactly those lines in order, each cut to
  the 8703 bytes of the buffer, and the unfinished rest stays in the buffer.\<close>

theorem server_read_lines:
  assumes "list_all plain_line ls" "plain_line part" "concat chunks = wire_text ls @ part"
  shows "fold server_read chunks \<lparr>lb_buf = [], lb_lines = []\<rparr> =
     \<lparr>lb_buf = take 8703 part, lb_lines = map (take 8703) ls\<rparr>"
  using read_lines [OF assms(1,2), of "[]"] assms(3) by (simp add: read_chunks LINEBUF_SIZE_def)

theorem server_read_lines_witness:
  "fold server_read [''PIN'', ''G a'' @ [CHR 0x0D], [CHR 0x0A] @ ''PI''] \<lparr>lb_buf = [], lb_lines = []\<rparr> =
     \<lparr>lb_buf = take 8703 ''PI'', lb_lines = map (take 8703) [''PING a'']\<rparr>"
  by (rule server_read_lines) (simp_all add: plain_line_def wire_text_def)

text \<open>\<open>base64_encode\<close> is inverted by the decoder of RFC 4648 on ASCII text, so credentials for a proxy arrive as
  typed; the sign extension of plain \<open>char\<close> makes it wrong for bytes above 127, where the encoding of two different
  passwords is the same.\<close>

theorem base64_encode_roundtrip:
  "(ascii s \<longrightarrow> base64_decode (base64_encode s) = Some s) \<and>
   base64_encode [CHR ''a'', CHR 0xE9] = base64_encode [CHR ''b'', CHR 0xE9]"
proof -
  have "base64_encode [CHR ''a'', CHR 0xE9] = base64_encode [CHR ''b'', CHR 0xE9]" by code_simp
  with base64_roundtrip [of s] show ?thesis by blast
qed

theorem base64_encode_roundtrip_witness: "base64_decode (base64_encode ''user:pass'') = Some ''user:pass''"
  using base64_encode_roundtrip [of "''user:pass''"] by (simp add: uchar_def)

theorem stale_sweep_correct_witness:
  "let st = demo_sendq\<lparr>pending_labels := [(''hc1'', \<lparr>info_command = ''PRIVMSG'', info_target = None, info_sess = None, info_sent_time = 0, info_entry_id = 0\<rparr>),
        (''hc2'', \<lparr>info_command = ''WHO'', info_target = None, info_sess = None, info_sent_time = 90, info_entry_id = 0\<rparr>)]\<rparr>
   in \<forall>x \<in> set (pending_labels (snd (stale_sweep_cb 100 st))). \<not> check_stale_label 100 (snd x)"
proof -
  let ?st = "demo_sendq\<lparr>pending_labels := [(''hc1'', \<lparr>info_command = ''PRIVMSG'', info_target = None, info_sess = None, info_sent_time = 0, info_entry_id = 0\<rparr>),
        (''hc2'', \<lparr>info_command = ''WHO'', info_target = None, info_sess = None, info_sent_time = 90, info_entry_id = 0\<rparr>)]\<rparr>"
  have d: "distinct (map fst (active_batches ?st))" "distinct (map fst (pending_labels ?st))"
    by (simp_all add: demo_sendq_def)
  show ?thesis
    using stale_sweep_correct [OF prod.collapse [symmetric] d, of 100] by (simp add: Let_def)
qed

end
