(* ===== verification/Protocol.thy ===== *)
theory Protocol
  imports Sendq Chat_State
begin

text \<open>
  Lines of the protocol: the splitting of a line into words (\<open>process_data_init\<close> of \<open>src/src/common/outbound.c\<close>), message
  tags and the dispatch of a received line (\<open>src/src/common/proto-irc.c\<close>), and the commands that the client sends. The tables and
  functions of GLib and libc are parameters: \<open>skip\<close> is \<open>g_utf8_skip\<close>, \<open>mktime\<close> and \<open>tz\<close> (the result of \<open>get_timezone\<close>) the
  calendar, \<open>ne_ncmp\<close> is \<open>g_ascii_strncasecmp\<close>.
\<close>

section \<open>Words\<close>

text \<open>The loop: \<open>cur\<close> is the word being copied, last byte first, \<open>segs\<close> and \<open>eols\<close> the finished words and the rests of the
  line, last first. A multi-byte character that runs over the terminator is undefined.\<close>

function pdi_loop :: "(char \<Rightarrow> nat) \<Rightarrow> bool \<Rightarrow> bool \<Rightarrow> bool \<Rightarrow> bool \<Rightarrow> string \<Rightarrow> string list \<Rightarrow> string list \<Rightarrow> string \<Rightarrow>
    (string list \<times> string list) option" where
  "pdi_loop skip handle_quotes allow_escape space quote cur segs eols cmd =
     (case cmd of
        [] \<Rightarrow> Some (rev (rev cur # segs), rev eols)
      | c # rest \<Rightarrow>
          if c = CHR 0x22 \<and> handle_quotes \<and> \<not> (allow_escape \<and> chd rest = CHR 0x22) then
            if quote then pdi_loop skip handle_quotes allow_escape False False cur segs eols rest
            else pdi_loop skip handle_quotes allow_escape space True cur segs eols rest
          else if c = CHR '' '' \<and> \<not> quote then
            if \<not> space then pdi_loop skip handle_quotes allow_escape True quote [] (rev cur # segs) (rest # eols) rest
            else pdi_loop skip handle_quotes allow_escape True quote cur segs eols rest
          else
            (let src = (if c = CHR 0x22 \<and> handle_quotes then rest else cmd); len = skip (chd src)
             in if len = 0 \<or> length src < len then None
                else pdi_loop skip handle_quotes allow_escape False quote (rev (take len src) @ cur) segs eols (drop len src)))"
  by pat_completeness auto
termination
  by (relation "measure (\<lambda>(sk, hq, ae, sp, q, cur, segs, eols, cmd). length cmd)") (auto simp: Let_def split: if_splits)

declare pdi_loop.simps [simp del]

definition pad_words :: "string list \<Rightarrow> string list" where
  "pad_words ws = [] # take (PDIWORDS - 1) ws @ replicate (PDIWORDS - 1 - length ws) []"

text \<open>\<open>word[0]\<close> to \<open>word[PDIWORDS - 1]\<close> and \<open>word_eol\<close>; words beyond that have no pointer.\<close>

definition process_data_init :: "(char \<Rightarrow> nat) \<Rightarrow> bool \<Rightarrow> bool \<Rightarrow> string \<Rightarrow> (string list \<times> string list) option" where
  "process_data_init skip handle_quotes allow_escape_quotes cmd =
     map_option (\<lambda>(segs, eols). (pad_words segs, pad_words (cmd # eols)))
       (pdi_loop skip handle_quotes allow_escape_quotes False False [] [] [] cmd)"

section \<open>Message tags\<close>

definition tag_escape_char :: "char \<Rightarrow> string" where
  "tag_escape_char c =
     (if c = CHR '';'' then [CHR 0x5C, CHR '':'']
      else if c = CHR '' '' then [CHR 0x5C, CHR ''s'']
      else if c = CHR 0x5C then [CHR 0x5C, CHR 0x5C]
      else if c = CHR 0x0D then [CHR 0x5C, CHR ''r'']
      else if c = CHR 0x0A then [CHR 0x5C, CHR ''n'']
      else [c])"

definition escape_tag_value :: "string option \<Rightarrow> string" where
  "escape_tag_value value = (case value of None \<Rightarrow> [] | Some v \<Rightarrow> concat (map tag_escape_char v))"

definition tag_unescape_char :: "char \<Rightarrow> string" where
  "tag_unescape_char c =
     (if c = CHR '':'' then [CHR '';'']
      else if c = CHR ''s'' then [CHR '' '']
      else if c = CHR 0x5C then [CHR 0x5C]
      else if c = CHR ''r'' then [CHR 0x0D]
      else if c = CHR ''n'' then [CHR 0x0A]
      else [CHR 0x5C, c])"

fun unescape_tag_value :: "string \<Rightarrow> string" where
  "unescape_tag_value [] = []"
| "unescape_tag_value [c] = [c]"
| "unescape_tag_value (c # d # s) =
     (if c = CHR 0x5C then tag_unescape_char d @ unescape_tag_value s else c # unescape_tag_value (d # s))"

record message_tags_data =
  td_account :: "string option"
  td_identified :: bool
  td_timestamp :: int
  td_batch_id :: "string option"
  td_msgid :: "string option"
  td_label :: "string option"
  td_all_tags :: "(string \<times> string) list option"
  td_echo_confirmed :: bool
  td_oper :: "string option"

definition MESSAGE_TAGS_DATA_INIT :: message_tags_data where
  "MESSAGE_TAGS_DATA_INIT =
     \<lparr>td_account = None, td_identified = False, td_timestamp = 0, td_batch_id = None, td_msgid = None, td_label = None,
      td_all_tags = None, td_echo_confirmed = False, td_oper = None\<rparr>"

text \<open>The capabilities of the server that the tags depend on.\<close>

record tag_caps =
  have_message_tags :: bool
  have_batch :: bool
  have_account_tag :: bool
  have_idmsg :: bool
  have_server_time :: bool
  cap_labeled_response :: bool

text \<open>\<open>%d\<close> of \<open>sscanf\<close>: white space, a sign, digits.\<close>

definition scan_d :: "string \<Rightarrow> (int \<times> string) option" where
  "scan_d s =
     (let t = dropWhile is_space s;
          neg = (chd t = CHR ''-'');
          u = (if chd t = CHR ''-'' \<or> chd t = CHR ''+'' then tl t else t);
          ds = takeWhile is_digit u
      in if ds = [] then None else Some (if neg then - dec_value 0 ds else dec_value 0 ds, dropWhile is_digit u))"

definition scan_lit :: "char \<Rightarrow> string \<Rightarrow> string option" where
  "scan_lit c s = (if s \<noteq> [] \<and> hd s = c then Some (tl s) else None)"

record tm =
  tm_year :: int
  tm_mon :: int
  tm_mday :: int
  tm_hour :: int
  tm_min :: int
  tm_sec :: int

text \<open>The six numbers of \<open>YYYY-MM-DDThh:mm:ss\<close>, or fewer.\<close>

definition scan_iso :: "string \<Rightarrow> tm option" where
  "scan_iso s =
     do {
       (y, s) \<leftarrow> scan_d s; s \<leftarrow> scan_lit (CHR ''-'') s;
       (m, s) \<leftarrow> scan_d s; s \<leftarrow> scan_lit (CHR ''-'') s;
       (d, s) \<leftarrow> scan_d s; s \<leftarrow> scan_lit (CHR ''T'') s;
       (hh, s) \<leftarrow> scan_d s; s \<leftarrow> scan_lit (CHR '':'') s;
       (mm, s) \<leftarrow> scan_d s; s \<leftarrow> scan_lit (CHR '':'') s;
       (ss, s) \<leftarrow> scan_d s;
       Some \<lparr>tm_year = y - 1900, tm_mon = m - 1, tm_mday = d, tm_hour = hh, tm_min = mm, tm_sec = ss\<rparr>
     }"

definition handle_message_tag_time :: "(tm \<Rightarrow> int) \<Rightarrow> int \<Rightarrow> string \<Rightarrow> message_tags_data \<Rightarrow> message_tags_data" where
  "handle_message_tag_time mktime tz time td =
     (if time = [] then td
      else if last time = CHR ''Z'' then
        (case scan_iso time of
           None \<Rightarrow> td
         | Some t \<Rightarrow> td\<lparr>td_timestamp := (if mktime t < 0 then 0 else mktime t - tz)\<rparr>)
      else (case scan_d time of None \<Rightarrow> td | Some (t, _) \<Rightarrow> td\<lparr>td_timestamp := t\<rparr>))"

definition parse_iso8601_to_time_t :: "(tm \<Rightarrow> int) \<Rightarrow> int \<Rightarrow> string option \<Rightarrow> int" where
  "parse_iso8601_to_time_t mktime tz timestr =
     (case timestr of
        None \<Rightarrow> -1
      | Some s \<Rightarrow>
          if s = [] then -1
          else if last s = CHR ''Z'' then
            (case scan_iso s of None \<Rightarrow> -1 | Some t \<Rightarrow> if mktime t < 0 then -1 else mktime t - tz)
          else c_number s)"

text \<open>One tag; \<open>time\<close> is \<open>handle_message_tag_time\<close>.\<close>

definition handle_tag ::
    "tag_caps \<Rightarrow> (string \<Rightarrow> message_tags_data \<Rightarrow> message_tags_data) \<Rightarrow> string \<Rightarrow> message_tags_data \<Rightarrow> message_tags_data" where
  "handle_tag caps time tag td =
     (let key = takeWhile (\<lambda>c. c \<noteq> CHR ''='') tag;
          value = (if CHR ''='' \<in> set tag then unescape_tag_value (drop (length key + 1) tag) else []);
          td1 = (case td_all_tags td of None \<Rightarrow> td
                 | Some t \<Rightarrow> if have_message_tags caps \<or> have_batch caps
                             then td\<lparr>td_all_tags := Some (ht_insert key value t)\<rparr> else td);
          td2 = (if key = ''draft/oper'' then td1\<lparr>td_oper := Some value\<rparr>
                 else if have_account_tag caps \<and> key = ''account'' then td1\<lparr>td_account := Some value\<rparr> else td1);
          td3 = (if have_idmsg caps \<and> key = ''solanum.chat/identified'' then td2\<lparr>td_identified := True\<rparr> else td2);
          td4 = (if have_server_time caps \<and> key = ''time'' then time value td3 else td3);
          td5 = (if key = ''batch'' \<and> have_batch caps then td4\<lparr>td_batch_id := Some value\<rparr> else td4);
          td6 = (if have_message_tags caps \<and> key = ''msgid'' then td5\<lparr>td_msgid := Some value\<rparr> else td5)
      in if cap_labeled_response caps \<and> key = ''label'' then td6\<lparr>td_label := Some value\<rparr> else td6)"

definition handle_message_tags ::
    "tag_caps \<Rightarrow> (string \<Rightarrow> message_tags_data \<Rightarrow> message_tags_data) \<Rightarrow> string \<Rightarrow> message_tags_data \<Rightarrow> message_tags_data" where
  "handle_message_tags caps time tags_str td =
     fold (handle_tag caps time) (g_strsplit tags_str (CHR '';''))
       (if (have_message_tags caps \<or> have_batch caps) \<and> td_all_tags td = None then td\<lparr>td_all_tags := Some []\<rparr> else td)"

section \<open>Dispatch of a received line\<close>

text \<open>What a line leads to: nothing, a plugin that ate it, or a call of one of the three handlers with the session
  (\<open>None\<close> is the front one) and its arguments.\<close>

datatype inline_call =
    Inline_Dropped
  | Inline_Eaten
  | Named_Servermsg string string "string list"
  | Process_Numeric "nat option" int "string list" "string list" string
  | Process_Named_Msg "nat option" string "string list" "string list"

record inline_env =
  ie_net :: net_env
  ie_skip :: "char \<Rightarrow> nat"
  ie_caps :: tag_caps
  ie_time :: "string \<Rightarrow> message_tags_data \<Rightarrow> message_tags_data"
  ie_plugin :: "nat option \<Rightarrow> string \<Rightarrow> string list \<Rightarrow> string list \<Rightarrow> bool"
  ie_sessions :: "(nat \<times> session) list"
  ie_serv :: nserver

definition is_batch_start :: "(string \<Rightarrow> string \<Rightarrow> nat \<Rightarrow> int) \<Rightarrow> string \<Rightarrow> bool" where
  "is_batch_start ncmp buf =
     (let p = (if chd buf = CHR '':'' then dropWhile (\<lambda>c. c = CHR '' '') (dropWhile (\<lambda>c. c \<noteq> CHR '' '') buf) else buf)
      in ncmp p ''BATCH +'' 7 = 0)"

text \<open>The call of \<open>fe_confirm_entry\<close> for a label whose line is shown in a session that still exists.\<close>

definition confirm_entry :: "inline_env \<Rightarrow> pending_label_info \<Rightarrow> string option \<Rightarrow> (nat \<times> nat \<times> string option) list" where
  "confirm_entry env info msgid =
     (case info_sess info of
        None \<Rightarrow> []
      | Some sess \<Rightarrow> if info_entry_id info \<noteq> 0 \<and> sess < length (ie_sessions env) then [(sess, info_entry_id info, msgid)] else [])"

text \<open>A label that answers a pending command is taken out of the table, unless a batch starts.\<close>

definition confirm_label ::
    "inline_env \<Rightarrow> string \<Rightarrow> message_tags_data \<Rightarrow> sendq \<Rightarrow> message_tags_data \<times> sendq" where
  "confirm_label env buf td st =
     (case td_label td of
        None \<Rightarrow> (td, st)
      | Some l \<Rightarrow>
          if is_batch_start (ne_ncmp (ie_net env)) buf then (td, st)
          else
            (case map_of (pending_labels st) l of
               None \<Rightarrow> (td, st)
             | Some info \<Rightarrow>
                 (td\<lparr>td_echo_confirmed := True\<rparr>,
                  st\<lparr>fe_confirmed := fe_confirmed st @ confirm_entry env info (td_msgid td),
                     pending_labels := ht_remove l (pending_labels st)\<rparr>)))"

text \<open>The line is also scanned for addresses (\<open>url_check_line\<close>), which keeps a list of its own.\<close>

definition irc_inline :: "inline_env \<Rightarrow> string \<Rightarrow> sendq \<Rightarrow> (inline_call \<times> message_tags_data \<times> sendq) option" where
  "irc_inline env buf0 st0 =
     (if chd buf0 = CHR ''@'' \<and> CHR '' '' \<notin> set buf0 then Some (Inline_Dropped, MESSAGE_TAGS_DATA_INIT, st0)
      else
        (let buf = (if chd buf0 = CHR ''@'' then tl (dropWhile (\<lambda>c. c \<noteq> CHR '' '') buf0) else buf0);
             td0 = (if chd buf0 = CHR ''@''
                    then handle_message_tags (ie_caps env) (ie_time env) (tl (takeWhile (\<lambda>c. c \<noteq> CHR '' '') buf0)) MESSAGE_TAGS_DATA_INIT
                    else MESSAGE_TAGS_DATA_INIT);
             (td, st) = confirm_label env buf td0 st0
         in do {
              (word, word_eol) \<leftarrow> process_data_init (ie_skip env) False False buf;
              if chd buf = CHR '':'' then
                (let sess = (if is_channel (ns_server (ie_serv env)) (word ! 3)
                             then serv_channel (ie_serv env) (ie_sessions env) (word ! 3) else None);
                     type = word ! 2;
                     word1 = word[0 := type];
                     text = word_eol ! 4
                 in if ie_plugin env sess type word1 word_eol then Some (Inline_Eaten, td, st)
                    else
                      (let word2 = word1[1 := tl (word ! 1)]; eol2 = word_eol[1 := tl buf]
                       in if is_digit (chd (word ! 2))
                          then Some (Process_Numeric sess (c_atoi (word ! 2)) word2 eol2
                                      (if chd text = CHR '':'' then tl text else text), td, st)
                          else Some (Process_Named_Msg sess type word2 eol2, td, st)))
              else
                (let type = word ! 1; word1 = word[0 := type]
                 in if ie_plugin env None type word1 word_eol then Some (Inline_Eaten, td, st)
                    else Some (Named_Servermsg buf type word_eol, td, st))
            }))"

section \<open>Commands to the server\<close>

definition LOGIN_MSG_NICKSERV :: int where "LOGIN_MSG_NICKSERV = 1"
definition LOGIN_PASS :: int where "LOGIN_PASS = 7"
definition LOGIN_CHALLENGEAUTH :: int where "LOGIN_CHALLENGEAUTH = 8"

text \<open>The first component of the result is the new value of \<open>sent_capend\<close>.\<close>

definition irc_login :: "net_env \<Rightarrow> string \<Rightarrow> string \<Rightarrow> int \<Rightarrow> string \<Rightarrow> string \<Rightarrow> sendq \<Rightarrow> bool \<times> sendq" where
  "irc_login env nick password loginmethod user realname st =
     (let st1 = tcp_sendf env (''CAP LS 302'' @ crlf) st;
          st2 = (if password \<noteq> [] \<and> loginmethod = LOGIN_PASS
                 then tcp_sendf env (''PASS '' @ (if hd password = CHR '':'' \<or> CHR '' '' \<in> set password then '':'' else []) @
                        password @ crlf) st1
                 else st1)
      in (False, tcp_sendf env (''NICK '' @ nick @ crlf @ ''USER '' @ user @ '' 0 * :'' @ realname @ crlf) st2))"

definition irc_nickserv :: "net_env \<Rightarrow> int \<Rightarrow> string \<Rightarrow> string \<Rightarrow> string \<Rightarrow> string \<Rightarrow> sendq \<Rightarrow> sendq" where
  "irc_nickserv env loginmethod cmd arg1 arg2 arg3 st =
     (if loginmethod = LOGIN_MSG_NICKSERV
      then tcp_sendf env (''PRIVMSG NICKSERV :'' @ cmd @ '' '' @ arg1 @ arg2 @ arg3 @ crlf) st
      else tcp_sendf env (''NICKSERV '' @ cmd @ '' '' @ arg1 @ arg2 @ arg3 @ crlf) st)"

definition irc_ns_identify :: "net_env \<Rightarrow> int \<Rightarrow> string \<Rightarrow> sendq \<Rightarrow> sendq" where
  "irc_ns_identify env loginmethod pass st =
     (if loginmethod = LOGIN_CHALLENGEAUTH
      then tcp_sendf env (''PRIVMSG Q@CServe.quakenet.org :CHALLENGE'' @ crlf) st
      else irc_nickserv env loginmethod ''IDENTIFY'' pass [] [] st)"

definition irc_ns_ghost :: "net_env \<Rightarrow> int \<Rightarrow> string \<Rightarrow> string \<Rightarrow> sendq \<Rightarrow> sendq" where
  "irc_ns_ghost env loginmethod usname pass st =
     (if loginmethod \<noteq> LOGIN_CHALLENGEAUTH then irc_nickserv env loginmethod ''GHOST'' usname '' '' pass st else st)"

definition irc_join :: "net_env \<Rightarrow> string \<Rightarrow> string \<Rightarrow> sendq \<Rightarrow> sendq" where
  "irc_join env chan key st =
     tcp_sendf env (''JOIN '' @ chan @ (if key \<noteq> [] then '' '' @ key else []) @ crlf) st"

definition join_line :: "string \<Rightarrow> string \<Rightarrow> bool \<Rightarrow> string" where
  "join_line chanstr keystr send_keys = ''JOIN '' @ chanstr @ (if send_keys then '' '' @ keystr else []) @ crlf"

definition irc_join_list_flush :: "net_env \<Rightarrow> string \<Rightarrow> string \<Rightarrow> bool \<Rightarrow> sendq \<Rightarrow> sendq" where
  "irc_join_list_flush env chanstr keystr send_keys st = tcp_sendf env (join_line chanstr keystr send_keys) st"

text \<open>A favourite channel is its name and its key. The lines in the order they are flushed.\<close>

type_synonym favchannel = "string \<times> string option"

fun join_lines :: "nat \<Rightarrow> bool \<Rightarrow> bool \<Rightarrow> string \<Rightarrow> string \<Rightarrow> favchannel list \<Rightarrow> string list" where
  "join_lines len first_item send_keys chanlist keylist [] = [join_line chanlist keylist send_keys]"
| "join_lines len first_item send_keys chanlist keylist ((name, key) # favs) =
     (let len1 = len + length name + (case key of None \<Rightarrow> 0 | Some k \<Rightarrow> length k);
          flush = (512 \<le> len1);
          len2 = (if flush then 9 else len1);
          first = (flush \<or> first_item);
          send = (\<not> flush \<and> send_keys);
          chans = (if flush then [] else chanlist);
          keys = (if flush then [] else keylist)
      in (if flush then [join_line chanlist keylist send_keys] else []) @
         join_lines (if first then len2 else len2 + 2) False (send \<or> key \<noteq> None)
           (chans @ (if first then [] else '','') @ name)
           (keys @ (if first then [] else '','') @ (case key of None \<Rightarrow> ''x'' | Some k \<Rightarrow> k)) favs)"

definition irc_join_list :: "net_env \<Rightarrow> favchannel list \<Rightarrow> sendq \<Rightarrow> sendq" where
  "irc_join_list env favorites st = fold (tcp_sendf env) (join_lines 9 True False [] [] favorites) st"

definition irc_part :: "net_env \<Rightarrow> string \<Rightarrow> string \<Rightarrow> sendq \<Rightarrow> sendq" where
  "irc_part env chan reason st =
     tcp_sendf env (''PART '' @ chan @ (if reason \<noteq> [] then '' :'' @ reason else []) @ crlf) st"

definition irc_quit :: "net_env \<Rightarrow> string \<Rightarrow> sendq \<Rightarrow> sendq" where
  "irc_quit env reason st =
     (if reason \<noteq> [] then tcp_sendf env (''QUIT :'' @ reason @ crlf) st else tcp_send_len env (''QUIT'' @ crlf) st)"

definition irc_set_back :: "net_env \<Rightarrow> sendq \<Rightarrow> sendq" where
  "irc_set_back env st = tcp_send_len env (''AWAY'' @ crlf) st"

definition irc_set_away :: "net_env \<Rightarrow> string option \<Rightarrow> sendq \<Rightarrow> sendq" where
  "irc_set_away env reason st =
     tcp_sendf env (''AWAY :'' @ (case reason of None \<Rightarrow> '' '' | Some r \<Rightarrow> if r = [] then '' '' else r) @ crlf) st"

definition irc_ctcp :: "net_env \<Rightarrow> string \<Rightarrow> string \<Rightarrow> sendq \<Rightarrow> sendq" where
  "irc_ctcp env to msg st =
     snd (tcp_sendf_labeled_tracked env ''CTCP'' (Some to) (''PRIVMSG '' @ to @ '' :'' @ [CHR 0x01] @ msg @ [CHR 0x01] @ crlf) st)"

definition irc_nctcp :: "net_env \<Rightarrow> string \<Rightarrow> string \<Rightarrow> sendq \<Rightarrow> sendq" where
  "irc_nctcp env to msg st = tcp_sendf env (''NOTICE '' @ to @ '' :'' @ [CHR 0x01] @ msg @ [CHR 0x01] @ crlf) st"

definition irc_cycle :: "net_env \<Rightarrow> string \<Rightarrow> string \<Rightarrow> sendq \<Rightarrow> sendq" where
  "irc_cycle env chan key st = tcp_sendf env (''PART '' @ chan @ crlf @ ''JOIN '' @ chan @ '' '' @ key @ crlf) st"

definition irc_kick :: "net_env \<Rightarrow> string \<Rightarrow> string \<Rightarrow> string \<Rightarrow> sendq \<Rightarrow> sendq" where
  "irc_kick env chan nick reason st =
     tcp_sendf env (''KICK '' @ chan @ '' '' @ nick @ (if reason \<noteq> [] then '' :'' @ reason else []) @ crlf) st"

definition irc_invite :: "net_env \<Rightarrow> string \<Rightarrow> string \<Rightarrow> sendq \<Rightarrow> sendq" where
  "irc_invite env chan nick st = tcp_sendf env (''INVITE '' @ nick @ '' '' @ chan @ crlf) st"

definition irc_mode :: "net_env \<Rightarrow> string \<Rightarrow> string \<Rightarrow> sendq \<Rightarrow> sendq" where
  "irc_mode env target mode st = tcp_sendf env (''MODE '' @ target @ '' '' @ mode @ crlf) st"

definition irc_join_info :: "net_env \<Rightarrow> string \<Rightarrow> sendq \<Rightarrow> sendq" where
  "irc_join_info env chan st = tcp_sendf env (''MODE '' @ chan @ crlf) st"

definition irc_user_list :: "net_env \<Rightarrow> bool \<Rightarrow> string \<Rightarrow> sendq \<Rightarrow> sendq" where
  "irc_user_list env whox chan st =
     tcp_sendf env (''WHO '' @ chan @ (if whox then '' %chtsunfra,152'' else []) @ crlf) st"

definition irc_userhost :: "net_env \<Rightarrow> string \<Rightarrow> sendq \<Rightarrow> sendq" where
  "irc_userhost env nick st = tcp_sendf env (''USERHOST '' @ nick @ crlf) st"

definition irc_away_status :: "net_env \<Rightarrow> bool \<Rightarrow> string \<Rightarrow> sendq \<Rightarrow> sendq" where
  "irc_away_status env whox chan st =
     tcp_sendf env (''WHO '' @ chan @ (if whox then '' %chtsunfra,152'' else []) @ crlf) st"

definition irc_user_whois :: "net_env \<Rightarrow> string \<Rightarrow> sendq \<Rightarrow> sendq" where
  "irc_user_whois env nicks st = tcp_sendf env (''WHOIS '' @ nicks @ crlf) st"

text \<open>\<open>reply\<close> is \<open>reply_msgid\<close> of the session of the channel or dialog, if there is one; it is cleared when it is used.\<close>

definition irc_message :: "net_env \<Rightarrow> bool \<Rightarrow> string option \<Rightarrow> string \<Rightarrow> string \<Rightarrow> sendq \<Rightarrow> string option \<times> sendq" where
  "irc_message env tags reply chan msg st =
     (let line = ''PRIVMSG '' @ chan @ '' :'' @ msg @ crlf
      in case reply of
           Some r \<Rightarrow>
             if tags then (None, snd (tcp_sendf_with_tags env ''PRIVMSG'' (Some chan) ''+reply'' r line st))
             else (reply, snd (tcp_sendf_labeled_tracked env ''PRIVMSG'' (Some chan) line st))
         | None \<Rightarrow> (reply, snd (tcp_sendf_labeled_tracked env ''PRIVMSG'' (Some chan) line st)))"

definition irc_action :: "net_env \<Rightarrow> bool \<Rightarrow> string option \<Rightarrow> string \<Rightarrow> string \<Rightarrow> sendq \<Rightarrow> string option \<times> sendq" where
  "irc_action env tags reply chan act st =
     (let line = ''PRIVMSG '' @ chan @ '' :'' @ [CHR 0x01] @ ''ACTION '' @ act @ [CHR 0x01] @ crlf
      in case reply of
           Some r \<Rightarrow>
             if tags then (None, snd (tcp_sendf_with_tags env ''ACTION'' (Some chan) ''+reply'' r line st))
             else (reply, snd (tcp_sendf_labeled_tracked env ''ACTION'' (Some chan) line st))
         | None \<Rightarrow> (reply, snd (tcp_sendf_labeled_tracked env ''ACTION'' (Some chan) line st)))"

definition irc_notice :: "net_env \<Rightarrow> string \<Rightarrow> string \<Rightarrow> sendq \<Rightarrow> sendq" where
  "irc_notice env chan msg st =
     snd (tcp_sendf_labeled_tracked env ''NOTICE'' (Some chan) (''NOTICE '' @ chan @ '' :'' @ msg @ crlf) st)"

definition irc_topic :: "net_env \<Rightarrow> string \<Rightarrow> string option \<Rightarrow> sendq \<Rightarrow> sendq" where
  "irc_topic env chan topic st =
     tcp_sendf env (''TOPIC '' @ chan @
       (case topic of None \<Rightarrow> '' :'' | Some t \<Rightarrow> if t \<noteq> [] then '' :'' @ t else []) @ crlf) st"

text \<open>\<open>%d\<close> of a signed number.\<close>

definition irc_list_channels :: "net_env \<Rightarrow> bool \<Rightarrow> string \<Rightarrow> int \<Rightarrow> sendq \<Rightarrow> sendq" where
  "irc_list_channels env listargs arg min_users st =
     (if arg \<noteq> [] then tcp_sendf env (''LIST '' @ arg @ crlf) st
      else if listargs then tcp_sendf env (''LIST >'' @ int_string (min_users - 1) @ '',<10000'' @ crlf) st
      else tcp_send_len env (''LIST'' @ crlf) st)"

definition irc_names :: "net_env \<Rightarrow> string \<Rightarrow> sendq \<Rightarrow> sendq" where
  "irc_names env chan st = tcp_sendf env (''NAMES '' @ chan @ crlf) st"

definition irc_change_nick :: "net_env \<Rightarrow> string \<Rightarrow> sendq \<Rightarrow> sendq" where
  "irc_change_nick env new_nick st = tcp_sendf env (''NICK '' @ new_nick @ crlf) st"

definition irc_ping :: "net_env \<Rightarrow> string \<Rightarrow> string \<Rightarrow> sendq \<Rightarrow> sendq" where
  "irc_ping env to timestring st =
     (if to \<noteq> [] then tcp_sendf env (''PRIVMSG '' @ to @ '' :'' @ [CHR 0x01] @ ''PING '' @ timestring @ [CHR 0x01] @ crlf) st
      else tcp_sendf env (''PING '' @ timestring @ crlf) st)"

definition irc_raw :: "net_env \<Rightarrow> string \<Rightarrow> sendq \<Rightarrow> bool \<times> sendq" where
  "irc_raw env raw st =
     (if raw = [] then (False, st)
      else (True, if length raw < 4096 - 3 then tcp_send_len env (raw @ crlf) st
                  else tcp_send_len env crlf (tcp_send_len env raw st)))"

section \<open>Words of a line\<close>

definition pdi_word :: "bool \<Rightarrow> string \<Rightarrow> bool" where
  "pdi_word quotes w \<longleftrightarrow> w \<noteq> [] \<and> ascii w \<and> cstring w \<and> CHR '' '' \<notin> set w \<and> (quotes \<longrightarrow> CHR 0x22 \<notin> set w)"

lemma pdi_word:
  assumes "ascii_skip skip"
  shows "ascii w \<Longrightarrow> CHR '' '' \<notin> set w \<Longrightarrow> (quotes \<longrightarrow> CHR 0x22 \<notin> set w) \<Longrightarrow>
     pdi_loop skip quotes esc sp False cur segs eols (w @ rest) =
       pdi_loop skip quotes esc (w = [] \<and> sp) False (rev w @ cur) segs eols rest"
proof (induction w arbitrary: cur sp)
  case (Cons c w)
  have c: "c \<noteq> CHR '' ''" "\<not> (c = CHR 0x22 \<and> quotes)" "skip c = 1"
    using assms Cons.prems by (auto simp: ascii_skip_def)
  then have "pdi_loop skip quotes esc sp False cur segs eols ((c # w) @ rest) =
      pdi_loop skip quotes esc False False (c # cur) segs eols (w @ rest)"
    by (cases quotes; subst pdi_loop.simps; simp add: Let_def)
  also have "\<dots> = pdi_loop skip quotes esc False False (rev w @ c # cur) segs eols rest"
    using Cons.IH [of False "c # cur"] Cons.prems by simp
  finally show ?case by simp
qed simp

lemma pdi_space:
  "pdi_loop skip quotes esc False False cur segs eols (CHR '' '' # rest) =
     pdi_loop skip quotes esc True False [] (rev cur # segs) (rest # eols) rest"
  by (subst pdi_loop.simps) simp

lemma pdi_end: "pdi_loop skip quotes esc sp q cur segs eols [] = Some (rev (rev cur # segs), rev eols)"
  by (subst pdi_loop.simps) simp

text \<open>The rests of the line behind each word.\<close>

definition rests :: "string list \<Rightarrow> string list" where
  "rests ws = map (\<lambda>i. join_sep (CHR '' '') (drop i ws)) [0..<length ws]"

lemma rests_Cons: "rests (w # ws) = join_sep (CHR '' '') (w # ws) # rests ws"
proof -
  have "[0..<length (w # ws)] = 0 # map Suc [0..<length ws]" by (simp add: map_Suc_upt upt_conv_Cons del: upt_Suc)
  then show ?thesis by (simp add: rests_def comp_def)
qed

lemma pdi_words:
  assumes "ascii_skip skip"
  shows "ws \<noteq> [] \<Longrightarrow> list_all (pdi_word quotes) ws \<Longrightarrow>
     pdi_loop skip quotes esc sp False [] segs eols (join_sep (CHR '' '') ws) = Some (rev segs @ ws, rev eols @ tl (rests ws))"
proof (induction ws arbitrary: sp segs eols)
  case (Cons w ws)
  then have w: "ascii w" "CHR '' '' \<notin> set w" "quotes \<longrightarrow> CHR 0x22 \<notin> set w" "w \<noteq> []" by (simp_all add: pdi_word_def)
  show ?case
  proof (cases ws)
    case Nil
    then show ?thesis using pdi_word [OF assms w(1-3), of esc sp "[]" segs eols "[]"] by (simp add: pdi_end rests_def)
  next
    case (Cons v vs)
    have j: "join_sep (CHR '' '') (w # ws) = w @ CHR '' '' # join_sep (CHR '' '') ws" using Cons by simp
    have "pdi_loop skip quotes esc sp False [] segs eols (join_sep (CHR '' '') (w # ws)) =
        pdi_loop skip quotes esc True False [] (w # segs) (join_sep (CHR '' '') ws # eols) (join_sep (CHR '' '') ws)"
      unfolding j using pdi_word [OF assms w(1-3), of esc sp "[]" segs eols "CHR '' '' # join_sep (CHR '' '') ws"] w(4)
      by (simp add: pdi_space)
    also have "\<dots> = Some (rev (w # segs) @ ws, rev (join_sep (CHR '' '') ws # eols) @ tl (rests ws))"
      by (rule Cons.IH) (use Cons.prems Cons in auto)
    finally show ?thesis using Cons by (simp add: rests_Cons)
  qed
qed simp

lemma pad_words_nth:
  "length (pad_words ws) = PDIWORDS \<and> (\<forall>i < PDIWORDS - 1. pad_words ws ! Suc i = (if i < length ws then ws ! i else []))"
  by (auto simp: pad_words_def nth_append PDIWORDS_def)

lemma pdi_line:
  assumes "ascii_skip skip" "ws \<noteq> []" "list_all (pdi_word quotes) ws"
  shows "process_data_init skip quotes esc (join_sep (CHR '' '') ws) = Some (pad_words ws, pad_words (rests ws))"
proof -
  have "join_sep (CHR '' '') ws # tl (rests ws) = rests ws" using assms(2) by (cases ws) (simp_all add: rests_Cons)
  then show ?thesis using pdi_words [OF assms, of esc False "[]" "[]"] by (simp add: process_data_init_def)
qed

section \<open>Tags of a line\<close>

lemma unescape_escape_char: "unescape_tag_value (tag_escape_char c @ s) = c # unescape_tag_value s"
  by (cases s) (auto simp: tag_escape_char_def tag_unescape_char_def)

lemma unescape_escape: "unescape_tag_value (escape_tag_value (Some v)) = v"
  by (simp add: escape_tag_value_def) (induction v; simp add: unescape_escape_char)

lemma escape_no_sep: "CHR '';'' \<notin> set (escape_tag_value (Some v))" "CHR '' '' \<notin> set (escape_tag_value (Some v))"
  by (auto simp: escape_tag_value_def tag_escape_char_def split: if_splits)

definition tag_text :: "string \<times> string \<Rightarrow> string" where
  "tag_text t = fst t @ CHR ''='' # escape_tag_value (Some (snd t))"

definition tag_key :: "string \<Rightarrow> bool" where
  "tag_key k \<longleftrightarrow> CHR ''='' \<notin> set k \<and> CHR '';'' \<notin> set k \<and> CHR '' '' \<notin> set k"

lemma tag_text_key:
  assumes "tag_key k"
  shows "takeWhile (\<lambda>c. c \<noteq> CHR ''='') (tag_text (k, v)) = k" "CHR ''='' \<in> set (tag_text (k, v))"
    "unescape_tag_value (drop (length k + 1) (tag_text (k, v))) = v"
  using assms unescape_escape [of v]
  by (simp_all add: tag_text_def tag_key_def takeWhile_append takeWhile_eq_all_conv [THEN iffD2])

lemma map_of_ht_insert: "map_of (ht_insert k v t) = (map_of t)(k \<mapsto> v)"
proof -
  have "map_of (ht_remove k t) k' = (if k' = k then None else map_of t k')" for k'
    by (induction t) (auto simp: ht_remove_def)
  then show ?thesis by (auto simp: ht_insert_def)
qed

text \<open>What one tag does to the fields.\<close>

definition tag_time_only :: "(string \<Rightarrow> message_tags_data \<Rightarrow> message_tags_data) \<Rightarrow> bool" where
  "tag_time_only time \<longleftrightarrow> (\<forall>v td. \<exists>t. time v td = td\<lparr>td_timestamp := t\<rparr>)"

lemma handle_message_tag_time_only: "tag_time_only (handle_message_tag_time mktime tz)"
  unfolding tag_time_only_def
proof (intro allI)
  fix v and td :: message_tags_data
  have "\<exists>t. td = td\<lparr>td_timestamp := t\<rparr>" by (rule exI [of _ "td_timestamp td"]) simp
  then show "\<exists>t. handle_message_tag_time mktime tz v td = td\<lparr>td_timestamp := t\<rparr>"
    by (auto simp: handle_message_tag_time_def split: option.splits)
qed

lemma handle_tag_fields:
  assumes "tag_key k" "have_message_tags caps" "tag_time_only time"
  shows "td_msgid (handle_tag caps time (tag_text (k, v)) td) = (if k = ''msgid'' then Some v else td_msgid td)"
    "td_label (handle_tag caps time (tag_text (k, v)) td) =
       (if k = ''label'' \<and> cap_labeled_response caps then Some v else td_label td)"
    "td_account (handle_tag caps time (tag_text (k, v)) td) =
       (if k = ''account'' \<and> have_account_tag caps then Some v else td_account td)"
    "td_all_tags td = Some t \<Longrightarrow> \<exists>t'. td_all_tags (handle_tag caps time (tag_text (k, v)) td) = Some t' \<and>
       map_of t' = (map_of t)(k \<mapsto> v)"
proof -
  have time: "\<exists>x. time v td' = td'\<lparr>td_timestamp := x\<rparr>" for td' using assms(3) by (simp add: tag_time_only_def)
  define T where "T = (\<lambda>td'. SOME x. time v td' = td'\<lparr>td_timestamp := x\<rparr>)"
  have T: "time v td' = td'\<lparr>td_timestamp := T td'\<rparr>" for td' unfolding T_def by (rule someI_ex [OF time])
  note k = tag_text_key [OF assms(1), of v]
  note d = handle_tag_def [of caps time "tag_text (k, v)" td, unfolded k(1) Let_def if_P [OF k(2)] k(3) T]
  show "td_msgid (handle_tag caps time (tag_text (k, v)) td) = (if k = ''msgid'' then Some v else td_msgid td)"
    "td_label (handle_tag caps time (tag_text (k, v)) td) =
       (if k = ''label'' \<and> cap_labeled_response caps then Some v else td_label td)"
    "td_account (handle_tag caps time (tag_text (k, v)) td) =
       (if k = ''account'' \<and> have_account_tag caps then Some v else td_account td)"
    unfolding d using assms(2) by (auto split: option.split)
  show "\<exists>t'. td_all_tags (handle_tag caps time (tag_text (k, v)) td) = Some t' \<and> map_of t' = (map_of t)(k \<mapsto> v)"
    if "td_all_tags td = Some t"
    unfolding d using assms(2) that map_of_ht_insert [of k v t] by auto
qed

lemma map_of_rev_Cons:
  "map_of (rev ((k, v) # xs)) j = (case map_of (rev xs) j of Some w \<Rightarrow> Some w | None \<Rightarrow> if j = k then Some v else None)"
  by (simp add: map_add_def split: option.split)

text \<open>A field that a tag of its own sets holds the value of the last such tag.\<close>

lemma fold_tag_field:
  assumes "\<And>k v td. tag_key k \<Longrightarrow> fld (handle_tag caps time (tag_text (k, v)) td) = (if k = key then Some v else fld td)"
  shows "list_all (tag_key \<circ> fst) tags \<Longrightarrow>
     fld (fold (handle_tag caps time) (map tag_text tags) td) = (case map_of (rev tags) key of None \<Rightarrow> fld td | Some v \<Rightarrow> Some v)"
proof (induction tags arbitrary: td)
  case (Cons x tags)
  obtain k v where x: "x = (k, v)" by (cases x) auto
  have "fld (handle_tag caps time (tag_text (k, v)) td) = (if k = key then Some v else fld td)"
    using assms Cons.prems x by simp
  then show ?case using Cons x by (simp del: rev.simps add: map_of_rev_Cons split: option.split)
qed simp

lemma fold_all_tags:
  assumes "have_message_tags caps" "tag_time_only time"
  shows "list_all (tag_key \<circ> fst) tags \<Longrightarrow> td_all_tags td = Some t \<Longrightarrow>
     \<exists>t'. td_all_tags (fold (handle_tag caps time) (map tag_text tags) td) = Some t' \<and>
       (\<forall>j. map_of t' j = (case map_of (rev tags) j of None \<Rightarrow> map_of t j | Some v \<Rightarrow> Some v))"
proof (induction tags arbitrary: td t)
  case (Cons x tags)
  obtain k v where x: "x = (k, v)" by (cases x) auto
  then obtain t1 where t1: "td_all_tags (handle_tag caps time (tag_text (k, v)) td) = Some t1"
    "map_of t1 = (map_of t)(k \<mapsto> v)"
    using handle_tag_fields(4) [OF _ assms Cons.prems(2), of k v] Cons.prems(1) by auto
  obtain t' where "td_all_tags (fold (handle_tag caps time) (map tag_text tags) (handle_tag caps time (tag_text (k, v)) td)) = Some t'"
    "\<forall>j. map_of t' j = (case map_of (rev tags) j of None \<Rightarrow> map_of t1 j | Some v \<Rightarrow> Some v)"
    using Cons.IH [OF _ t1(1)] Cons.prems(1) by auto
  then show ?case using x t1(2) by (intro exI [of _ t']) (simp del: rev.simps add: map_of_rev_Cons split: option.split)
qed simp

section \<open>Joining a list of channels\<close>

definition key_text :: "favchannel \<Rightarrow> string" where
  "key_text f = (case snd f of None \<Rightarrow> ''x'' | Some k \<Rightarrow> k)"

text \<open>The line that joins a group of favourites.\<close>

definition group_line :: "favchannel list \<Rightarrow> string" where
  "group_line fs = join_line (join_sep (CHR '','') (map fst fs)) (join_sep (CHR '','') (map key_text fs))
     (list_ex (\<lambda>f. snd f \<noteq> None) fs)"

lemma join_sep_snoc: "join_sep c (xs @ [x]) = join_sep c xs @ (if xs = [] then [] else [c]) @ x"
  by (induction c xs rule: join_sep.induct) auto

lemma join_lines_groups:
  "\<exists>groups. join_lines len (fs = []) (list_ex (\<lambda>f. snd f \<noteq> None) fs) (join_sep (CHR '','') (map fst fs))
       (join_sep (CHR '','') (map key_text fs)) favs = map group_line groups \<and> concat groups = fs @ favs"
proof (induction favs arbitrary: len fs)
  case Nil
  then show ?case by (intro exI [of _ "[fs]"]) (simp add: group_line_def)
next
  case (Cons f favs)
  obtain name key where f: "f = (name, key)" by (cases f) auto
  have kt: "key_text (name, key) = (case key of None \<Rightarrow> ''x'' | Some k \<Rightarrow> k)" by (simp add: key_text_def)
  let ?len1 = "len + length name + (case key of None \<Rightarrow> 0 | Some k \<Rightarrow> length k)"
  show ?case
  proof (cases "512 \<le> ?len1")
    case True
    obtain groups where "join_lines 9 ([f] = []) (list_ex (\<lambda>f. snd f \<noteq> None) [f]) (join_sep (CHR '','') (map fst [f]))
       (join_sep (CHR '','') (map key_text [f])) favs = map group_line groups" "concat groups = [f] @ favs"
      using Cons.IH [of 9 "[f]"] by blast
    then show ?thesis using True f by (intro exI [of _ "fs # groups"]) (simp add: Let_def group_line_def [of fs] kt)
  next
    case False
    obtain groups where "join_lines (if fs = [] then ?len1 else ?len1 + 2) (fs @ [f] = []) (list_ex (\<lambda>f. snd f \<noteq> None) (fs @ [f]))
       (join_sep (CHR '','') (map fst (fs @ [f]))) (join_sep (CHR '','') (map key_text (fs @ [f]))) favs = map group_line groups"
      "concat groups = (fs @ [f]) @ favs"
      using Cons.IH [of "if fs = [] then ?len1 else ?len1 + 2" "fs @ [f]"] by blast
    then show ?thesis using False f
      by (intro exI [of _ groups]) (cases "fs = []"; simp add: Let_def join_sep_snoc kt)
  qed
qed

lemma join_list_groups: "\<exists>groups. join_lines 9 True False [] [] favs = map group_line groups \<and> concat groups = favs"
  using join_lines_groups [of 9 "[]" favs] by simp

section \<open>Labels answered\<close>

lemma ht_remove_fresh: "map_of t k = None \<Longrightarrow> ht_remove k t = t"
  by (auto simp: ht_remove_def filter_id_conv map_of_eq_None_iff image_iff)

lemma ht_remove_insert: "map_of t k = None \<Longrightarrow> ht_remove k (ht_insert k v t) = t"
  using ht_remove_fresh [of t k] by (simp add: ht_insert_def ht_remove_def)

lemma send_len_labels [simp]: "pending_labels (tcp_send_len env b st) = pending_labels st"
proof (cases "throttled env st")
  case True
  have "frame (snd (tcp_send_queue (ne_now env) (enqueue env b st))) = frame st"
    by (simp add: tcp_send_queue_def send_queue_frame)
  from frame_eqD(7) [OF this] show ?thesis by (simp add: tcp_send_len_throttled [OF True] Let_def)
next
  case False
  then show ?thesis by (auto simp: tcp_send_len_def throttled_def server_send_real_def)
qed

lemma tracked_labels:
  assumes "have_labeled_response st"
  shows "pending_labels (snd (tcp_sendf_labeled_tracked env command target s st)) =
     ht_insert (label_text (label_counter st))
       \<lparr>info_command = command, info_target = target, info_sess = None, info_sent_time = ne_now env, info_entry_id = 0\<rparr> (pending_labels st)"
  using assms
  by (auto simp: tcp_sendf_labeled_tracked_def track_label_def tcp_vsendf_labeled_def tcp_generate_label_def
      server_ensure_stale_sweep_timer_def)

section \<open>Properties\<close>

text \<open>A line made of words is taken apart into the same words: for ASCII words without spaces (and without quotes where quotes
  are handled), joined by single spaces, \<open>process_data_init\<close> is defined, \<open>word[i]\<close> is the \<open>i\<close>-th word and
  \<open>word_eol[i]\<close> the rest of the line from it on, for the first 31 words; the other entries are empty.\<close>

theorem process_data_init_words:
  assumes "ascii_skip skip" "ws \<noteq> []" "list_all (pdi_word quotes) ws"
  shows "\<exists>word word_eol. process_data_init skip quotes esc (join_sep (CHR '' '') ws) = Some (word, word_eol) \<and>
     length word = PDIWORDS \<and> length word_eol = PDIWORDS \<and>
     (\<forall>i < PDIWORDS - 1. word ! Suc i = (if i < length ws then ws ! i else []) \<and>
        word_eol ! Suc i = (if i < length ws then join_sep (CHR '' '') (drop i ws) else []))"
  using pdi_line [OF assms, of esc] pad_words_nth [of ws] pad_words_nth [of "rests ws"] by (auto simp: rests_def)

theorem process_data_init_words_witness:
  "\<exists>word word_eol. process_data_init (\<lambda>c. 1) True True ''MODE #chan +o nick'' = Some (word, word_eol) \<and>
     word ! 2 = ''#chan'' \<and> word_eol ! 3 = ''+o nick''"
proof -
  have "ascii_skip (\<lambda>c. 1)" by (simp add: ascii_skip_def)
  moreover have "list_all (pdi_word True) [''MODE'', ''#chan'', ''+o'', ''nick'']"
    by (simp add: pdi_word_def ascii_def cstring_def uchar_def)
  ultimately obtain word word_eol where "process_data_init (\<lambda>c. 1) True True (join_sep (CHR '' '') [''MODE'', ''#chan'', ''+o'', ''nick'']) =
      Some (word, word_eol)" "\<forall>i < 31. word ! Suc i = (if i < 4 then [''MODE'', ''#chan'', ''+o'', ''nick''] ! i else []) \<and>
        word_eol ! Suc i = (if i < 4 then join_sep (CHR '' '') (drop i [''MODE'', ''#chan'', ''+o'', ''nick'']) else [])"
    using process_data_init_words [of "\<lambda>c. 1" "[''MODE'', ''#chan'', ''+o'', ''nick'']" True True]
    by (auto simp: PDIWORDS_def)
  note w = this
  have "word ! Suc 1 = ''#chan''" "word_eol ! Suc 2 = ''+o nick''"
    using w(2) [THEN spec, of 1] w(2) [THEN spec, of 2] by simp_all
  with w(1) show ?thesis by (simp add: numeral_eq_Suc)
qed

text \<open>C31: Message tags are read as they were written: for any list of tags with distinct keys, each value escaped by
  \<open>escape_tag_value\<close>, \<open>handle_message_tags\<close> stores exactly these values, unescaped, in the table for plugins and in the
  fields for the message id, the label and the account, as far as the server has the capabilities.\<close>

theorem handle_message_tags_roundtrip:
  assumes "list_all (tag_key \<circ> fst) tags" "distinct (map fst tags)" "tags \<noteq> []" "have_message_tags caps"
    and "cap_labeled_response caps" "have_account_tag caps"
  shows "\<exists>td t. handle_message_tags caps (handle_message_tag_time mktime tz) (join_sep (CHR '';'') (map tag_text tags))
       MESSAGE_TAGS_DATA_INIT = td \<and> td_all_tags td = Some t \<and> map_of t = map_of tags \<and>
     td_msgid td = map_of tags ''msgid'' \<and> td_label td = map_of tags ''label'' \<and> td_account td = map_of tags ''account''"
proof -
  define td where "td = handle_message_tags caps (handle_message_tag_time mktime tz) (join_sep (CHR '';'') (map tag_text tags))
    MESSAGE_TAGS_DATA_INIT"
  let ?time = "handle_message_tag_time mktime tz"
  note ok = assms(4) handle_message_tag_time_only [of mktime tz]
  have "g_strsplit (join_sep (CHR '';'') (map tag_text tags)) (CHR '';'') = map tag_text tags"
    by (rule g_strsplit_join) (use assms(1,3) escape_no_sep in \<open>auto simp: tag_text_def tag_key_def list_all_iff\<close>)
  then have td: "td = fold (handle_tag caps ?time) (map tag_text tags) (MESSAGE_TAGS_DATA_INIT\<lparr>td_all_tags := Some []\<rparr>)"
    using assms(4) by (simp add: td_def handle_message_tags_def MESSAGE_TAGS_DATA_INIT_def)
  have m: "map_of (rev tags) = map_of tags" using map_of_inject_set [of "rev tags" tags] assms(2) by (simp add: distinct_rev flip: rev_map)
  note f = fold_tag_field [OF _ assms(1), where td = "MESSAGE_TAGS_DATA_INIT\<lparr>td_all_tags := Some []\<rparr>" and caps = caps and time = ?time]
  have "td_msgid td = map_of tags ''msgid''" unfolding td
    using f [of td_msgid "''msgid''"] handle_tag_fields(1) [OF _ ok] m by (simp add: MESSAGE_TAGS_DATA_INIT_def split: option.split)
  moreover have "td_label td = map_of tags ''label''" unfolding td
    using f [of td_label "''label''"] handle_tag_fields(2) [OF _ ok] assms(5) m by (simp add: MESSAGE_TAGS_DATA_INIT_def split: option.split)
  moreover have "td_account td = map_of tags ''account''" unfolding td
    using f [of td_account "''account''"] handle_tag_fields(3) [OF _ ok] assms(6) m by (simp add: MESSAGE_TAGS_DATA_INIT_def split: option.split)
  moreover have "\<exists>t. td_all_tags td = Some t \<and> map_of t = map_of tags"
  proof -
    obtain t' where t': "td_all_tags td = Some t'" "\<forall>j. map_of t' j = (case map_of tags j of None \<Rightarrow> map_of [] j | Some v \<Rightarrow> Some v)"
      using fold_all_tags [OF ok assms(1), of "MESSAGE_TAGS_DATA_INIT\<lparr>td_all_tags := Some []\<rparr>" "[]"] m td by auto
    have "map_of t' j = map_of tags j" for j using t'(2) by (cases "map_of tags j") auto
    with t'(1) show ?thesis by auto
  qed
  ultimately show ?thesis using td_def by blast
qed

theorem handle_message_tags_roundtrip_witness:
  "\<exists>td. handle_message_tags \<lparr>have_message_tags = True, have_batch = False, have_account_tag = True, have_idmsg = False,
       have_server_time = True, cap_labeled_response = True\<rparr> (handle_message_tag_time (\<lambda>t. 0) 0)
       (join_sep (CHR '';'') (map tag_text [(''msgid'', ''a b;c''), (''account'', ''bob'')])) MESSAGE_TAGS_DATA_INIT = td \<and>
     td_msgid td = Some ''a b;c'' \<and> td_account td = Some ''bob''"
  using handle_message_tags_roundtrip [of "[(''msgid'', ''a b;c''), (''account'', ''bob'')]"
      "\<lparr>have_message_tags = True, have_batch = False, have_account_tag = True, have_idmsg = False,
       have_server_time = True, cap_labeled_response = True\<rparr>" "\<lambda>t. 0" 0]
  by (auto simp: tag_key_def)

text \<open>The response to a command carries its label.\<close>

definition labelled :: "string \<Rightarrow> string \<Rightarrow> string" where
  "labelled label rest = ''@label='' @ label @ CHR '' '' # rest"

lemma label_plain:
  "\<forall>c \<in> set (label_text n). c \<noteq> CHR '' '' \<and> c \<noteq> CHR '';'' \<and> c \<noteq> CHR ''='' \<and> c \<noteq> CHR 0x5C"
proof -
  have "c \<noteq> CHR '' '' \<and> c \<noteq> CHR '';'' \<and> c \<noteq> CHR ''='' \<and> c \<noteq> CHR 0x5C" if "is_digit c" for c
    using that by (auto simp: is_digit_def uchar_def)
  then show ?thesis using dec_string_digits [of "unat n"] by (auto simp: label_text_def list_all_iff)
qed

lemma unescape_plain: "CHR 0x5C \<notin> set v \<Longrightarrow> unescape_tag_value v = v"
  by (induction v rule: unescape_tag_value.induct) auto

lemma labelled_tags:
  assumes "cap_labeled_response caps" "tag_time_only time"
  shows "td_label (handle_message_tags caps time (''label='' @ label_text n) MESSAGE_TAGS_DATA_INIT) = Some (label_text n)"
proof -
  let ?tag = "''label='' @ label_text n"
  have "CHR '';'' \<notin> set ?tag" using label_plain [of n] by auto
  then have "g_strsplit ?tag (CHR '';'') = [?tag]" using g_strsplit_join [of "[?tag]" "CHR '';''"] by simp
  moreover have "td_label (handle_tag caps time ?tag td) = Some (label_text n)" for td
  proof -
    have v: "unescape_tag_value (label_text n) = label_text n" using label_plain [of n] by (intro unescape_plain) auto
    show ?thesis using assms v by (simp add: handle_tag_def Let_def)
  qed
  ultimately show ?thesis by (simp add: handle_message_tags_def)
qed

lemma tags_keep_echo:
  assumes "tag_time_only time"
  shows "td_echo_confirmed (handle_message_tags caps time tags td) = td_echo_confirmed td"
proof -
  have t: "td_echo_confirmed (time v td) = td_echo_confirmed td" for v td
    using assms by (fastforce simp: tag_time_only_def dest!: spec [of _ v] spec [of _ td])
  have h: "td_echo_confirmed (handle_tag caps time tag td) = td_echo_confirmed td" for tag td
    by (auto simp: handle_tag_def Let_def t split: option.split)
  have "td_echo_confirmed (fold (handle_tag caps time) ts td) = td_echo_confirmed td" for ts td
    by (induction ts arbitrary: td) (simp_all add: h)
  then show ?thesis by (simp add: handle_message_tags_def)
qed

text \<open>C16: A labelled command is settled by its response: after \<open>tcp_sendf_labeled_tracked\<close> the label waits in the table, and a
  received line with that label takes it out again and is marked as confirmed, with the table as it was before the
  command; a line that starts a batch leaves the label to the end of the batch.\<close>

theorem labeled_response_settles:
  assumes "have_labeled_response st" "map_of (pending_labels st) (label_text (label_counter st)) = None"
    and "cap_labeled_response (ie_caps env)" "tag_time_only (ie_time env)"
    and "process_data_init (ie_skip env) False False rest \<noteq> None"
    and "st1 = snd (tcp_sendf_labeled_tracked (ie_net env) command target s st)"
  shows "\<exists>call td st2. irc_inline env (labelled (label_text (label_counter st)) rest) st1 = Some (call, td, st2) \<and>
     (if is_batch_start (ne_ncmp (ie_net env)) rest then st2 = st1 \<and> \<not> td_echo_confirmed td
      else pending_labels st2 = pending_labels st \<and> td_echo_confirmed td)"
proof -
  let ?l = "label_text (label_counter st)" and ?buf = "labelled (label_text (label_counter st)) rest"
  let ?i = "\<lparr>info_command = command, info_target = target, info_sess = None, info_sent_time = ne_now (ie_net env), info_entry_id = 0\<rparr>"
  have sp: "CHR '' '' \<notin> set (''@label='' @ ?l)" using label_plain [of "label_counter st"] by auto
  have b: "?buf = (''@label='' @ ?l) @ CHR '' '' # rest" by (simp add: labelled_def)
  have split: "takeWhile (\<lambda>c. c \<noteq> CHR '' '') ?buf = ''@label='' @ ?l" "dropWhile (\<lambda>c. c \<noteq> CHR '' '') ?buf = CHR '' '' # rest"
    unfolding b using sp by (subst takeWhile_append2 | subst dropWhile_append2 | force)+
  have at: "chd ?buf = CHR ''@''" "CHR '' '' \<in> set ?buf" by (simp_all add: labelled_def)
  define td0 where "td0 = handle_message_tags (ie_caps env) (ie_time env) (''label='' @ ?l) MESSAGE_TAGS_DATA_INIT"
  have l: "td_label td0 = Some ?l" using labelled_tags [OF assms(3,4)] by (simp add: td0_def)
  have e: "\<not> td_echo_confirmed td0"
    using tags_keep_echo [OF assms(4), of "ie_caps env"] by (simp add: td0_def MESSAGE_TAGS_DATA_INIT_def)
  have p: "map_of (pending_labels st1) ?l = Some ?i" "ht_remove ?l (pending_labels st1) = pending_labels st"
    using tracked_labels [OF assms(1), of "ie_net env" command target s] ht_remove_insert [OF assms(2)]
    by (simp_all add: assms(6) ht_insert_def)
  obtain td st2 where c: "confirm_label env rest td0 st1 = (td, st2)" by fastforce
  have "\<exists>call. irc_inline env ?buf st1 = Some (call, td, st2)"
    using assms(5) at split c by (auto simp: irc_inline_def Let_def td0_def)
  then obtain call where "irc_inline env ?buf st1 = Some (call, td, st2)" by blast
  moreover have "if is_batch_start (ne_ncmp (ie_net env)) rest then st2 = st1 \<and> \<not> td_echo_confirmed td
      else pending_labels st2 = pending_labels st \<and> td_echo_confirmed td"
    using c l e p by (auto simp: confirm_label_def)
  ultimately show ?thesis by blast
qed

theorem labeled_response_settles_witness:
  "\<exists>call td st2. irc_inline
       \<lparr>ie_net = \<lparr>ne_ncmp = demo_ncmp, ne_throttle = True, ne_now = 100\<rparr>, ie_skip = \<lambda>c. 1,
        ie_caps = \<lparr>have_message_tags = True, have_batch = False, have_account_tag = True, have_idmsg = False,
          have_server_time = True, cap_labeled_response = True\<rparr>,
        ie_time = handle_message_tag_time (\<lambda>t. 0) 0, ie_plugin = \<lambda>s t w e. False, ie_sessions = [], ie_serv = \<lparr>ns_id = 1, ns_server = blank_server, ns_connected = True, ns_network = []\<rparr>\<rparr>
       (labelled ''hc0'' ''PONG x'')
       (snd (tcp_sendf_labeled_tracked \<lparr>ne_ncmp = demo_ncmp, ne_throttle = True, ne_now = 100\<rparr> ''PING'' None ''PING x'' demo_sendq)) =
     Some (call, td, st2) \<and> pending_labels st2 = [] \<and> td_echo_confirmed td"
proof -
  let ?net = "\<lparr>ne_ncmp = demo_ncmp, ne_throttle = True, ne_now = 100\<rparr>"
  let ?env = "\<lparr>ie_net = ?net, ie_skip = \<lambda>c. 1 :: nat,
        ie_caps = \<lparr>have_message_tags = True, have_batch = False, have_account_tag = True, have_idmsg = False,
          have_server_time = True, cap_labeled_response = True\<rparr>,
        ie_time = handle_message_tag_time (\<lambda>t. 0) 0, ie_plugin = \<lambda>s t w e. False, ie_sessions = [], ie_serv = \<lparr>ns_id = 1, ns_server = blank_server, ns_connected = True, ns_network = []\<rparr>\<rparr>"
  have lab: "label_text (label_counter demo_sendq) = ''hc0''" by (simp add: label_text_def demo_sendq_def dec_string.simps) code_simp
  have b: "\<not> is_batch_start demo_ncmp ''PONG x''" by code_simp
  have p: "process_data_init (\<lambda>c. 1) False False ''PONG x'' \<noteq> None" by code_simp
  show ?thesis
    using labeled_response_settles [of demo_sendq ?env "''PONG x''" _ "''PING''" None "''PING x''"] lab b p
    by (simp add: handle_message_tag_time_only) (simp add: demo_sendq_def)
qed

text \<open>C32: Auto-join sends every favourite channel once and in order: the JOIN lines of \<open>irc_join_list\<close> are the lines of
  consecutive groups that make up the list, each with the channels and (if one has a key) the keys, filled with \<open>x\<close>, in matching
  positions. The length is not kept below 512 bytes, though: three keyless channels with names of 300 bytes give a line
  of 608 bytes, since the channel that causes a flush is not counted in the next line.\<close>

theorem irc_join_list_complete:
  "(\<exists>groups. irc_join_list env favs st = fold (tcp_sendf env) (map group_line groups) st \<and> concat groups = favs) \<and>
   map length (join_lines 9 True False [] [] (replicate 3 (replicate 300 (CHR ''c''), None))) = [307, 608]"
proof -
  have "map length (join_lines 9 True False [] [] (replicate 3 (replicate 300 (CHR ''c''), None))) = [307, 608]"
    by (simp add: numeral_3_eq_3 join_line_def)
  then show ?thesis using join_list_groups [of favs] by (auto simp: irc_join_list_def)
qed

end
