(* ===== verification/Chanopt.thy ===== *)
theory Chanopt
  imports Chat_State
begin

text \<open>
  Per-channel options of \<open>src/src/common/chanopt.c\<close>: the table of options, the CHANOPT command, the list of channels in
  memory and its file. The option bytes of a session or of an entry are a list in the order of the table.
  \<open>acmp\<close> is \<open>g_ascii_strcasecmp\<close>; \<open>co_file\<close> is the contents of \<open>chanopt.conf\<close>.
\<close>

section \<open>State\<close>

definition SET_OFF :: nat where "SET_OFF = 0"
definition SET_ON :: nat where "SET_ON = 1"
definition SET_DEFAULT :: nat where "SET_DEFAULT = 2"

definition chanopt :: "(string \<times> string option) list" where
  "chanopt =
     [(''alert_balloon'', None), (''alert_beep'', Some ''BEEP''), (''alert_taskbar'', None), (''alert_tray'', Some ''TRAY''),
      (''text_hidejoinpart'', Some ''CONFMODE''), (''text_logging'', None), (''text_scrollback'', None), (''text_strip'', None)]"

record chanopt_in_memory =
  co_network :: string
  co_channel :: string
  co_opts :: "nat list"

record chanopt_state =
  chanopt_list :: "chanopt_in_memory list"
  chanopt_open :: bool
  chanopt_changed :: bool
  co_file :: string

text \<open>What the functions see of a session: \<open>cs_network\<close> is \<open>server_get_network (serv, FALSE)\<close>, \<open>cs_ircnet\<close> the name of the
  network entry, if the server has one.\<close>

record chan_session =
  cs_name :: string
  cs_network :: "string option"
  cs_ircnet :: "string option"
  cs_opts :: "nat list"
  cs_print :: "string list"

section \<open>The command\<close>

definition chanopt_value :: "nat \<Rightarrow> string option" where
  "chanopt_value val =
     (if val = SET_OFF then Some ''OFF'' else if val = SET_ON then Some ''ON''
      else if val = SET_DEFAULT then Some ''{unset}'' else None)"

definition str_to_chanopt :: "(string \<Rightarrow> string \<Rightarrow> int) \<Rightarrow> string \<Rightarrow> nat" where
  "str_to_chanopt acmp str =
     (if acmp str ''ON'' = 0 \<or> str = ''1'' then SET_ON
      else if acmp str ''OFF'' = 0 \<or> str = ''0'' then SET_OFF else SET_DEFAULT)"

definition option_line :: "string \<Rightarrow> string \<Rightarrow> string" where
  "option_line name val =
     name @ [CHR 0x03, CHR ''2''] @ replicate (20 - length name) (CHR ''.'') @ [CHR 0x03] @ ''3:'' @ [CHR 0x0F, CHR '' ''] @ val"

text \<open>One option of the table: is it selected by the mask, and what is set and printed.\<close>

definition chanopt_entry ::
    "string \<Rightarrow> nat option \<Rightarrow> bool \<Rightarrow> nat \<Rightarrow> chan_session \<times> bool \<Rightarrow> (chan_session \<times> bool) option" where
  "chanopt_entry msk newval quiet i r =
     (case (r, chanopt ! i) of
        ((sess, changed), (name, al)) \<Rightarrow>
          do {
            sel \<leftarrow> (if msk = [] then Some True
                    else do {
                      b \<leftarrow> match msk name;
                      if b then Some True else (case al of None \<Rightarrow> Some False | Some a \<Rightarrow> match msk a)
                    });
            if \<not> sel then Some (sess, changed)
            else
              (let sess1 = (case newval of None \<Rightarrow> sess | Some v \<Rightarrow> sess\<lparr>cs_opts := (cs_opts sess)[i := v]\<rparr>);
                   changed1 = (changed \<or> newval \<noteq> None)
               in if quiet then Some (sess1, changed1)
                  else do {
                    v \<leftarrow> chanopt_value (cs_opts sess1 ! i);
                    Some (sess1\<lparr>cs_print := cs_print sess1 @ [option_line name v]\<rparr>, changed1)
                  })
          })"

fun chanopt_entries :: "string \<Rightarrow> nat option \<Rightarrow> bool \<Rightarrow> nat list \<Rightarrow> chan_session \<times> bool \<Rightarrow> (chan_session \<times> bool) option" where
  "chanopt_entries msk newval quiet [] r = Some r"
| "chanopt_entries msk newval quiet (i # is) r =
     do { r1 \<leftarrow> chanopt_entry msk newval quiet i r; chanopt_entries msk newval quiet is r1 }"

definition chanopt_command ::
    "(string \<Rightarrow> string \<Rightarrow> int) \<Rightarrow> string list \<Rightarrow> chan_session \<Rightarrow> chanopt_state \<Rightarrow> (chan_session \<times> chanopt_state) option" where
  "chanopt_command acmp word sess st =
     (let quiet = (word ! 2 = ''-quiet'');
          offset = (if quiet then 3 else 2);
          newval = (if word ! (offset + 1) \<noteq> [] then Some (str_to_chanopt acmp (word ! (offset + 1))) else None);
          none = (\<lambda>s. if s = [] then ''<none>'' else s);
          sess1 = (if quiet then sess
                   else sess\<lparr>cs_print := cs_print sess @
                     [[CHR 0x02] @ ''Network'' @ [CHR 0x02] @ '': '' @ (case cs_ircnet sess of None \<Rightarrow> ''<none>'' | Some n \<Rightarrow> n) @ '' '' @
                      [CHR 0x02] @ ''Channel'' @ [CHR 0x02] @ '': '' @ none (cs_name sess) @ [CHR 0x0A]]\<rparr>)
      in do {
           (sess2, changed) \<leftarrow> chanopt_entries (word ! offset) newval quiet [0..<length chanopt] (sess1, chanopt_changed st);
           Some (sess2, st\<lparr>chanopt_changed := changed\<rparr>)
         })"

definition chanopt_is_set :: "nat \<Rightarrow> nat \<Rightarrow> nat" where
  "chanopt_is_set global per_chan_setting =
     (if per_chan_setting = SET_ON \<or> per_chan_setting = SET_OFF then per_chan_setting else global)"

section \<open>The list in memory\<close>

fun chanopt_pos :: "(string \<Rightarrow> string \<Rightarrow> int) \<Rightarrow> chanopt_in_memory list \<Rightarrow> string \<Rightarrow> string \<Rightarrow> nat option" where
  "chanopt_pos acmp [] network chan = None"
| "chanopt_pos acmp (co # cos) network chan =
     (if acmp (co_channel co) chan = 0 \<and> acmp (co_network co) network = 0 then Some 0
      else map_option Suc (chanopt_pos acmp cos network chan))"

definition new_chanopt :: "string \<Rightarrow> string \<Rightarrow> chanopt_in_memory" where
  "new_chanopt network chan = \<lparr>co_network = network, co_channel = chan, co_opts = replicate (length chanopt) SET_DEFAULT\<rparr>"

text \<open>The position of the entry; a missing one is put in front when \<open>add_new\<close> is given.\<close>

definition chanopt_find ::
    "(string \<Rightarrow> string \<Rightarrow> int) \<Rightarrow> string \<Rightarrow> string \<Rightarrow> bool \<Rightarrow> chanopt_state \<Rightarrow> nat option \<times> chanopt_state" where
  "chanopt_find acmp network chan add_new st =
     (case chanopt_pos acmp (chanopt_list st) network chan of
        Some i \<Rightarrow> (Some i, st)
      | None \<Rightarrow>
          if \<not> add_new then (None, st)
          else (Some 0, st\<lparr>chanopt_list := new_chanopt network chan # chanopt_list st, chanopt_changed := True\<rparr>))"

definition chanopt_add_opt :: "chanopt_in_memory \<Rightarrow> string \<Rightarrow> nat \<Rightarrow> chanopt_in_memory" where
  "chanopt_add_opt co var new_value =
     co\<lparr>co_opts := map (\<lambda>((name, al), v). if name = var then new_value else v) (zip chanopt (co_opts co))\<rparr>"

section \<open>The file\<close>

text \<open>A line of the file as key and value. \<open>eq + 2\<close> lies behind the terminator when the line ends with the equals
  sign; the bytes read there are left over from earlier lines.\<close>

datatype conf_item = Conf_Skip | Conf_Stale | Conf_Pair string string

definition conf_line :: "string \<Rightarrow> conf_item" where
  "conf_line buf =
     (if CHR ''='' \<notin> set buf then Conf_Skip
      else
        (let before = takeWhile (\<lambda>c. c \<noteq> CHR ''='') buf;
             after = tl (dropWhile (\<lambda>c. c \<noteq> CHR ''='') buf);
             key = (if before \<noteq> [] \<and> last before = CHR '' '' then butlast before else before)
         in if after = [] then Conf_Stale else Conf_Pair key (tl after)))"

text \<open>What a line does: \<open>current\<close> is the position of the channel being read. A channel before any network is a
  \<open>NULL\<close> argument of \<open>g_ascii_strcasecmp\<close>.\<close>

definition load_conf_line ::
    "(string \<Rightarrow> string \<Rightarrow> int) \<Rightarrow> string \<Rightarrow> string option \<times> nat option \<times> chanopt_state \<Rightarrow>
     (string option \<times> nat option \<times> chanopt_state) option" where
  "load_conf_line acmp buf r =
     (case r of (network, current, st) \<Rightarrow>
        (case conf_line buf of
           Conf_Skip \<Rightarrow> Some r
         | Conf_Stale \<Rightarrow> None
         | Conf_Pair key val \<Rightarrow>
             if key = ''network'' then Some (Some val, current, st)
             else if key = ''channel'' then
               do {
                 net \<leftarrow> network;
                 let (pos, st1) = chanopt_find acmp net val True st;
                 Some (network, pos, st1\<lparr>chanopt_changed := False\<rparr>)
               }
             else
               (case current of
                  None \<Rightarrow> Some r
                | Some i \<Rightarrow>
                    Some (network, current,
                      st\<lparr>chanopt_list := (chanopt_list st)[i :=
                          chanopt_add_opt (chanopt_list st ! i) key (str_to_chanopt acmp val)]\<rparr>))))"

lemma waitline_from_shrinks: "waitline_from i n buf inp = Some (l, rest) \<Longrightarrow> length rest < length inp"
  by (induction inp arbitrary: i buf) (auto split: if_splits, fastforce)

function load_conf ::
    "(string \<Rightarrow> string \<Rightarrow> int) \<Rightarrow> string \<Rightarrow> string option \<times> nat option \<times> chanopt_state \<Rightarrow>
     (string option \<times> nat option \<times> chanopt_state) option" where
  "load_conf acmp inp r =
     (case waitline 256 inp of
        None \<Rightarrow> Some r
      | Some (buf, rest) \<Rightarrow> do { r1 \<leftarrow> load_conf_line acmp (c_str buf) r; load_conf acmp rest r1 })"
  by pat_completeness auto
termination
  by (relation "measure (\<lambda>(acmp, inp, r). length inp)") (auto simp: waitline_def dest: waitline_from_shrinks)

declare load_conf.simps [simp del]

definition chanopt_load_all :: "(string \<Rightarrow> string \<Rightarrow> int) \<Rightarrow> chanopt_state \<Rightarrow> chanopt_state option" where
  "chanopt_load_all acmp st = map_option (\<lambda>(n, c, st'). st') (load_conf acmp (co_file st) (None, None, st))"

definition chanopt_load :: "(string \<Rightarrow> string \<Rightarrow> int) \<Rightarrow> chan_session \<Rightarrow> chanopt_state \<Rightarrow> (chan_session \<times> chanopt_state) option" where
  "chanopt_load acmp sess st =
     (if cs_name sess = [] then Some (sess, st)
      else
        (case cs_network sess of
           None \<Rightarrow> Some (sess, st)
         | Some network \<Rightarrow>
             do {
               st1 \<leftarrow> (if \<not> chanopt_open st then chanopt_load_all acmp (st\<lparr>chanopt_open := True\<rparr>) else Some st);
               (case chanopt_find acmp network (cs_name sess) False st1 of
                  (None, st2) \<Rightarrow> Some (sess, st2)
                | (Some i, st2) \<Rightarrow> Some (sess\<lparr>cs_opts := co_opts (chanopt_list st2 ! i)\<rparr>, st2))
             }))"

definition chanopt_save :: "(string \<Rightarrow> string \<Rightarrow> int) \<Rightarrow> chan_session \<Rightarrow> chanopt_state \<Rightarrow> chanopt_state" where
  "chanopt_save acmp sess st =
     (if cs_name sess = [] then st
      else
        (case cs_network sess of
           None \<Rightarrow> st
         | Some network \<Rightarrow>
             (case chanopt_find acmp network (cs_name sess) True st of
                (None, st1) \<Rightarrow> st1
              | (Some i, st1) \<Rightarrow>
                  st1\<lparr>chanopt_list := (chanopt_list st1)[i := (chanopt_list st1 ! i)\<lparr>co_opts := cs_opts sess\<rparr>],
                      chanopt_changed := (chanopt_changed st1 \<or> co_opts (chanopt_list st1 ! i) \<noteq> cs_opts sess)\<rparr>)))"

definition conf_text :: "string \<Rightarrow> string \<Rightarrow> string" where
  "conf_text key val = take 255 (key @ '' = '' @ val @ [CHR 0x0A])"

definition chanopt_save_one_channel :: "chanopt_in_memory \<Rightarrow> string" where
  "chanopt_save_one_channel co =
     conf_text ''network'' (co_network co) @ conf_text ''channel'' (co_channel co) @
     concat (map (\<lambda>((name, al), v). if v \<noteq> SET_DEFAULT then conf_text name (dec_string v) else []) (zip chanopt (co_opts co)))"

definition must_save :: "chanopt_in_memory \<Rightarrow> bool" where
  "must_save co \<longleftrightarrow> list_ex (\<lambda>v. v \<noteq> SET_DEFAULT) (co_opts co)"

text \<open>Channels are separated by empty lines.\<close>

definition save_text :: "chanopt_in_memory list \<Rightarrow> string" where
  "save_text cos = join_sep (CHR 0x0A) (map chanopt_save_one_channel (filter must_save cos))"

definition chanopt_save_all :: "bool \<Rightarrow> chanopt_state \<Rightarrow> chanopt_state" where
  "chanopt_save_all flush st =
     (if chanopt_list st = [] \<or> \<not> chanopt_changed st then st
      else st\<lparr>co_file := save_text (chanopt_list st), chanopt_list := (if flush then [] else chanopt_list st),
              chanopt_open := False, chanopt_changed := False\<rparr>)"

section \<open>Reading back what was written\<close>

definition conf_value :: "string \<Rightarrow> bool" where
  "conf_value v \<longleftrightarrow> cstring v \<and> CHR 0x0A \<notin> set v \<and> length v \<le> 230"

definition chanopt_ok :: "chanopt_in_memory \<Rightarrow> bool" where
  "chanopt_ok co \<longleftrightarrow> conf_value (co_network co) \<and> conf_value (co_channel co) \<and> length (co_opts co) = length chanopt \<and>
     list_all (\<lambda>v. v \<le> SET_DEFAULT) (co_opts co)"

text \<open>No two entries for the same channel.\<close>

definition same_channel :: "chanopt_in_memory \<Rightarrow> chanopt_in_memory \<Rightarrow> bool" where
  "same_channel a b \<longleftrightarrow> map ascii_lower (co_channel a) = map ascii_lower (co_channel b) \<and>
     map ascii_lower (co_network a) = map ascii_lower (co_network b)"

definition chanopt_inv :: "chanopt_in_memory list \<Rightarrow> bool" where
  "chanopt_inv cos \<longleftrightarrow> list_all chanopt_ok cos \<and> sorted_wrt (\<lambda>a b. \<not> same_channel a b) cos"

lemma waitline_line:
  "CHR 0x0A \<notin> set l \<Longrightarrow> int (i + length l) < n - 1 \<Longrightarrow> waitline_from i n buf (l @ CHR 0x0A # rest) = Some (rev buf @ l, rest)"
  by (induction l arbitrary: i buf) auto

lemma load_conf_step:
  assumes "CHR 0x0A \<notin> set l" "length l < 255" "cstring l"
  shows "load_conf acmp (l @ CHR 0x0A # rest) r = do { r1 \<leftarrow> load_conf_line acmp l r; load_conf acmp rest r1 }"
  using assms waitline_line [of l 0 256 "[]" rest] by (subst load_conf.simps) (simp add: waitline_def)

lemma conf_line_pair:
  "CHR ''='' \<notin> set key \<Longrightarrow> conf_line (key @ '' = '' @ v) = Conf_Pair key v"
proof -
  assume k: "CHR ''='' \<notin> set key"
  then have "takeWhile (\<lambda>c. c \<noteq> CHR ''='') ((key @ '' '') @ CHR ''='' # '' '' @ v) = key @ '' ''"
    "dropWhile (\<lambda>c. c \<noteq> CHR ''='') ((key @ '' '') @ CHR ''='' # '' '' @ v) = CHR ''='' # '' '' @ v"
    by (subst takeWhile_append2 | subst dropWhile_append2 | force)+
  then show ?thesis by (simp add: conf_line_def Let_def)
qed

definition conf_key :: "string \<Rightarrow> bool" where
  "conf_key key \<longleftrightarrow> CHR ''='' \<notin> set key \<and> cstring key \<and> CHR 0x0A \<notin> set key \<and> length key \<le> 20"

lemma load_pair:
  assumes "conf_key key" "conf_value v"
  shows "load_conf acmp (conf_text key v @ rest) r =
     do { r1 \<leftarrow> load_conf_line acmp (key @ '' = '' @ v) r; load_conf acmp rest r1 }"
proof -
  have "length (key @ '' = '' @ v @ [CHR 0x0A]) \<le> 255" using assms by (simp add: conf_key_def conf_value_def)
  then have "conf_text key v @ rest = (key @ '' = '' @ v) @ CHR 0x0A # rest"
    unfolding conf_text_def by (subst take_all) simp_all
  then show ?thesis
    using load_conf_step [of "key @ '' = '' @ v" acmp rest r] assms by (simp add: conf_key_def conf_value_def)
qed

lemma option_keys: "((name, al), v) \<in> set (zip chanopt vs) \<Longrightarrow> conf_key name \<and> name \<noteq> ''network'' \<and> name \<noteq> ''channel''"
  by (drule set_zip_leftD) (auto simp: chanopt_def conf_key_def)

lemma option_value:
  assumes "acmp_ok acmp" "v \<le> SET_DEFAULT" "v \<noteq> SET_DEFAULT"
  shows "str_to_chanopt acmp (dec_string v) = v \<and> conf_value (dec_string v)"
proof -
  have "v = 0 \<or> v = 1" using assms(2,3) by (auto simp: SET_DEFAULT_def)
  moreover have "dec_string 0 = ''0''" "dec_string 1 = ''1''" by code_simp+
  ultimately show ?thesis using assms(1)
    by (auto simp: str_to_chanopt_def acmp_ok_def SET_ON_def SET_OFF_def conf_value_def ascii_lower_def uchar_def)
qed

definition opt_text :: "(string \<times> string option) \<times> nat \<Rightarrow> string" where
  "opt_text = (\<lambda>((name, al), v). if v \<noteq> SET_DEFAULT then conf_text name (dec_string v) else [])"

definition opt_set :: "(string \<times> string option) \<times> nat \<Rightarrow> chanopt_in_memory \<Rightarrow> chanopt_in_memory" where
  "opt_set = (\<lambda>((name, al), v) co. if v \<noteq> SET_DEFAULT then chanopt_add_opt co name v else co)"

lemma load_options:
  assumes "acmp_ok acmp"
  shows "set ps \<subseteq> set (zip chanopt vs) \<Longrightarrow> list_all (\<lambda>v. v \<le> SET_DEFAULT) vs \<Longrightarrow>
     load_conf acmp (concat (map opt_text ps) @ rest) (net, Some 0, st\<lparr>chanopt_list := co # cos\<rparr>) =
       load_conf acmp rest (net, Some 0, st\<lparr>chanopt_list := fold opt_set ps co # cos\<rparr>)"
proof (induction ps arbitrary: co)
  case (Cons p ps)
  obtain name al v where p: "p = ((name, al), v)" by (metis prod.collapse)
  have k: "conf_key name" "name \<noteq> ''network''" "name \<noteq> ''channel''" using option_keys [of name al v vs] Cons.prems(1) p by auto
  have "v \<in> set vs" using Cons.prems(1) p by (auto dest: set_zip_rightD)
  then have v: "v \<le> SET_DEFAULT" using Cons.prems(2) by (auto simp: list_all_iff)
  show ?case
  proof (cases "v = SET_DEFAULT")
    case True
    then show ?thesis using Cons p by (simp add: opt_text_def opt_set_def)
  next
    case False
    note o = option_value [OF assms v False]
    have "load_conf_line acmp (name @ '' = '' @ dec_string v) (net, Some 0, st\<lparr>chanopt_list := co # cos\<rparr>) =
        Some (net, Some 0, st\<lparr>chanopt_list := chanopt_add_opt co name v # cos\<rparr>)"
      unfolding load_conf_line_def prod.case conf_line_pair [OF k(1) [unfolded conf_key_def, THEN conjunct1]]
      using k o by simp
    then show ?thesis
      using Cons p False load_pair [OF k(1) o [THEN conjunct2]] by (simp add: opt_text_def opt_set_def)
  qed
qed simp

lemma chanopt_names: "distinct (map fst chanopt)" "length chanopt = 8"
  by (simp_all add: chanopt_def)

lemma add_opt_update:
  assumes "length (co_opts co) = length chanopt" "k < length chanopt"
  shows "chanopt_add_opt co (fst (chanopt ! k)) v = co\<lparr>co_opts := (co_opts co)[k := v]\<rparr>"
proof -
  have "fst (chanopt ! i) = fst (chanopt ! k) \<longleftrightarrow> i = k" if "i < length chanopt" for i
    using nth_eq_iff_index_eq [OF chanopt_names(1), of i k] that assms(2) by simp
  then have "map (\<lambda>((name, al), x). if name = fst (chanopt ! k) then v else x) (zip chanopt (co_opts co)) = (co_opts co)[k := v]"
    using assms by (intro nth_equalityI) (auto simp: case_prod_beta nth_list_update)
  then show ?thesis by (simp add: chanopt_add_opt_def)
qed

lemma opt_set_upto:
  assumes "length vs = length chanopt"
  shows "k \<le> length chanopt \<Longrightarrow> fold opt_set (take k (zip chanopt vs)) (new_chanopt net chan) =
     \<lparr>co_network = net, co_channel = chan, co_opts = take k vs @ replicate (length chanopt - k) SET_DEFAULT\<rparr>"
proof (induction k)
  case 0
  then show ?case by (simp add: new_chanopt_def)
next
  case (Suc k)
  let ?o = "take k vs @ replicate (length chanopt - k) SET_DEFAULT"
  let ?co = "\<lparr>co_network = net, co_channel = chan, co_opts = ?o\<rparr>"
  have k: "k < length (zip chanopt vs)" "zip chanopt vs ! k = (chanopt ! k, vs ! k)" using Suc.prems assms by simp_all
  have "fold opt_set (take (Suc k) (zip chanopt vs)) (new_chanopt net chan) = opt_set (chanopt ! k, vs ! k) ?co"
    using Suc by (simp add: take_Suc_conv_app_nth [OF k(1)] k(2))
  also have "\<dots> = ?co\<lparr>co_opts := ?o[k := vs ! k]\<rparr>"
  proof (cases "vs ! k = SET_DEFAULT")
    case True
    have "?o ! k = SET_DEFAULT" using Suc.prems assms by (simp add: nth_append)
    then have "?o[k := vs ! k] = ?o" using True list_update_id [of ?o k] by simp
    then show ?thesis using True by (simp add: opt_set_def split: prod.splits)
  next
    case False
    then show ?thesis using add_opt_update [of ?co k "vs ! k"] Suc.prems assms by (cases "chanopt ! k") (simp add: opt_set_def)
  qed
  also have "?o[k := vs ! k] = take (Suc k) vs @ replicate (length chanopt - Suc k) SET_DEFAULT"
    using Suc.prems assms by (intro nth_equalityI) (auto simp: nth_list_update nth_append less_Suc_eq)
  finally show ?case by simp
qed

lemma opt_set_all:
  assumes "length vs = length chanopt"
  shows "fold opt_set (zip chanopt vs) (new_chanopt net chan) = \<lparr>co_network = net, co_channel = chan, co_opts = vs\<rparr>"
  using opt_set_upto [OF assms order_refl, of net chan] assms by simp

lemma chanopt_pos_None:
  "acmp_ok acmp \<Longrightarrow> chanopt_pos acmp cos net chan = None \<longleftrightarrow>
     (\<forall>co \<in> set cos. \<not> same_channel co \<lparr>co_network = net, co_channel = chan, co_opts = []\<rparr>)"
  by (induction cos) (auto simp: acmp_ok_def same_channel_def)

text \<open>The text of one channel puts it in front of the list.\<close>

lemma load_channel:
  assumes "acmp_ok acmp" "chanopt_ok co" "\<forall>c \<in> set (chanopt_list st). \<not> same_channel c co"
  shows "\<exists>st'. load_conf acmp (chanopt_save_one_channel co @ rest) (net, cur, st) =
       load_conf acmp rest (Some (co_network co), Some 0, st') \<and> chanopt_list st' = co # chanopt_list st"
proof -
  let ?st1 = "st\<lparr>chanopt_list := new_chanopt (co_network co) (co_channel co) # chanopt_list st, chanopt_changed := False\<rparr>"
  note ok = assms(2) [unfolded chanopt_ok_def]
  have swap: "?st1 = st\<lparr>chanopt_changed := False, chanopt_list := new_chanopt (co_network co) (co_channel co) # chanopt_list st\<rparr>" by simp
  have eta: "\<lparr>co_network = co_network co, co_channel = co_channel co, co_opts = co_opts co\<rparr> = co" by simp
  have keys: "conf_key ''network''" "conf_key ''channel''" by (simp_all add: conf_key_def)
  have "load_conf_line acmp (''network'' @ '' = '' @ co_network co) (net, cur, st) = Some (Some (co_network co), cur, st)"
    unfolding load_conf_line_def prod.case conf_line_pair [OF keys(1) [unfolded conf_key_def, THEN conjunct1]] by simp
  moreover have "chanopt_pos acmp (chanopt_list st) (co_network co) (co_channel co) = None"
    using assms(3) by (simp add: chanopt_pos_None [OF assms(1)] same_channel_def)
  then have "load_conf_line acmp (''channel'' @ '' = '' @ co_channel co) (Some (co_network co), cur, st) =
      Some (Some (co_network co), Some 0, ?st1)"
    unfolding load_conf_line_def prod.case conf_line_pair [OF keys(2) [unfolded conf_key_def, THEN conjunct1]]
    by (simp add: chanopt_find_def)
  ultimately have "load_conf acmp (chanopt_save_one_channel co @ rest) (net, cur, st) =
      load_conf acmp (concat (map opt_text (zip chanopt (co_opts co))) @ rest) (Some (co_network co), Some 0, ?st1)"
    using load_pair [OF keys(1)] load_pair [OF keys(2)] ok
    by (simp add: chanopt_save_one_channel_def opt_text_def)
  also have "\<dots> = load_conf acmp rest (Some (co_network co), Some 0, ?st1\<lparr>chanopt_list := co # chanopt_list st\<rparr>)"
    using load_options [OF assms(1), where ps = "zip chanopt (co_opts co)" and vs = "co_opts co" and rest = rest
        and net = "Some (co_network co)" and st = "st\<lparr>chanopt_changed := False\<rparr>" and co = "new_chanopt (co_network co) (co_channel co)"
        and cos = "chanopt_list st"] ok opt_set_all [of "co_opts co"] eta unfolding swap by simp
  finally show ?thesis by (intro exI [of _ "?st1\<lparr>chanopt_list := co # chanopt_list st\<rparr>"]) simp
qed

lemma load_empty_line: "load_conf acmp (CHR 0x0A # rest) r = load_conf acmp rest r"
  using load_conf_step [of "[]" acmp rest r] by (cases r) (simp add: load_conf_line_def conf_line_def)

lemma load_channels:
  assumes "acmp_ok acmp"
  shows "list_all chanopt_ok cos \<Longrightarrow> sorted_wrt (\<lambda>a b. \<not> same_channel a b) cos \<Longrightarrow>
     \<forall>c \<in> set (chanopt_list st). \<forall>co \<in> set cos. \<not> same_channel c co \<Longrightarrow>
     \<exists>n c st'. load_conf acmp (join_sep (CHR 0x0A) (map chanopt_save_one_channel cos)) (net, cur, st) = Some (n, c, st') \<and>
       chanopt_list st' = rev cos @ chanopt_list st"
proof (induction cos arbitrary: net cur st)
  case Nil
  then show ?case by (subst load_conf.simps) (simp add: waitline_def)
next
  case (Cons co cos)
  let ?rest = "if cos = [] then [] else CHR 0x0A # join_sep (CHR 0x0A) (map chanopt_save_one_channel cos)"
  have j: "join_sep (CHR 0x0A) (map chanopt_save_one_channel (co # cos)) = chanopt_save_one_channel co @ ?rest"
    by (cases cos) auto
  obtain st1 where s: "load_conf acmp (chanopt_save_one_channel co @ ?rest) (net, cur, st) =
      load_conf acmp ?rest (Some (co_network co), Some 0, st1)" "chanopt_list st1 = co # chanopt_list st"
    using load_channel [OF assms, of co st ?rest net cur] Cons.prems by auto
  obtain n c st' where "load_conf acmp (join_sep (CHR 0x0A) (map chanopt_save_one_channel cos)) (Some (co_network co), Some 0, st1) =
      Some (n, c, st')" "chanopt_list st' = rev cos @ chanopt_list st1"
    using Cons.IH [of st1 "Some (co_network co)" "Some 0"] Cons.prems s(2) by (auto simp: list_all_iff)
  then show ?case unfolding j s(1) using s(2) by (cases "cos = []") (auto simp: load_empty_line)
qed

lemma chanopt_pos_Some:
  "acmp_ok acmp \<Longrightarrow> chanopt_pos acmp cos net chan = Some i \<Longrightarrow>
     i < length cos \<and> same_channel (cos ! i) \<lparr>co_network = net, co_channel = chan, co_opts = []\<rparr>"
  by (induction cos arbitrary: i) (auto simp: acmp_ok_def same_channel_def split: if_splits)

lemma same_channel_unique:
  assumes "sorted_wrt (\<lambda>a b. \<not> same_channel a b) cos" "a \<in> set cos" "b \<in> set cos" "same_channel a k" "same_channel b k"
  shows "a = b"
proof -
  obtain i j where ij: "i < length cos" "cos ! i = a" "j < length cos" "cos ! j = b" using assms(2,3) by (auto simp: in_set_conv_nth)
  have "same_channel a b" "same_channel b a" using assms(4,5) by (auto simp: same_channel_def)
  then have "i = j" using assms(1) ij by (metis linorder_neqE_nat sorted_wrt_iff_nth_less)
  then show ?thesis using ij by simp
qed

lemma chanopt_list_roundtrip:
  assumes "acmp_ok acmp" "chanopt_inv (chanopt_list st)" "chanopt_list st \<noteq> []" "chanopt_changed st"
  shows "\<exists>st'. chanopt_load_all acmp (chanopt_save_all True st\<lparr>chanopt_open := True\<rparr>) = Some st' \<and>
     chanopt_list st' = rev (filter must_save (chanopt_list st))"
proof -
  let ?cos = "filter must_save (chanopt_list st)"
  have "list_all chanopt_ok ?cos" "sorted_wrt (\<lambda>a b. \<not> same_channel a b) ?cos"
    using assms(2) by (auto simp: chanopt_inv_def list_all_iff sorted_wrt_filter)
  from load_channels [OF assms(1) this, of "chanopt_save_all True st\<lparr>chanopt_open := True\<rparr>" None None] assms(3,4)
  show ?thesis by (auto simp: chanopt_load_all_def chanopt_save_all_def save_text_def)
qed

text \<open>The entry that a session's options are saved in.\<close>

lemma chanopt_save_entry:
  assumes "acmp_ok acmp" "chanopt_inv (chanopt_list st)" "cs_network sess = Some net" "cs_name sess \<noteq> []"
    and "conf_value net" "conf_value (cs_name sess)" "length (cs_opts sess) = length chanopt" "list_all (\<lambda>v. v \<le> SET_DEFAULT) (cs_opts sess)"
  shows "chanopt_inv (chanopt_list (chanopt_save acmp sess st)) \<and>
     (\<exists>co \<in> set (chanopt_list (chanopt_save acmp sess st)). co_opts co = cs_opts sess \<and>
        same_channel co \<lparr>co_network = net, co_channel = cs_name sess, co_opts = []\<rparr>)"
proof -
  note inv = assms(2) [unfolded chanopt_inv_def]
  show ?thesis
  proof (cases "chanopt_pos acmp (chanopt_list st) net (cs_name sess)")
    case None
    let ?co = "\<lparr>co_network = net, co_channel = cs_name sess, co_opts = cs_opts sess\<rparr>"
    have l: "chanopt_list (chanopt_save acmp sess st) = ?co # chanopt_list st"
      using assms None by (simp add: chanopt_save_def chanopt_find_def new_chanopt_def)
    have "\<forall>c \<in> set (chanopt_list st). \<not> same_channel ?co c"
      using None [unfolded chanopt_pos_None [OF assms(1)]] by (auto simp: same_channel_def)
    then show ?thesis unfolding l using inv assms by (auto simp: chanopt_inv_def chanopt_ok_def same_channel_def)
  next
    case (Some i)
    note p = chanopt_pos_Some [OF assms(1) Some]
    let ?cos = "chanopt_list st" and ?co = "(chanopt_list st ! i)\<lparr>co_opts := cs_opts sess\<rparr>"
    have l: "chanopt_list (chanopt_save acmp sess st) = ?cos[i := ?co]"
      using assms Some by (simp add: chanopt_save_def chanopt_find_def)
    have "co_channel (?cos[i := ?co] ! a) = co_channel (?cos ! a)" "co_network (?cos[i := ?co] ! a) = co_network (?cos ! a)" for a
      using p by (cases "a = i"; simp)+
    then have key: "same_channel (?cos[i := ?co] ! a) (?cos[i := ?co] ! b) = same_channel (?cos ! a) (?cos ! b)" for a b
      by (simp only: same_channel_def)
    have "chanopt_ok (?cos ! i)" using inv p by (simp add: list_all_length)
    then have "list_all chanopt_ok (?cos[i := ?co])"
      using inv assms(7,8) p by (auto simp: chanopt_ok_def list_all_length nth_list_update)
    moreover have "sorted_wrt (\<lambda>a b. \<not> same_channel a b) (?cos[i := ?co])"
      using inv key by (auto simp: sorted_wrt_iff_nth_less)
    moreover have "?co \<in> set (?cos[i := ?co])" using p by (simp add: set_update_memI)
    moreover have "same_channel ?co \<lparr>co_network = net, co_channel = cs_name sess, co_opts = []\<rparr>"
      using p by (simp add: same_channel_def)
    ultimately show ?thesis unfolding l chanopt_inv_def by (metis chanopt_in_memory.select_convs(3) chanopt_in_memory.surjective chanopt_in_memory.update_convs(3))
  qed
qed

section \<open>Properties\<close>

text \<open>C23: The options of a channel survive a restart: when they are saved to the list, the list is written to the file and
  the file is read into an empty list again, a session of the same channel gets exactly these options, provided one of them is not
  the default; the channel and network names are compared without regard to case.\<close>

theorem chanopt_survives_restart:
  assumes "acmp_ok acmp" "chanopt_inv (chanopt_list st)" "cs_network sess = Some net" "cs_name sess \<noteq> []"
    and "conf_value net" "conf_value (cs_name sess)" "length (cs_opts sess) = length chanopt"
    and "list_all (\<lambda>v. v \<le> SET_DEFAULT) (cs_opts sess)" "list_ex (\<lambda>v. v \<noteq> SET_DEFAULT) (cs_opts sess)"
    and "chanopt_changed (chanopt_save acmp sess st)"
    and "cs_network sess2 = Some net2" "map ascii_lower net2 = map ascii_lower net"
    and "map ascii_lower (cs_name sess2) = map ascii_lower (cs_name sess)"
  shows "\<exists>st2. chanopt_load acmp sess2 (chanopt_save_all True (chanopt_save acmp sess st)) =
     Some (sess2\<lparr>cs_opts := cs_opts sess\<rparr>, st2)"
proof -
  let ?st1 = "chanopt_save acmp sess st"
  let ?key = "\<lparr>co_network = net, co_channel = cs_name sess, co_opts = []\<rparr>"
  note sv = chanopt_save_entry [OF assms(1-8)]
  obtain co where co: "co \<in> set (chanopt_list ?st1)" "co_opts co = cs_opts sess" "same_channel co ?key" using sv by blast
  have ne: "chanopt_list ?st1 \<noteq> []" using co(1) by auto
  obtain st' where st': "chanopt_load_all acmp (chanopt_save_all True ?st1\<lparr>chanopt_open := True\<rparr>) = Some st'"
    "chanopt_list st' = rev (filter must_save (chanopt_list ?st1))"
    using chanopt_list_roundtrip [OF assms(1) _ ne assms(10)] sv by blast
  have closed: "\<not> chanopt_open (chanopt_save_all True ?st1)" using ne assms(10) by (simp add: chanopt_save_all_def)
  have mem: "co \<in> set (chanopt_list st')" using co assms(9) st'(2) by (simp add: must_save_def)
  have key2: "same_channel c \<lparr>co_network = net2, co_channel = cs_name sess2, co_opts = []\<rparr> = same_channel c ?key" for c
    using assms(12,13) by (simp add: same_channel_def)
  obtain i where i: "chanopt_pos acmp (chanopt_list st') net2 (cs_name sess2) = Some i"
    using mem co(3) key2 chanopt_pos_None [OF assms(1), of "chanopt_list st'" net2 "cs_name sess2"] by (metis not_None_eq)
  have "chanopt_list st' ! i \<in> set (chanopt_list ?st1)" "same_channel (chanopt_list st' ! i) ?key"
    using chanopt_pos_Some [OF assms(1) i] key2 st'(2) nth_mem [of i "chanopt_list st'"] by auto
  then have "chanopt_list st' ! i = co"
    using same_channel_unique [of "chanopt_list ?st1"] sv co by (auto simp: chanopt_inv_def)
  moreover have "cs_name sess2 \<noteq> []" using assms(4,13) by auto
  ultimately show ?thesis using st'(1) closed i assms(11) co(2) by (simp add: chanopt_load_def chanopt_find_def)
qed

definition demo_chan :: chan_session where
  "demo_chan = \<lparr>cs_name = ''#isabelle'', cs_network = Some ''Libera'', cs_ircnet = None, cs_opts = [2, 1, 2, 2, 0, 2, 2, 2], cs_print = []\<rparr>"

theorem chanopt_survives_restart_witness:
  "\<exists>st2. chanopt_load demo_acmp (demo_chan\<lparr>cs_opts := replicate 8 2\<rparr>)
     (chanopt_save_all True (chanopt_save demo_acmp demo_chan \<lparr>chanopt_list = [], chanopt_open = True, chanopt_changed = False, co_file = []\<rparr>)) =
     Some (demo_chan, st2)"
proof -
  let ?st = "\<lparr>chanopt_list = [], chanopt_open = True, chanopt_changed = False, co_file = []\<rparr>"
  have "chanopt_changed (chanopt_save demo_acmp demo_chan ?st)"
    by (simp add: chanopt_save_def chanopt_find_def demo_chan_def)
  then show ?thesis
    using chanopt_survives_restart [of demo_acmp ?st demo_chan "''Libera''" "demo_chan\<lparr>cs_opts := replicate 8 2\<rparr>" "''Libera''"]
    by (simp add: acmp_ok_def demo_acmp_def chanopt_inv_def demo_chan_def conf_value_def chanopt_def SET_DEFAULT_def)
qed

text \<open>Saving and writing keep the list free of duplicates: after any sequence of saved sessions every channel has one entry, names
  fit a line of the file and options are on, off or default.\<close>

theorem chanopt_saves_inv:
  assumes "acmp_ok acmp" "chanopt_inv (chanopt_list st)"
    and "\<forall>s \<in> set ss. conf_value (cs_name s) \<and> (\<forall>n. cs_network s = Some n \<longrightarrow> conf_value n) \<and>
      length (cs_opts s) = length chanopt \<and> list_all (\<lambda>v. v \<le> SET_DEFAULT) (cs_opts s)"
  shows "chanopt_inv (chanopt_list (fold (chanopt_save acmp) ss st))"
  using assms(2,3)
proof (induction ss arbitrary: st)
  case (Cons s ss)
  have "chanopt_inv (chanopt_list (chanopt_save acmp s st))"
  proof (cases "cs_name s = [] \<or> cs_network s = None")
    case True
    then show ?thesis using Cons.prems(1) by (auto simp: chanopt_save_def)
  next
    case False
    then show ?thesis using chanopt_save_entry [OF assms(1) Cons.prems(1)] Cons.prems(2) by auto
  qed
  then show ?case using Cons by simp
qed simp

theorem chanopt_saves_inv_witness:
  "chanopt_inv (chanopt_list (fold (chanopt_save demo_acmp) [demo_chan, demo_chan]
     \<lparr>chanopt_list = [], chanopt_open = True, chanopt_changed = False, co_file = []\<rparr>))"
  by (rule chanopt_saves_inv)
     (simp_all add: acmp_ok_def demo_acmp_def chanopt_inv_def demo_chan_def conf_value_def chanopt_def SET_DEFAULT_def)

end
