(* ===== verification/Inbound.thy ===== *)
theory Inbound
  imports Notify Modes
begin

text \<open>
  The handlers of server messages about the members of channels (\<open>src/src/common/inbound.c\<close>): joins, parts, kicks, quits,
  nick changes, NAMES, topics, accounts, away states and user information. Each handler searches or walks the list of all sessions,
  changes the user lists of those that belong to the server and informs the friends list. A session is identified by its position in
  \<open>sess_list\<close>; its first component is the number of its server.
\<close>

section \<open>State\<close>

record client =
  sess_list :: "(nat \<times> session) list"
  cl_serv :: nserver
  cl_notify :: notify_state
  cl_log :: "event list"

text \<open>What the handlers read besides: \<open>g_utf8_skip\<close>, \<open>g_markup_escape_text\<close>, the clock and preferences, the selected session
  (\<open>current_sess\<close>), the front session and the server tab of the server, and whether a lookup of \<open>/DNS\<close> is under way.\<close>

record inb_env =
  ib_skip :: "char \<Rightarrow> nat"
  ib_markup :: "string \<Rightarrow> string"
  ib_nenv :: notify_env
  ib_current :: "nat option"
  ib_front :: "nat option"
  ib_server :: nat
  ib_auto_rejoin :: bool
  ib_show_hosts :: bool
  ib_doing_dns :: bool

section \<open>Sessions\<close>

text \<open>An operation on the session at a position, with a result.\<close>

definition upd_sess :: "nat \<Rightarrow> (session \<Rightarrow> session option) \<Rightarrow> client \<Rightarrow> client option" where
  "upd_sess i f cl =
     (if i < length (sess_list cl)
      then do {
        s' \<leftarrow> f (snd (sess_list cl ! i));
        Some (cl\<lparr>sess_list := (sess_list cl)[i := (fst (sess_list cl ! i), s')]\<rparr>)
      }
      else None)"

text \<open>A loop over \<open>sess_list\<close> that handles the sessions of the server and carries a value.\<close>

fun loop_sess :: "nserver \<Rightarrow> (nat \<Rightarrow> session \<Rightarrow> 'a \<Rightarrow> ('a \<times> session) option) \<Rightarrow> nat \<Rightarrow> 'a \<Rightarrow> (nat \<times> session) list \<Rightarrow>
    ('a \<times> (nat \<times> session) list) option" where
  "loop_sess serv f n acc [] = Some (acc, [])"
| "loop_sess serv f n acc ((sid, s) # ss) =
     do {
       (acc1, s1) \<leftarrow> (if sid = ns_id serv then f n s acc else Some (acc, s));
       (acc2, ss2) \<leftarrow> loop_sess serv f (Suc n) acc1 ss;
       Some (acc2, (sid, s1) # ss2)
     }"

definition on_sessions :: "(nat \<Rightarrow> session \<Rightarrow> 'a \<Rightarrow> ('a \<times> session) option) \<Rightarrow> 'a \<Rightarrow> client \<Rightarrow> ('a \<times> client) option" where
  "on_sessions f acc cl =
     map_option (\<lambda>(acc', ss). (acc', cl\<lparr>sess_list := ss\<rparr>)) (loop_sess (cl_serv cl) f 0 acc (sess_list cl))"

text \<open>A call into the friends list.\<close>

definition on_notify :: "(notify_state \<Rightarrow> notify_state) \<Rightarrow> client \<Rightarrow> client" where
  "on_notify f cl = cl\<lparr>cl_notify := f (cl_notify cl)\<rparr>"

text \<open>\<open>userlist_add\<close> tells the friends list about the nick; the calls are in the log of the session and are carried out here, in
  their order.\<close>

definition online_calls :: "session \<Rightarrow> session \<Rightarrow> string list" where
  "online_calls s s' =
     concat (map (\<lambda>e. case e of Notify_Set_Online n \<Rightarrow> [n] | _ \<Rightarrow> []) (drop (length (log s)) (log s')))"

definition upd_sess_online :: "inb_env \<Rightarrow> nat \<Rightarrow> (session \<Rightarrow> session option) \<Rightarrow> client \<Rightarrow> client option" where
  "upd_sess_online env i f cl =
     do {
       cl1 \<leftarrow> upd_sess i f cl;
       Some (on_notify (fold (notify_set_online (ib_nenv env) (cl_serv cl))
               (online_calls (snd (sess_list cl ! i)) (snd (sess_list cl1 ! i)))) cl1)
     }"

definition account_cleared :: "inb_env \<Rightarrow> string option \<Rightarrow> client \<Rightarrow> client option" where
  "account_cleared env account cl =
     (case account of
        None \<Rightarrow> Some cl
      | Some a \<Rightarrow>
          do {
            st \<leftarrow> notify_account_cleared (ib_nenv env) (cl_serv cl) (sess_list cl) (Some a) (cl_notify cl);
            Some (cl\<lparr>cl_notify := st\<rparr>)
          })"

section \<open>Leaving a channel\<close>

definition clear_channel :: "session \<Rightarrow> session option" where
  "clear_channel s =
     do {
       let s1 = s\<lparr>waitchannel := (if channel s \<noteq> [] then channel s else waitchannel s), channel := [], doing_who := False,
                  done_away_check := False, log_open := False\<rparr>;
       let s2 = (emit (Call ''log_close'') s1)\<lparr>current_modes := []\<rparr>;
       let s3 = (if mode_timer s2 then (emit (Call ''fe_timeout_remove'') s2)\<lparr>mode_timer := False\<rparr> else s2);
       let s4 = emit (Call ''fe_clear_channel'') (emit (Call ''clear_typing_state'') (emit (Call ''chathistory_cancel_catchup'') s3));
       s5 \<leftarrow> userlist_clear s4;
       Some (emit Fe_Set_Title (emit (Call ''fe_set_nonchannel'') s5))
     }"

text \<open>The address line of a dialog that is being logged is cut to 1023 bytes.\<close>

definition set_topic :: "string \<Rightarrow> string \<Rightarrow> session \<Rightarrow> session" where
  "set_topic raw stripped s =
     (let s1 = (if sess_type s = SESS_DIALOG \<and> sess_topic s \<noteq> Some stripped \<and> log_open s
                then emit (Write_Log (take 1023 (''['' @ channel s @ '' has address '' @ stripped @ '']'' @ [CHR 0x0A]))) s
                else s)
      in emit (Fe_Set_Topic raw stripped) (s1\<lparr>sess_topic := Some stripped\<rparr>))"

definition ukick_sess :: "inb_env \<Rightarrow> string \<Rightarrow> event \<Rightarrow> session \<Rightarrow> session option" where
  "ukick_sess env chan ev s =
     do {
       s1 \<leftarrow> clear_channel (emit ev s);
       if ib_auto_rejoin env
       then do {
         w \<leftarrow> safe_strcpy (ib_skip env) chan CHANLEN;
         Some ((emit (P_Join chan (channelkey s1)) s1)\<lparr>waitchannel := w\<rparr>)
       }
       else Some s1
     }"

definition inbound_ukick :: "inb_env \<Rightarrow> string \<Rightarrow> string \<Rightarrow> string \<Rightarrow> client \<Rightarrow> client option" where
  "inbound_ukick env chan kicker reason cl =
     (case serv_channel (cl_serv cl) (sess_list cl) chan of
        None \<Rightarrow> Some cl
      | Some i \<Rightarrow>
          upd_sess i (ukick_sess env chan
            (Emit ''XP_TE_UKICK'' [Some (my_nick (ns_server (cl_serv cl))), Some chan, Some kicker, Some reason])) cl)"

definition inbound_upart :: "string \<Rightarrow> string \<Rightarrow> string \<Rightarrow> client \<Rightarrow> client option" where
  "inbound_upart chan ip reason cl =
     (case serv_channel (cl_serv cl) (sess_list cl) chan of
        None \<Rightarrow> Some cl
      | Some i \<Rightarrow>
          (let me = Some (my_nick (ns_server (cl_serv cl)))
           in upd_sess i (\<lambda>s. clear_channel
                (emit (if reason \<noteq> [] then Emit ''XP_TE_UPARTREASON'' [me, Some ip, Some chan, Some reason]
                       else Emit ''XP_TE_UPART'' [me, Some ip, Some chan, None]) s)) cl))"

section \<open>Members\<close>

text \<open>The account of a member, if it has one.\<close>

definition account_of :: "server \<Rightarrow> session \<Rightarrow> string \<Rightarrow> string option option" where
  "account_of serv s nick =
     do {
       r \<leftarrow> userlist_find serv s nick;
       case r of None \<Rightarrow> Some None | Some a \<Rightarrow> do { u \<leftarrow> users s a; Some (u_account u) }
     }"

definition inbound_join ::
    "inb_env \<Rightarrow> string \<Rightarrow> string \<Rightarrow> string option \<Rightarrow> string option \<Rightarrow> string option \<Rightarrow> client \<Rightarrow> client option" where
  "inbound_join env chan user ip account realname cl =
     (case serv_channel (cl_serv cl) (sess_list cl) chan of
        None \<Rightarrow> Some cl
      | Some i \<Rightarrow>
          do {
            cl1 \<leftarrow> upd_sess_online env i (\<lambda>s. userlist_add (ib_skip env) (ns_server (cl_serv cl))
                      (emit (Emit ''XP_TE_JOIN'' [Some user, Some chan, ip, account]) s) user ip account realname) cl;
            Some (on_notify (notify_account_observed (ib_nenv env) (cl_serv cl1) (Some user) account) cl1)
          })"

text \<open>\<open>inbound_kick\<close> and \<open>inbound_part\<close> remove a member in the same way behind their event.\<close>

definition member_leaves :: "inb_env \<Rightarrow> string \<Rightarrow> string \<Rightarrow> event \<Rightarrow> client \<Rightarrow> client option" where
  "member_leaves env chan user ev cl =
     (case serv_channel (cl_serv cl) (sess_list cl) chan of
        None \<Rightarrow> Some cl
      | Some i \<Rightarrow>
          do {
            acct \<leftarrow> account_of (ns_server (cl_serv cl)) (snd (sess_list cl ! i)) user;
            cl1 \<leftarrow> upd_sess i (\<lambda>s. map_option snd (userlist_remove (ns_server (cl_serv cl)) (emit ev s) user)) cl;
            account_cleared env acct cl1
          })"

definition inbound_kick :: "inb_env \<Rightarrow> string \<Rightarrow> string \<Rightarrow> string \<Rightarrow> string \<Rightarrow> client \<Rightarrow> client option" where
  "inbound_kick env chan user kicker reason cl =
     member_leaves env chan user (Emit ''XP_TE_KICK'' [Some kicker, Some user, Some chan, Some reason]) cl"

definition inbound_part :: "inb_env \<Rightarrow> string \<Rightarrow> string \<Rightarrow> string \<Rightarrow> string \<Rightarrow> client \<Rightarrow> client option" where
  "inbound_part env chan user ip reason cl =
     member_leaves env chan user
       (if reason \<noteq> [] then Emit ''XP_TE_PARTREASON'' [Some user, Some ip, Some chan, Some reason]
        else Emit ''XP_TE_PART'' [Some user, Some ip, Some chan, None]) cl"

text \<open>One session of \<open>inbound_quit\<close>; the first account found is kept.\<close>

definition quit_sess ::
    "server \<Rightarrow> string \<Rightarrow> string \<Rightarrow> string \<Rightarrow> nat \<Rightarrow> session \<Rightarrow> string option \<Rightarrow> (string option \<times> session) option" where
  "quit_sess serv nick ip reason i s acct =
     do {
       let ev = Emit ''XP_TE_QUIT'' [Some nick, Some reason, Some ip];
       r \<leftarrow> userlist_find serv s nick;
       case r of
         Some a \<Rightarrow>
           do {
             u \<leftarrow> users s a;
             s' \<leftarrow> userlist_remove_user serv (emit ev s) a;
             Some (if acct = None then u_account u else acct, s')
           }
       | None \<Rightarrow> Some (acct, if sess_type s = SESS_DIALOG \<and> p_cmp serv (channel s) nick = 0 then emit ev s else s)
     }"

definition on_front :: "inb_env \<Rightarrow> client \<Rightarrow> bool" where
  "on_front env cl =
     (case ib_current env of
        None \<Rightarrow> False
      | Some i \<Rightarrow> i < length (sess_list cl) \<and> fst (sess_list cl ! i) = ns_id (cl_serv cl))"

definition inbound_quit :: "inb_env \<Rightarrow> string \<Rightarrow> string \<Rightarrow> string \<Rightarrow> client \<Rightarrow> client option" where
  "inbound_quit env nick ip reason cl =
     do {
       (acct, cl1) \<leftarrow> on_sessions (quit_sess (ns_server (cl_serv cl)) nick ip reason) None cl;
       cl2 \<leftarrow> account_cleared env acct cl1;
       Some (on_notify (notify_set_offline (ib_nenv env) (cl_serv cl2) nick (on_front env cl)) cl2)
     }"

definition newnick_sess ::
    "(char \<Rightarrow> nat) \<Rightarrow> server \<Rightarrow> bool \<Rightarrow> bool \<Rightarrow> string \<Rightarrow> string \<Rightarrow> nat \<Rightarrow> session \<Rightarrow> unit \<Rightarrow> (unit \<times> session) option" where
  "newnick_sess skip serv me quiet nick newnick i s u =
     do {
       (changed, s1) \<leftarrow> userlist_change skip serv s nick newnick;
       let s2 = (if (changed \<or> me \<and> sess_type s = SESS_SERVER) \<and> \<not> quiet
                 then emit (Emit (if me then ''XP_TE_UCHANGENICK'' else ''XP_TE_CHANGENICK'') [Some nick, Some newnick]) s1
                 else s1);
       s3 \<leftarrow> (if sess_type s = SESS_DIALOG \<and> p_cmp serv (channel s) nick = 0
              then do { ch \<leftarrow> safe_strcpy skip newnick CHANLEN; Some (emit Fe_Set_Channel (s2\<lparr>channel := ch\<rparr>)) }
              else Some s2);
       Some (u, emit Fe_Set_Title s3)
     }"

definition inbound_newnick :: "inb_env \<Rightarrow> string \<Rightarrow> string \<Rightarrow> bool \<Rightarrow> client \<Rightarrow> client option" where
  "inbound_newnick env nick newnick quiet cl =
     do {
       let serv0 = ns_server (cl_serv cl);
       let me = (p_cmp serv0 nick (my_nick serv0) = 0);
       serv \<leftarrow> (if me then do { n \<leftarrow> safe_strcpy (ib_skip env) newnick NICKLEN; Some (serv0\<lparr>my_nick := n\<rparr>) } else Some serv0);
       let cl1 = cl\<lparr>cl_serv := (cl_serv cl)\<lparr>ns_server := serv\<rparr>\<rparr>;
       (_, cl2) \<leftarrow> on_sessions (newnick_sess (ib_skip env) serv me quiet nick newnick) () cl1;
       Some (cl2\<lparr>cl_log := cl_log cl2 @ Call ''dcc_change_nick'' # (if me then [Call ''fe_set_nick''] else [])\<rparr>)
     }"

section \<open>NAMES\<close>

text \<open>\<open>strchr\<close> finds the terminator too, so the scan over the prefixes runs off a name that has nothing else.\<close>

fun skip_prefixes :: "string \<Rightarrow> string \<Rightarrow> (nat \<times> string) option" where
  "skip_prefixes pfxs [] = None"
| "skip_prefixes pfxs (c # s) = (if c \<in> set pfxs then map_option (apfst Suc) (skip_prefixes pfxs s) else Some (0, c # s))"

text \<open>Name and host of an item of the list; \<open>g_strlcpy\<close> leaves room for the terminator.\<close>

definition name_item :: "server \<Rightarrow> string \<Rightarrow> (string \<times> string option) option" where
  "name_item serv item =
     (if have_uhnames serv
      then do {
        (k, nopre) \<leftarrow> skip_prefixes (nick_prefixes serv) item;
        let offset = k + length (takeWhile (\<lambda>c. c \<noteq> CHR ''!'') nopre);
        Some (take (min (offset + 1) (nat NICKLEN) - 1) item, if offset < length item then Some (drop (offset + 1) item) else None)
      }
      else Some (take (nat NICKLEN - 1) item, None))"

fun add_names :: "(char \<Rightarrow> nat) \<Rightarrow> server \<Rightarrow> string list \<Rightarrow> session \<Rightarrow> session option" where
  "add_names skip serv [] s = Some s"
| "add_names skip serv (item # items) s =
     (if item = [] then add_names skip serv items s
      else do {
        (name, host) \<leftarrow> name_item serv item;
        s1 \<leftarrow> userlist_add skip serv s name host None None;
        add_names skip serv items s1
      })"

definition names_sess :: "(char \<Rightarrow> nat) \<Rightarrow> server \<Rightarrow> event \<Rightarrow> string \<Rightarrow> session \<Rightarrow> session option" where
  "names_sess skip serv ev names s =
     do {
       let s1 = (if ignore_names s then s else emit ev s);
       s2 \<leftarrow> (if end_of_names s1 then userlist_clear (s1\<lparr>end_of_names := False\<rparr>) else Some s1);
       add_names skip serv (g_strsplit names (CHR '' '')) s2
     }"

definition inbound_nameslist :: "inb_env \<Rightarrow> string \<Rightarrow> string \<Rightarrow> client \<Rightarrow> client option" where
  "inbound_nameslist env chan names cl =
     (let ev = Emit ''XP_TE_USERSONCHAN'' [Some chan, Some names]
      in case serv_channel (cl_serv cl) (sess_list cl) chan of
           None \<Rightarrow> upd_sess (ib_server env) (\<lambda>s. Some (emit ev s)) cl
         | Some i \<Rightarrow>
             upd_sess_online env i (names_sess (ib_skip env) (ns_server (cl_serv cl)) ev names) cl)"

definition names_end :: "session \<Rightarrow> session" where
  "names_end s = emit Fe_Userlist_Numbers (s\<lparr>end_of_names := True, ignore_names := False\<rparr>)"

definition inbound_nameslist_end :: "string \<Rightarrow> client \<Rightarrow> (bool \<times> client) option" where
  "inbound_nameslist_end chan cl =
     (if chan = ''*'' then map_option (\<lambda>(_, cl'). (True, cl')) (on_sessions (\<lambda>i s u. Some (u, names_end s)) () cl)
      else
        (case serv_channel (cl_serv cl) (sess_list cl) chan of
           Some i \<Rightarrow> map_option (Pair True) (upd_sess i (\<lambda>s. Some (names_end s)) cl)
         | None \<Rightarrow> Some (False, cl)))"

section \<open>Topics\<close>

definition inbound_topic :: "inb_env \<Rightarrow> string \<Rightarrow> string \<Rightarrow> client \<Rightarrow> client option" where
  "inbound_topic env chan topic_text cl =
     (let ev = Emit ''XP_TE_TOPIC'' [Some chan, Some topic_text]
      in case serv_channel (cl_serv cl) (sess_list cl) chan of
           Some i \<Rightarrow> upd_sess i (\<lambda>s. do { t \<leftarrow> strip_color (ib_markup env) topic_text None STRIP_ALL;
                                        Some (emit ev (set_topic topic_text t s)) }) cl
         | None \<Rightarrow> upd_sess (ib_server env) (\<lambda>s. Some (emit ev s)) cl)"

definition inbound_topicnew :: "inb_env \<Rightarrow> string \<Rightarrow> string \<Rightarrow> string \<Rightarrow> client \<Rightarrow> client option" where
  "inbound_topicnew env nick chan new cl =
     (case serv_channel (cl_serv cl) (sess_list cl) chan of
        Some i \<Rightarrow> upd_sess i (\<lambda>s. do { t \<leftarrow> strip_color (ib_markup env) new None STRIP_ALL;
                                     Some (set_topic new t (emit (Emit ''XP_TE_NEWTOPIC'' [Some nick, Some new, Some chan]) s)) }) cl
      | None \<Rightarrow> Some cl)"

section \<open>Accounts, away states, user information\<close>

definition find_account :: "server \<Rightarrow> string \<Rightarrow> nat \<Rightarrow> session \<Rightarrow> string option \<Rightarrow> (string option \<times> session) option" where
  "find_account serv nick i s acct =
     (if acct \<noteq> None then Some (acct, s) else do { a \<leftarrow> account_of serv s nick; Some (a, s) })"

definition inbound_account :: "inb_env \<Rightarrow> string \<Rightarrow> string \<Rightarrow> client \<Rightarrow> client option" where
  "inbound_account env nick account cl =
     do {
       (old, cl0) \<leftarrow> on_sessions (find_account (ns_server (cl_serv cl)) nick) None cl;
       (_, cl1) \<leftarrow> on_sessions (\<lambda>i s u. map_option (Pair u) (userlist_set_account (ns_server (cl_serv cl)) s nick account)) () cl0;
       let cl2 = on_notify (notify_account_observed (ib_nenv env) (cl_serv cl) (Some nick) (Some account)) cl1;
       if old \<noteq> None \<and> (no_account (Some account) \<or> Some account \<noteq> old) then account_cleared env old cl2 else Some cl2
     }"

definition inbound_set_all_away_status :: "string \<Rightarrow> nat \<Rightarrow> client \<Rightarrow> client option" where
  "inbound_set_all_away_status nick status cl =
     map_option snd (on_sessions (\<lambda>i s u. map_option (Pair u) (userlist_set_away (ns_server (cl_serv cl)) s nick status)) () cl)"

text \<open>One session of \<open>inbound_away_notify\<close>: the front session tells about friends.\<close>

definition away_notify_sess ::
    "inb_env \<Rightarrow> nserver \<Rightarrow> notify_state \<Rightarrow> string \<Rightarrow> string option \<Rightarrow> nat \<Rightarrow> session \<Rightarrow> unit \<Rightarrow> (unit \<times> session) option" where
  "away_notify_sess env serv st nick reason i s u =
     do {
       s1 \<leftarrow> userlist_set_away (ns_server serv) s nick (if reason \<noteq> None then 1 else 0);
       if ib_front env = Some i
       then do {
         acct \<leftarrow> account_of (ns_server serv) s1 nick;
         Some (u, if notify_is_in_list serv (Some nick) acct st
                  then emit (if reason \<noteq> None then Emit ''XP_TE_NOTIFYAWAY'' [Some nick, reason]
                             else Emit ''XP_TE_NOTIFYBACK'' [Some nick]) s1
                  else s1)
       }
       else Some (u, s1)
     }"

definition inbound_away_notify :: "inb_env \<Rightarrow> string \<Rightarrow> string option \<Rightarrow> client \<Rightarrow> client option" where
  "inbound_away_notify env nick reason cl =
     map_option snd (on_sessions (away_notify_sess env (cl_serv cl) (cl_notify cl) nick reason) () cl)"

text \<open>One session of \<open>inbound_user_info\<close> when the information is not about a channel.\<close>

definition user_info_sess ::
    "bool \<Rightarrow> server \<Rightarrow> string \<Rightarrow> string option \<Rightarrow> string option \<Rightarrow> string option \<Rightarrow> string option \<Rightarrow> nat \<Rightarrow>
      nat \<Rightarrow> session \<Rightarrow> unit \<Rightarrow> (unit \<times> session) option" where
  "user_info_sess sh serv nick uhost realname servname account away i s u =
     (if sess_type s = SESS_CHANNEL
      then map_option (\<lambda>(_, s'). (u, s')) (userlist_add_hostname sh serv s nick uhost realname servname account away)
      else if sess_type s = SESS_DIALOG \<and> uhost \<noteq> None \<and> p_cmp serv (channel s) nick = 0
      then Some (u, set_topic (the uhost) (the uhost) s)
      else Some (u, s))"

definition inbound_user_info ::
    "inb_env \<Rightarrow> nat \<Rightarrow> string option \<Rightarrow> string option \<Rightarrow> string option \<Rightarrow> string option \<Rightarrow> string \<Rightarrow> string option \<Rightarrow>
      string option \<Rightarrow> nat \<Rightarrow> client \<Rightarrow> client option" where
  "inbound_user_info env sess chan user host servname nick realname account away cl =
     do {
       let serv = ns_server (cl_serv cl);
       let uhost = (case (user, host) of (Some u, Some h) \<Rightarrow> Some (u @ ''@'' @ h) | _ \<Rightarrow> None);
       cl1 \<leftarrow> (case chan of
                Some c \<Rightarrow>
                  (case serv_channel (cl_serv cl) (sess_list cl) c of
                     Some i \<Rightarrow> upd_sess i (\<lambda>s. map_option snd
                       (userlist_add_hostname (ib_show_hosts env) serv s nick uhost realname servname account away)) cl
                   | None \<Rightarrow>
                       if ib_doing_dns env \<and> host \<noteq> None then upd_sess sess (\<lambda>s. Some (emit (Call ''do_dns'') s)) cl else Some cl)
              | None \<Rightarrow> map_option snd
                  (on_sessions (user_info_sess (ib_show_hosts env) serv nick uhost realname servname account away) () cl));
       Some (case account of
               None \<Rightarrow> cl1
             | Some a \<Rightarrow> if a \<noteq> [] then on_notify (notify_account_observed (ib_nenv env) (cl_serv cl) (Some nick) account) cl1 else cl1)
     }"

section \<open>Rosters\<close>

text \<open>What a user list stands for: the set of the folded nicks of its users.\<close>

definition roster :: "session \<Rightarrow> string set" where
  "roster s = (\<lambda>u. rfc_strlower (u_nick u)) ` ran (users s)"

text \<open>The part of a session that the operations on its users leave alone.\<close>

definition frame_of :: "session \<Rightarrow> session_type \<times> string \<times> bool \<times> string" where
  "frame_of s = (sess_type s, channel s, end_of_names s, current_modes s)"

lemma frame_emit [simp]: "frame_of (emit e s) = frame_of s" "frame_of (set_user a u s) = frame_of s"
  by (simp_all add: frame_of_def)

lemma roster_emit [simp]: "roster (emit e s) = roster s"
  by (simp add: roster_def)

lemma frame_tree: "frame_of (s\<lparr>usertree := t\<rparr>) = frame_of s" "frame_of (s\<lparr>users := h\<rparr>) = frame_of s"
  "frame_of (s\<lparr>next_addr := n\<rparr>) = frame_of s" "frame_of (s\<lparr>sess_me := m\<rparr>) = frame_of s"
  "frame_of (s\<lparr>ops := a\<rparr>) = frame_of s" "frame_of (s\<lparr>hops := b\<rparr>) = frame_of s" "frame_of (s\<lparr>voices := c\<rparr>) = frame_of s"
  "frame_of (s\<lparr>total := d\<rparr>) = frame_of s"
  by (simp_all add: frame_of_def)

lemma frame_insertname: "userlist_insertname serv s a = Some (r, s') \<Longrightarrow> frame_of s' = frame_of s"
  by (auto simp: userlist_insertname_def bind_eq_Some_conv Let_def frame_tree)

lemma frame_tree_remove: "tree_remove_user serv s a = Some s' \<Longrightarrow> frame_of s' = frame_of s"
  by (auto simp: tree_remove_user_def bind_eq_Some_conv frame_tree)

lemma frame_counts: "frame_of (fst (update_counts p l k (s, u))) = frame_of s"
  by (simp add: update_counts_def frame_of_def)

lemma frame_change: "userlist_change skip serv s old new = Some (b, s') \<Longrightarrow> frame_of s' = frame_of s"
  by (auto simp: userlist_change_def bind_eq_Some_conv Let_def split: option.splits
      dest!: frame_tree_remove frame_insertname)

lemma frame_remove_user: "userlist_remove_user serv s a = Some s' \<Longrightarrow> frame_of s' = frame_of s"
  by (auto simp: userlist_remove_user_def bind_eq_Some_conv Let_def frame_tree dest!: frame_tree_remove split: if_splits)

lemma frame_remove: "userlist_remove serv s name = Some (b, s') \<Longrightarrow> frame_of s' = frame_of s"
  by (auto simp: userlist_remove_def bind_eq_Some_conv split: option.splits dest: frame_remove_user)

lemma frame_away:
  assumes "userlist_set_away serv s name aw = Some s'"
  shows "frame_of s' = frame_of s"
proof -
  obtain r where r: "userlist_find serv s name = Some r" using assms by (auto simp: userlist_set_away_def bind_eq_Some_conv)
  show ?thesis
  proof (cases r)
    case None
    then show ?thesis using assms r by (simp add: userlist_set_away_def)
  next
    case (Some a)
    then obtain u where "users s a = Some u" using assms r by (auto simp: userlist_set_away_def bind_eq_Some_conv)
    then show ?thesis using assms r Some
      by (cases "of_bool (u_away u) = aw"; cases "aw = 0") (auto simp: userlist_set_away_def Let_def)
  qed
qed

lemma frame_account: "userlist_set_account serv s name ac = Some s' \<Longrightarrow> frame_of s' = frame_of s"
  by (auto simp: userlist_set_account_def bind_eq_Some_conv split: option.splits if_splits)

lemma frame_hostname: "userlist_add_hostname sh serv s name h r sv ac aw = Some (b, s') \<Longrightarrow> frame_of s' = frame_of s"
  by (auto simp: userlist_add_hostname_def bind_eq_Some_conv Let_def if_distrib [of frame_of] split: option.splits)

lemma frame_fold_counts:
  "frame_of (fst (fold (\<lambda>p. update_counts p l k) ps (s, u))) = frame_of s"
proof (induction ps arbitrary: s u)
  case (Cons p ps)
  obtain s1 u1 where "update_counts p l k (s, u) = (s1, u1)" by fastforce
  then show ?case using Cons [of s1 u1] frame_counts [of p l k s u] by simp
qed simp


lemma frame_enter: "userlist_enter serv s u ps = Some s' \<Longrightarrow> frame_of s' = frame_of s"
  by (auto simp: userlist_enter_def bind_eq_Some_conv Let_def case_prod_beta frame_tree frame_fold_counts
      dest!: frame_insertname split: if_splits)

lemma frame_add: "userlist_add skip serv s name h ac r = Some s' \<Longrightarrow> frame_of s' = frame_of s"
  by (auto simp: userlist_add_def bind_eq_Some_conv dest!: frame_enter)

lemma frame_clear: "userlist_clear s = Some s' \<Longrightarrow> frame_of s' = frame_of s"
  by (auto simp: userlist_clear_def userlist_free_def bind_eq_Some_conv frame_of_def)

lemmas frame_ops = frame_change frame_remove_user frame_remove frame_away frame_account frame_hostname frame_add frame_clear

lemma session_inv_frame:
  assumes "nicks_inv serv s'" "frame_of s' = frame_of s" "session_inv serv s"
  shows "session_inv serv s'"
  using assms by (auto simp: session_inv_def modes_inv_def frame_of_def)

lemma session_inv_nicks [dest]: "session_inv serv s \<Longrightarrow> nicks_inv serv s"
  by (simp add: session_inv_def)

lemma roster_member:
  assumes "nicks_inv serv s" "nick_server serv" "plain_nick nick"
  shows "rfc_strlower nick \<in> roster s \<longleftrightarrow> (\<exists>a u. userlist_find serv s nick = Some (Some a) \<and> users s a = Some u)"
  using nicks_find_iff [OF assms] by (fastforce simp: roster_def ran_def image_iff)

lemma nicks_unique:
  assumes "nicks_inv serv s" "nick_server serv" "users s a = Some u" "users s b = Some v"
    and "rfc_strlower (u_nick u) = rfc_strlower (u_nick v)"
  shows "a = b"
proof -
  obtain xs where ti: "tree_inv rfc_casecmp plain_nick s xs" using assms(1) by (auto simp: userlist_inv_def)
  have "a \<in> set xs" using ti assms(3) by (auto simp: tree_inv_def)
  then have "plain_nick (u_nick u)" using nicks.part_ok [of s xs a] ti assms(3) by (simp add: tree_inv_part nick_at_def)
  from nicks_find_iff [OF assms(1,2) this] assms(3-5) show ?thesis by (metis option.inject)
qed

lemma ran_split:
  "h a = Some u \<Longrightarrow> ran h = insert u (ran (h(a := None)))" "ran (h(a \<mapsto> v)) = insert v (ran (h(a := None)))"
proof -
  show upd: "ran (h(a \<mapsto> v)) = insert v (ran (h(a := None)))" for v
    using ran_map_upd [of "h(a := None)" a v] by simp
  show "ran h = insert u (ran (h(a := None)))" if "h a = Some u"
    using upd [of u] that by (simp add: fun_upd_idem)
qed

lemma roster_delete:
  assumes "nicks_inv serv s" "nick_server serv" "users s a = Some u" "users s' = (users s)(a := None)"
  shows "roster s' = roster s - {rfc_strlower (u_nick u)}"
proof -
  have "rfc_strlower (u_nick v) \<noteq> rfc_strlower (u_nick u)" if v: "v \<in> ran ((users s)(a := None))" for v
  proof -
    obtain b where "((users s)(a := None)) b = Some v" using v by (auto simp: ran_def)
    then have "users s b = Some v" "b \<noteq> a" by (auto split: if_splits)
    with nicks_unique [OF assms(1,2) _ assms(3)] show ?thesis by blast
  qed
  then show ?thesis using assms(4) ran_split(1) [of "users s" a u] assms(3) by (auto simp: roster_def)
qed

lemma roster_same_nick:
  assumes "users s a = Some u" "u_nick u' = u_nick u" "users s' = (users s)(a \<mapsto> u')"
  shows "roster s' = roster s"
  using assms ran_split(1) [of "users s" a u] ran_split(2) [of "users s" a u'] by (simp add: roster_def)

lemma roster_update:
  assumes "nicks_inv serv s" "nick_server serv" "users s a = Some u" "users s' = (users s)(a \<mapsto> u')"
  shows "roster s' = insert (rfc_strlower (u_nick u')) (roster s - {rfc_strlower (u_nick u)})"
proof -
  have "roster s - {rfc_strlower (u_nick u)} = (\<lambda>u. rfc_strlower (u_nick u)) ` ran ((users s)(a := None))"
    using roster_delete [OF assms(1-3), of "s\<lparr>users := (users s)(a := None)\<rparr>"] by (simp add: roster_def)
  then show ?thesis using assms(4) ran_split(2) [of "users s" a u'] by (simp add: roster_def)
qed

section \<open>Operations on one session\<close>

text \<open>Every operation on the users of a session is defined, keeps the invariant and changes the roster as told.\<close>

lemma add_session:
  assumes "session_inv serv s" "nick_server serv" "ascii_skip skip" "plain_nick name"
    and "distinct (take (prefix_len serv name) name)"
  shows "\<exists>s'. userlist_add skip serv s name h ac r = Some s' \<and> session_inv serv s' \<and> frame_of s' = frame_of s \<and>
     roster s' = insert (rfc_strlower (take 63 (drop (prefix_len serv name) name))) (roster s)"
proof -
  let ?n = "take 63 (drop (prefix_len serv name) name)"
  obtain s' where s': "userlist_add skip serv s name h ac r = Some s'" "nicks_inv serv s'"
    and u0: "let nick = ?n in
      if \<exists>b \<in> dom (users s). rfc_casecmp nick (nick_at (users s) b) = 0 then users s' = users s
      else \<exists>u'. users s' = (users s)(next_addr s \<mapsto> u') \<and> u_nick u' = nick \<and>
             (\<forall>p. has_prefix serv (u_access u') p \<longleftrightarrow> p \<in> set (take (prefix_len serv name) name))"
    using nicks_add [OF session_inv_nicks [OF assms(1)] assms(2-5), of h ac r] by blast
  then have u: "if \<exists>b \<in> dom (users s). rfc_casecmp ?n (nick_at (users s) b) = 0 then users s' = users s
      else \<exists>u'. users s' = (users s)(next_addr s \<mapsto> u') \<and> u_nick u' = ?n"
    unfolding Let_def by metis
  obtain xs where ti: "tree_inv rfc_casecmp plain_nick s xs" using assms(1) by (auto simp: userlist_inv_def session_inv_def)
  have pn: "plain_nick ?n" using plain_nick_take_drop assms(4) by blast
  have "roster s' = insert (rfc_strlower ?n) (roster s)"
  proof (cases "\<exists>b \<in> dom (users s). rfc_casecmp ?n (nick_at (users s) b) = 0")
    case True
    then obtain b v where b: "users s b = Some v" "rfc_casecmp ?n (u_nick v) = 0" by (auto simp: nick_at_def)
    have "plain_nick (u_nick v)" using nicks.part_ok [of s xs b] ti b(1) by (force simp: tree_inv_part nick_at_def)
    then have "rfc_strlower ?n = rfc_strlower (u_nick v)" using b(2) pn rfc_casecmp_eq_0 [of ?n "u_nick v"] by (simp add: plain_nick_def)
    moreover have "users s' = users s" using u True by simp
    ultimately show ?thesis using b(1) by (auto simp: roster_def ran_def)
  next
    case False
    then obtain u' where u': "users s' = (users s)(next_addr s \<mapsto> u')" "u_nick u' = ?n" using u by auto
    have "users s (next_addr s) = None" using ti by (fastforce simp: tree_inv_def dom_def)
    then show ?thesis using u' by (simp add: roster_def ran_map_upd)
  qed
  then show ?thesis using s' frame_add [OF s'(1)] session_inv_frame [OF s'(2) _ assms(1)] by blast
qed

lemma remove_user_session:
  assumes "session_inv serv s" "nick_server serv" "plain_nick nick" "userlist_find serv s nick = Some (Some a)"
  shows "\<exists>u s'. users s a = Some u \<and> userlist_remove_user serv s a = Some s' \<and> session_inv serv s' \<and> frame_of s' = frame_of s \<and>
     roster s' = roster s - {rfc_strlower nick}"
proof -
  note inv = session_inv_nicks [OF assms(1)]
  obtain u where u: "users s a = Some u" "rfc_strlower (u_nick u) = rfc_strlower nick"
    using nicks_find_iff [OF inv assms(2,3)] assms(4) by auto
  obtain s' where s': "userlist_remove_user serv s a = Some s'" "nicks_inv serv s'" "users s' = (users s)(a := None)"
    using nicks.remove_user_inv [OF inv, of a] u(1) assms(2) by (auto simp: nick_server_def)
  show ?thesis
    using s' u roster_delete [OF inv assms(2) u(1) s'(3)] frame_remove_user [OF s'(1)] session_inv_frame [OF s'(2) _ assms(1)] by auto
qed

lemma find_session:
  assumes "session_inv serv s" "nick_server serv" "plain_nick nick"
  obtains (hit) a u where "userlist_find serv s nick = Some (Some a)" "users s a = Some u"
      "rfc_strlower (u_nick u) = rfc_strlower nick" "rfc_strlower nick \<in> roster s"
    | (miss) "userlist_find serv s nick = Some None" "rfc_strlower nick \<notin> roster s"
proof -
  note inv = session_inv_nicks [OF assms(1)]
  obtain r where r: "userlist_find serv s nick = Some r"
    "\<forall>a. r = Some a \<longleftrightarrow> (\<exists>u. users s a = Some u \<and> rfc_strlower (u_nick u) = rfc_strlower nick)"
    using nicks_find_iff [OF inv assms(2,3)] by blast
  note member = roster_member [OF inv assms(2,3)]
  show thesis
  proof (cases r)
    case None
    then show ?thesis using that(2) r member by simp
  next
    case (Some a)
    then obtain u where "users s a = Some u" "rfc_strlower (u_nick u) = rfc_strlower nick" using r(2) by blast
    then show ?thesis using that(1) [of a u] r(1) member Some by blast
  qed
qed

lemma remove_session:
  assumes "session_inv serv s" "nick_server serv" "plain_nick nick"
  shows "\<exists>b s'. userlist_remove serv s nick = Some (b, s') \<and> session_inv serv s' \<and> frame_of s' = frame_of s \<and>
     roster s' = roster s - {rfc_strlower nick}"
proof (cases rule: find_session [OF assms, case_names hit miss])
  case (hit a u)
  with remove_user_session [OF assms hit(1)] show ?thesis by (auto simp: userlist_remove_def)
qed (use assms(1) in \<open>auto simp: userlist_remove_def\<close>)

lemma change_session:
  assumes "session_inv serv s" "nick_server serv" "ascii_skip skip" "plain_nick old" "plain_nick new"
    and "rfc_strlower (take 63 new) \<in> roster s \<longrightarrow> rfc_strlower (take 63 new) = rfc_strlower old"
  shows "\<exists>b s'. userlist_change skip serv s old new = Some (b, s') \<and> session_inv serv s' \<and> frame_of s' = frame_of s \<and>
     b = (rfc_strlower old \<in> roster s) \<and>
     roster s' = (if rfc_strlower old \<in> roster s then insert (rfc_strlower (take 63 new)) (roster s - {rfc_strlower old}) else roster s)"
proof (cases rule: find_session [OF assms(1,2,4), case_names hit miss])
  case (hit a u)
  note inv = session_inv_nicks [OF assms(1)]
  obtain xs where ti: "tree_inv rfc_casecmp plain_nick s xs" using inv by (auto simp: userlist_inv_def)
  have "rfc_casecmp (take 63 new) (nick_at (users s) b) \<noteq> 0" if b: "b \<in> dom (users s) - {a}" for b
  proof
    assume eq: "rfc_casecmp (take 63 new) (nick_at (users s) b) = 0"
    obtain v where v: "users s b = Some v" "b \<noteq> a" using b by auto
    have "plain_nick (u_nick v)" using nicks.part_ok [of s xs b] ti v(1) by (force simp: tree_inv_part nick_at_def)
    then have "rfc_strlower (take 63 new) = rfc_strlower (u_nick v)"
      using eq v(1) plain_nick_take_drop(1) [OF assms(5), of 63] rfc_casecmp_eq_0 [of "take 63 new" "u_nick v"]
      by (simp add: plain_nick_def nick_at_def)
    moreover have "rfc_strlower (u_nick v) \<in> roster s" using v(1) by (auto simp: roster_def ran_def)
    ultimately have "rfc_strlower (u_nick v) = rfc_strlower (u_nick u)" using assms(6) hit(3) by simp
    with nicks_unique [OF inv assms(2) v(1) hit(2)] v(2) show False by simp
  qed
  then obtain s' where s': "userlist_change skip serv s old new = Some (True, s')" "nicks_inv serv s'"
    "users s' = (users s)(a \<mapsto> u\<lparr>u_nick := take 63 new\<rparr>)"
    using nicks.change_inv [OF inv _ hit(1) assms(4) nick_copy [OF assms(3,5)] plain_nick_take_drop(1) [OF assms(5)]]
      hit(2) assms(2) by (force simp: nick_server_def)
  show ?thesis
    using s' roster_update [OF inv assms(2) hit(2) s'(3)] hit(3,4) frame_change [OF s'(1)] session_inv_frame [OF s'(2) _ assms(1)]
    by auto
next
  case miss
  then show ?thesis using assms(1) by (auto simp: userlist_change_def)
qed

lemma away_session:
  assumes "session_inv serv s" "nick_server serv" "plain_nick nick"
  shows "\<exists>s'. userlist_set_away serv s nick aw = Some s' \<and> session_inv serv s' \<and> frame_of s' = frame_of s \<and> roster s' = roster s"
proof -
  obtain s' where s': "userlist_set_away serv s nick aw = Some s'" "nicks_inv serv s'"
    using nicks.set_away_inv [OF session_inv_nicks [OF assms(1)] _ assms(3)] assms(2) by (auto simp: nick_server_def)
  have "roster s' = roster s"
  proof (cases rule: find_session [OF assms, case_names hit miss])
    case (hit a u)
    have "roster (set_user a (u\<lparr>u_away := x\<rparr>) s) = roster s" for x
      by (rule roster_same_nick [OF hit(2)]) simp_all
    then show ?thesis using s'(1) hit(1,2)
      by (cases "of_bool (u_away u) = aw"; cases "aw = 0") (auto simp: userlist_set_away_def Let_def)
  qed (use s'(1) in \<open>auto simp: userlist_set_away_def\<close>)
  then show ?thesis using s' frame_away [OF s'(1)] session_inv_frame [OF s'(2) _ assms(1)] by blast
qed

lemma account_session:
  assumes "session_inv serv s" "nick_server serv" "plain_nick nick"
  shows "\<exists>s'. userlist_set_account serv s nick ac = Some s' \<and> session_inv serv s' \<and> frame_of s' = frame_of s \<and> roster s' = roster s"
proof -
  obtain s' where s': "userlist_set_account serv s nick ac = Some s'" "nicks_inv serv s'"
    using nicks.set_account_inv [OF session_inv_nicks [OF assms(1)] _ assms(3)] assms(2) by (auto simp: nick_server_def)
  have "roster s' = roster s"
  proof (cases rule: find_session [OF assms, case_names hit miss])
    case (hit a u)
    have "roster (set_user a (u\<lparr>u_account := x\<rparr>) s) = roster s" for x
      by (rule roster_same_nick [OF hit(2)]) simp_all
    then show ?thesis using s'(1) hit(1,2) by (auto simp: userlist_set_account_def split: if_splits)
  qed (use s'(1) in \<open>auto simp: userlist_set_account_def\<close>)
  then show ?thesis using s' frame_account [OF s'(1)] session_inv_frame [OF s'(2) _ assms(1)] by blast
qed

lemma hostname_session:
  assumes "session_inv serv s" "nick_server serv" "plain_nick nick"
  shows "\<exists>b s'. userlist_add_hostname sh serv s nick h r sv ac aw = Some (b, s') \<and> session_inv serv s' \<and>
     frame_of s' = frame_of s \<and> roster s' = roster s"
proof -
  obtain b s' where s': "userlist_add_hostname sh serv s nick h r sv ac aw = Some (b, s')" "nicks_inv serv s'"
    using nicks.add_hostname_inv [OF session_inv_nicks [OF assms(1)], of nick sh h r sv ac aw] assms(2,3)
    by (auto simp: nick_server_def)
  have "roster s' = roster s"
  proof (cases rule: find_session [OF assms, case_names hit miss])
    case (hit a u)
    have "roster (set_user a (hostname_fields h r sv ac aw u) s) = roster s"
      using roster_same_nick [OF hit(2), of "hostname_fields h r sv ac aw u"] by (simp add: hostname_fields_keep)
    moreover have "s' = (if (h \<noteq> None \<and> u_hostname u \<noteq> h \<and> sh) \<or> (aw \<noteq> 255 \<and> of_bool (u_away u) \<noteq> aw)
        then emit (Fe_Userlist_Rehash a) (emit (Fe_Userlist_Update a) (set_user a (hostname_fields h r sv ac aw u) s))
        else emit (Fe_Userlist_Update a) (set_user a (hostname_fields h r sv ac aw u) s))"
      using s'(1) by (simp only: userlist_add_hostname_def hit Let_def bind.bind_lunit option.case option.inject prod.inject)
    ultimately show ?thesis by (simp split: if_split)
  qed (use s'(1) in \<open>auto simp: userlist_add_hostname_def\<close>)
  then show ?thesis using s' frame_hostname [OF s'(1)] session_inv_frame [OF s'(2) _ assms(1)] by blast
qed

lemma clear_session:
  assumes "session_inv serv s"
  shows "\<exists>s'. userlist_clear s = Some s' \<and> session_inv serv s' \<and> frame_of s' = frame_of s \<and> roster s' = {}"
proof -
  obtain s' where s': "userlist_clear s = Some s'" "nicks_inv serv s'" "users s' = Map.empty"
    using clear_inv [OF session_inv_nicks [OF assms]] by blast
  have "roster s' = {}" using s'(3) by (simp add: roster_def)
  then show ?thesis using s' frame_clear [OF s'(1)] session_inv_frame [OF s'(2) _ assms] by blast
qed

section \<open>From one session to all\<close>

text \<open>What the rest of the client may rely on when it applies an operation to the sessions of a server: on a session with
  \<open>pre\<close> it is defined, \<open>post\<close> holds afterwards, and it is \<open>g\<close> on what the session stands for. A loop may in addition carry a
  value.\<close>

definition own_all :: "(session \<Rightarrow> bool) \<Rightarrow> client \<Rightarrow> bool" where
  "own_all P cl \<longleftrightarrow> (\<forall>x \<in> set (sess_list cl). fst x = ns_id (cl_serv cl) \<longrightarrow> P (snd x))"

definition views :: "(session \<Rightarrow> 'v) \<Rightarrow> (nat \<times> session) list \<Rightarrow> (nat \<times> 'v) list" where
  "views view ss = map (apsnd view) ss"

definition every_own :: "nat \<Rightarrow> ('v \<Rightarrow> 'v) \<Rightarrow> (nat \<times> 'v) list \<Rightarrow> (nat \<times> 'v) list" where
  "every_own sid g vs = map (\<lambda>(i, v). (i, if i = sid then g v else v)) vs"

locale session_loop =
  fixes pre post :: "session \<Rightarrow> bool" and view :: "session \<Rightarrow> 'v" and g :: "'v \<Rightarrow> 'v"
    and f :: "nat \<Rightarrow> session \<Rightarrow> 'a \<Rightarrow> ('a \<times> session) option"
  assumes step: "pre s \<Longrightarrow> \<exists>a' s'. f i s a = Some (a', s') \<and> post s' \<and> view s' = g (view s)"
begin

lemma loop:
  assumes "\<forall>x \<in> set ss. fst x = ns_id serv \<longrightarrow> pre (snd x)"
  shows "\<exists>a' ss'. loop_sess serv f n a ss = Some (a', ss') \<and> (\<forall>x \<in> set ss'. fst x = ns_id serv \<longrightarrow> post (snd x)) \<and>
     views view ss' = every_own (ns_id serv) g (views view ss)"
  using assms
proof (induction ss arbitrary: n a)
  case (Cons x ss)
  obtain sid s where x: "x = (sid, s)" by (cases x)
  show ?case
  proof (cases "sid = ns_id serv")
    case True
    then obtain a1 s1 where f: "f n s a = Some (a1, s1)" "post s1" "view s1 = g (view s)" using step [of s n a] Cons.prems x by auto
    obtain a2 ss2 where "loop_sess serv f (Suc n) a1 ss = Some (a2, ss2)" "\<forall>x \<in> set ss2. fst x = ns_id serv \<longrightarrow> post (snd x)"
      "views view ss2 = every_own (ns_id serv) g (views view ss)"
      using Cons.IH [of "Suc n" a1] Cons.prems by auto
    then show ?thesis using True f x by (simp add: views_def every_own_def)
  next
    case False
    obtain a2 ss2 where "loop_sess serv f (Suc n) a ss = Some (a2, ss2)" "\<forall>x \<in> set ss2. fst x = ns_id serv \<longrightarrow> post (snd x)"
      "views view ss2 = every_own (ns_id serv) g (views view ss)"
      using Cons.IH [of "Suc n" a] Cons.prems by auto
    then show ?thesis using False x by (simp add: views_def every_own_def)
  qed
qed (simp add: views_def every_own_def)

lemma all_sessions:
  assumes "own_all pre cl"
  shows "\<exists>a' ss'. on_sessions f a cl = Some (a', cl\<lparr>sess_list := ss'\<rparr>) \<and> own_all post (cl\<lparr>sess_list := ss'\<rparr>) \<and>
     views view ss' = every_own (ns_id (cl_serv cl)) g (views view (sess_list cl))"
  using loop [of "sess_list cl" "cl_serv cl" 0 a] assms by (fastforce simp: on_sessions_def own_all_def)

end

locale session_op =
  fixes pre post :: "session \<Rightarrow> bool" and view :: "session \<Rightarrow> 'v" and g :: "'v \<Rightarrow> 'v" and h :: "session \<Rightarrow> session option"
  assumes op: "pre s \<Longrightarrow> \<exists>s'. h s = Some s' \<and> post s' \<and> view s' = g (view s)"
begin

lemma one_session:
  assumes "i < length (sess_list cl)" "pre (snd (sess_list cl ! i))" "own_all post cl"
  shows "\<exists>ss'. upd_sess i h cl = Some (cl\<lparr>sess_list := ss'\<rparr>) \<and> own_all post (cl\<lparr>sess_list := ss'\<rparr>) \<and>
     views view ss' = (views view (sess_list cl))[i := apsnd g (views view (sess_list cl) ! i)]"
proof -
  obtain s' where s': "h (snd (sess_list cl ! i)) = Some s'" "post s'" "view s' = g (view (snd (sess_list cl ! i)))"
    using op [OF assms(2)] by blast
  show ?thesis
    using s' assms by (auto simp: upd_sess_def own_all_def views_def map_update apsnd_def map_prod_def case_prod_beta
        dest!: set_update_subset_insert [THEN subsetD])
qed

end

sublocale session_op \<subseteq> each: session_loop pre post view g "\<lambda>i s a. map_option (Pair a) (h s)"
  using op by unfold_locales fastforce

section \<open>What the messages mean\<close>

text \<open>A room is what a session stands for: its kind and name, whether the list of members is complete, and its members by folded
  nicks.\<close>

record room =
  rm_type :: session_type
  rm_name :: string
  rm_done :: bool
  rm_members :: "string set"

definition room_of :: "session \<Rightarrow> room" where
  "room_of s = \<lparr>rm_type = sess_type s, rm_name = channel s, rm_done = end_of_names s, rm_members = roster s\<rparr>"

abbreviation rooms :: "client \<Rightarrow> (nat \<times> room) list" where
  "rooms cl \<equiv> views room_of (sess_list cl)"

datatype member_msg =
    Msg_Join string string "string option" "string option" "string option"
  | Msg_Part string string string string
  | Msg_Kick string string string string
  | Msg_Quit string string string
  | Msg_Nick string string bool
  | Msg_Names string string
  | Msg_Names_End string
  | Msg_UPart string string string
  | Msg_UKick string string string
  | Msg_Account string string
  | Msg_Away string "string option"
  | Msg_Topic string string
  | Msg_New_Topic string string string
  | Msg_Info nat "string option" "string option" "string option" "string option" string "string option" "string option" nat

definition inb_apply :: "inb_env \<Rightarrow> member_msg \<Rightarrow> client \<Rightarrow> client option" where
  "inb_apply env m cl =
     (case m of
        Msg_Join chan user ip account realname \<Rightarrow> inbound_join env chan user ip account realname cl
      | Msg_Part chan user ip reason \<Rightarrow> inbound_part env chan user ip reason cl
      | Msg_Kick chan user kicker reason \<Rightarrow> inbound_kick env chan user kicker reason cl
      | Msg_Quit nick ip reason \<Rightarrow> inbound_quit env nick ip reason cl
      | Msg_Nick nick newnick quiet \<Rightarrow> inbound_newnick env nick newnick quiet cl
      | Msg_Names chan names \<Rightarrow> inbound_nameslist env chan names cl
      | Msg_Names_End chan \<Rightarrow> map_option snd (inbound_nameslist_end chan cl)
      | Msg_UPart chan ip reason \<Rightarrow> inbound_upart chan ip reason cl
      | Msg_UKick chan kicker reason \<Rightarrow> inbound_ukick env chan kicker reason cl
      | Msg_Account nick account \<Rightarrow> inbound_account env nick account cl
      | Msg_Away nick reason \<Rightarrow> inbound_away_notify env nick reason cl
      | Msg_Topic chan t \<Rightarrow> inbound_topic env chan t cl
      | Msg_New_Topic nick chan t \<Rightarrow> inbound_topicnew env nick chan t cl
      | Msg_Info sess chan user host servname nick realname account away \<Rightarrow>
          inbound_user_info env sess chan user host servname nick realname account away cl)"

text \<open>The specification: rooms as sets of members.\<close>

definition nick_key :: "server \<Rightarrow> string \<Rightarrow> string" where
  "nick_key serv name = rfc_strlower (take 63 (drop (prefix_len serv name) name))"

fun at_room :: "nat \<Rightarrow> string \<Rightarrow> (room \<Rightarrow> room) \<Rightarrow> (nat \<times> room) list \<Rightarrow> (nat \<times> room) list" where
  "at_room sid chan g [] = []"
| "at_room sid chan g ((i, r) # rs) =
     (if i = sid \<and> rm_type r = SESS_CHANNEL \<and> rfc_casecmp chan (rm_name r) = 0 then (i, g r) # rs
      else (i, r) # at_room sid chan g rs)"

definition rename_room :: "string \<Rightarrow> string \<Rightarrow> room \<Rightarrow> room" where
  "rename_room nick newnick r =
     r\<lparr>rm_members := (if rfc_strlower nick \<in> rm_members r
                       then insert (rfc_strlower (take 63 newnick)) (rm_members r - {rfc_strlower nick}) else rm_members r),
       rm_name := (if rm_type r = SESS_DIALOG \<and> rfc_casecmp (rm_name r) nick = 0 then take 299 newnick else rm_name r)\<rparr>"

definition names_room :: "server \<Rightarrow> string \<Rightarrow> room \<Rightarrow> room" where
  "names_room serv names r =
     r\<lparr>rm_members := (if rm_done r then {} else rm_members r) \<union>
         (\<lambda>item. nick_key serv (fst (the (name_item serv item)))) ` (set (g_strsplit names (CHR '' '')) - {[]}),
       rm_done := False\<rparr>"

definition room_spec :: "nserver \<Rightarrow> member_msg \<Rightarrow> (nat \<times> room) list \<Rightarrow> (nat \<times> room) list" where
  "room_spec serv m =
     (let at = at_room (ns_id serv); every = every_own (ns_id serv);
          leave = (\<lambda>nick r. r\<lparr>rm_members := rm_members r - {rfc_strlower nick}\<rparr>);
          gone = (\<lambda>r. r\<lparr>rm_name := [], rm_members := {}\<rparr>)
      in case m of
           Msg_Join chan user _ _ _ \<Rightarrow> at chan (\<lambda>r. r\<lparr>rm_members := insert (nick_key (ns_server serv) user) (rm_members r)\<rparr>)
         | Msg_Part chan user _ _ \<Rightarrow> at chan (leave user)
         | Msg_Kick chan user _ _ \<Rightarrow> at chan (leave user)
         | Msg_Quit nick _ _ \<Rightarrow> every (leave nick)
         | Msg_Nick nick newnick _ \<Rightarrow> every (rename_room nick newnick)
         | Msg_Names chan names \<Rightarrow> at chan (names_room (ns_server serv) names)
         | Msg_Names_End chan \<Rightarrow>
             if chan = ''*'' then every (\<lambda>r. r\<lparr>rm_done := True\<rparr>) else at chan (\<lambda>r. r\<lparr>rm_done := True\<rparr>)
         | Msg_UPart chan _ _ \<Rightarrow> at chan gone
         | Msg_UKick chan _ _ \<Rightarrow> at chan gone
         | _ \<Rightarrow> id)"

text \<open>The invariant of the client, and the messages it is claimed for: ASCII nicks, prefixes that are not repeated, and no
  change to a nick that is taken.\<close>

definition client_inv :: "client \<Rightarrow> bool" where
  "client_inv cl \<longleftrightarrow>
     nick_server (ns_server (cl_serv cl)) \<and> own_all (session_inv (ns_server (cl_serv cl))) cl \<and> notify_inv (cl_notify cl)"

definition name_ok :: "server \<Rightarrow> string \<Rightarrow> bool" where
  "name_ok serv name \<longleftrightarrow> plain_nick name \<and> distinct (take (prefix_len serv name) name)"

definition item_ok :: "server \<Rightarrow> string \<Rightarrow> bool" where
  "item_ok serv item \<longleftrightarrow> (case name_item serv item of None \<Rightarrow> False | Some (name, host) \<Rightarrow> name_ok serv name)"

definition msg_ok :: "inb_env \<Rightarrow> client \<Rightarrow> member_msg \<Rightarrow> bool" where
  "msg_ok env cl m \<longleftrightarrow>
     ascii_skip (ib_skip env) \<and> ib_server env < length (sess_list cl) \<and>
     (case m of
        Msg_Join chan user ip account realname \<Rightarrow> name_ok (ns_server (cl_serv cl)) user
      | Msg_Part chan user ip reason \<Rightarrow> plain_nick user
      | Msg_Kick chan user kicker reason \<Rightarrow> plain_nick user
      | Msg_Quit nick ip reason \<Rightarrow> plain_nick nick
      | Msg_Nick nick newnick quiet \<Rightarrow> plain_nick nick \<and> plain_nick newnick \<and>
          own_all (\<lambda>s. rfc_strlower (take 63 newnick) \<in> roster s \<longrightarrow> rfc_strlower (take 63 newnick) = rfc_strlower nick) cl
      | Msg_Names chan names \<Rightarrow> (\<forall>item \<in> set (g_strsplit names (CHR '' '')) - {[]}. item_ok (ns_server (cl_serv cl)) item)
      | Msg_UKick chan kicker reason \<Rightarrow> plain_nick chan
      | Msg_Account nick account \<Rightarrow> plain_nick nick
      | Msg_Away nick reason \<Rightarrow> plain_nick nick
      | Msg_Info sess chan user host servname nick realname account away \<Rightarrow> sess < length (sess_list cl) \<and> plain_nick nick
      | _ \<Rightarrow> True)"

section \<open>The handlers on rooms\<close>

lemma room_of_emit [simp]: "room_of (emit e s) = room_of s"
  by (simp add: room_of_def)

lemma first_sess_Some:
  "first_sess P serv ss = Some i \<Longrightarrow> i < length ss \<and> fst (ss ! i) = ns_id serv \<and> P (snd (ss ! i))"
proof (induction ss arbitrary: i)
  case (Cons x ss)
  then show ?case by (cases x) (auto split: if_splits)
qed simp

lemma serv_channel_room:
  assumes "p_cmp (ns_server serv) = rfc_casecmp"
  shows "at_room (ns_id serv) chan g (views room_of ss) =
     (case serv_channel serv ss chan of
        None \<Rightarrow> views room_of ss
      | Some i \<Rightarrow> (views room_of ss)[i := apsnd g (views room_of ss ! i)])"
proof (induction ss)
  case (Cons x ss)
  obtain sid s where x: "x = (sid, s)" by (cases x)
  show ?case
    using Cons assms by (auto simp: x serv_channel_def views_def room_of_def split: option.splits)
qed (simp add: serv_channel_def views_def)

lemma set_topic_room [simp]: "room_of (set_topic raw t s) = room_of s"
  by (simp add: set_topic_def Let_def room_of_def roster_def)

lemma session_inv_other:
  "session_inv serv (s\<lparr>channel := c\<rparr>) = session_inv serv s" "session_inv serv (s\<lparr>end_of_names := e\<rparr>) = session_inv serv s"
  "session_inv serv (s\<lparr>sess_topic := t\<rparr>) = session_inv serv s" "session_inv serv (s\<lparr>waitchannel := w\<rparr>) = session_inv serv s"
  "session_inv serv (s\<lparr>ignore_names := i\<rparr>) = session_inv serv s" "session_inv serv (s\<lparr>mode_timer := b\<rparr>) = session_inv serv s"
  "session_inv serv (s\<lparr>doing_who := d\<rparr>) = session_inv serv s" "session_inv serv (s\<lparr>done_away_check := dd\<rparr>) = session_inv serv s"
  "session_inv serv (s\<lparr>log_open := l\<rparr>) = session_inv serv s" "session_inv serv (s\<lparr>ignore_date := i\<rparr>) = session_inv serv s"
  "session_inv serv (s\<lparr>ignore_mode := i\<rparr>) = session_inv serv s"
  by (simp_all add: session_inv_def modes_inv_def userlist_inv_def tree_inv_def count_inv_def flag_inv_def)

lemma set_topic_inv [simp]: "session_inv serv (set_topic raw t s) = session_inv serv s"
  by (simp add: set_topic_def Let_def session_inv_other)

lemma clear_channel_session:
  assumes "session_inv serv s"
  shows "\<exists>s'. clear_channel s = Some s' \<and> session_inv serv s' \<and> room_of s' = (room_of s)\<lparr>rm_name := [], rm_members := {}\<rparr>"
proof -
  define s4 where "s4 = (let s1 = s\<lparr>waitchannel := (if channel s \<noteq> [] then channel s else waitchannel s), channel := [], doing_who := False,
                  done_away_check := False, log_open := False\<rparr>;
       s2 = (emit (Call ''log_close'') s1)\<lparr>current_modes := []\<rparr>;
       s3 = (if mode_timer s2 then (emit (Call ''fe_timeout_remove'') s2)\<lparr>mode_timer := False\<rparr> else s2)
     in emit (Call ''fe_clear_channel'') (emit (Call ''clear_typing_state'') (emit (Call ''chathistory_cancel_catchup'') s3)))"
  have "modes_inv serv (s'\<lparr>current_modes := []\<rparr>)" for s' :: session
    by (auto simp: modes_inv_def show_modes_def modes_ok_def intro!: exI [of _ "[]"])
  then have "session_inv serv s4"
    using assms by (simp add: s4_def Let_def session_inv_other session_inv_modes)
  then obtain s5 where s5: "userlist_clear s4 = Some s5" "session_inv serv s5" "frame_of s5 = frame_of s4" "roster s5 = {}"
    using clear_session by blast
  have "frame_of s4 = (sess_type s, [], end_of_names s, [])" by (simp add: s4_def Let_def frame_of_def)
  moreover have "clear_channel s = Some (emit Fe_Set_Title (emit (Call ''fe_set_nonchannel'') s5))"
    using s5(1) by (simp add: clear_channel_def s4_def Let_def)
  ultimately show ?thesis using s5 by (auto simp: room_of_def frame_of_def)
qed

lemma chan_copy:
  assumes "ascii_skip skip" "plain_nick s"
  shows "safe_strcpy skip s CHANLEN = Some (take 299 s)"
  using safe_strcpy_short_skip [of skip s CHANLEN] assms by (simp add: ascii_skip_def plain_nick_def CHANLEN_def)

lemma add_names_session:
  assumes "session_inv serv s" "nick_server serv" "ascii_skip skip" "\<forall>item \<in> set items - {[]}. item_ok serv item"
  shows "\<exists>s'. add_names skip serv items s = Some s' \<and> session_inv serv s' \<and> frame_of s' = frame_of s \<and>
     roster s' = roster s \<union> (\<lambda>item. nick_key serv (fst (the (name_item serv item)))) ` (set items - {[]})"
  using assms(1,4)
proof (induction items arbitrary: s)
  case (Cons item items)
  show ?case
  proof (cases "item = []")
    case True
    then show ?thesis using Cons by auto
  next
    case False
    then obtain name host where n: "name_item serv item = Some (name, host)" "name_ok serv name"
      using Cons.prems(2) by (auto simp: item_ok_def split: option.splits)
    obtain s1 where s1: "userlist_add skip serv s name host None None = Some s1" "session_inv serv s1" "frame_of s1 = frame_of s"
      "roster s1 = insert (nick_key serv name) (roster s)"
      using add_session [OF Cons.prems(1) assms(2,3), of name host None None] n(2) by (auto simp: name_ok_def nick_key_def)
    obtain s2 where "add_names skip serv items s1 = Some s2" "session_inv serv s2" "frame_of s2 = frame_of s1"
      "roster s2 = roster s1 \<union> (\<lambda>item. nick_key serv (fst (the (name_item serv item)))) ` (set items - {[]})"
      using Cons.IH [OF s1(2)] Cons.prems(2) by auto
    then show ?thesis using False n(1) s1 by (auto simp: insert_Diff_if)
  qed
qed simp

lemma names_session:
  assumes "session_inv serv s" "nick_server serv" "ascii_skip skip" "\<forall>item \<in> set (g_strsplit names (CHR '' '')) - {[]}. item_ok serv item"
  shows "\<exists>s'. names_sess skip serv ev names s = Some s' \<and> session_inv serv s' \<and> room_of s' = names_room serv names (room_of s)"
proof -
  define s1 where "s1 = (if ignore_names s then s else emit ev s)"
  have s1: "session_inv serv s1" "frame_of s1 = frame_of s" "roster s1 = roster s" "end_of_names s1 = end_of_names s"
    using assms(1) by (auto simp: s1_def)
  obtain s2 where s2: "(if end_of_names s1 then userlist_clear (s1\<lparr>end_of_names := False\<rparr>) else Some s1) = Some s2"
    "session_inv serv s2" "sess_type s2 = sess_type s" "channel s2 = channel s" "\<not> end_of_names s2"
    "roster s2 = (if end_of_names s then {} else roster s)"
  proof (cases "end_of_names s1")
    case True
    have "session_inv serv (s1\<lparr>end_of_names := False\<rparr>)" using s1 by (simp add: session_inv_other)
    from clear_session [OF this] True s1 that show ?thesis by (auto simp: frame_of_def)
  next
    case False
    then show ?thesis using that [of s1] s1 by (auto simp: frame_of_def)
  qed
  obtain s3 where "add_names skip serv (g_strsplit names (CHR '' '')) s2 = Some s3" "session_inv serv s3" "frame_of s3 = frame_of s2"
    "roster s3 = roster s2 \<union> (\<lambda>item. nick_key serv (fst (the (name_item serv item)))) ` (set (g_strsplit names (CHR '' '')) - {[]})"
    using add_names_session [OF s2(2) assms(2-4)] by blast
  then show ?thesis using s2 by (auto simp: names_sess_def Let_def s1_def [symmetric] room_of_def frame_of_def names_room_def)
qed

lemma quit_session:
  assumes "session_inv serv s" "nick_server serv" "plain_nick nick"
  shows "\<exists>a' s'. quit_sess serv nick ip reason i s a = Some (a', s') \<and> session_inv serv s' \<and>
     room_of s' = (room_of s)\<lparr>rm_members := rm_members (room_of s) - {rfc_strlower nick}\<rparr>"
proof -
  let ?ev = "Emit ''XP_TE_QUIT'' [Some nick, Some reason, Some ip]"
  have inv: "session_inv serv (emit ?ev s)" using assms(1) by simp
  have e: "userlist_find serv (emit ?ev s) nick = userlist_find serv s nick" by (simp add: userlist_find_def split: option.split)
  show ?thesis
  proof (cases rule: find_session [OF assms, case_names hit miss])
    case (hit a u)
    from remove_user_session [OF inv assms(2,3)] e hit obtain s' where "userlist_remove_user serv (emit ?ev s) a = Some s'"
      "session_inv serv s'" "frame_of s' = frame_of s" "roster s' = roster s - {rfc_strlower nick}" by auto
    then show ?thesis using hit by (auto simp: quit_sess_def Let_def room_of_def frame_of_def)
  next
    case miss
    then show ?thesis using assms(1) by (auto simp: quit_sess_def Let_def room_of_def)
  qed
qed

lemma newnick_session:
  assumes "session_inv serv s" "nick_server serv" "ascii_skip skip" "plain_nick nick" "plain_nick newnick"
    and "rfc_strlower (take 63 newnick) \<in> roster s \<longrightarrow> rfc_strlower (take 63 newnick) = rfc_strlower nick"
  shows "\<exists>u' s'. newnick_sess skip serv me quiet nick newnick i s u = Some (u', s') \<and> session_inv serv s' \<and>
     room_of s' = rename_room nick newnick (room_of s)"
proof -
  obtain b s1 where s1: "userlist_change skip serv s nick newnick = Some (b, s1)" "session_inv serv s1" "frame_of s1 = frame_of s"
    "roster s1 = (if rfc_strlower nick \<in> roster s then insert (rfc_strlower (take 63 newnick)) (roster s - {rfc_strlower nick}) else roster s)"
    using change_session [OF assms] by blast
  have cmp: "p_cmp serv = rfc_casecmp" using assms(2) by (simp add: nick_server_def)
  show ?thesis
    using s1 cmp chan_copy [OF assms(3,5)]
    by (auto simp: newnick_sess_def Let_def room_of_def frame_of_def rename_room_def session_inv_other roster_def)
qed

text \<open>The operations of the handlers as instances of the two contracts.\<close>

interpretation join: session_op "\<lambda>s. nick_server serv \<and> ascii_skip skip \<and> name_ok serv user \<and> session_inv serv s" "session_inv serv"
    room_of "\<lambda>r. r\<lparr>rm_members := insert (nick_key serv user) (rm_members r)\<rparr>"
    "\<lambda>s. userlist_add skip serv (emit ev s) user ip account realname"
  for serv skip user ev ip account realname
proof
  fix s assume a: "nick_server serv \<and> ascii_skip skip \<and> name_ok serv user \<and> session_inv serv s"
  then obtain s' where "userlist_add skip serv (emit ev s) user ip account realname = Some s'" "session_inv serv s'"
    "frame_of s' = frame_of s" "roster s' = insert (nick_key serv user) (roster s)"
    using add_session [of serv "emit ev s" skip user ip account realname] by (auto simp: name_ok_def nick_key_def)
  then show "\<exists>s'. userlist_add skip serv (emit ev s) user ip account realname = Some s' \<and> session_inv serv s' \<and>
      room_of s' = (room_of s)\<lparr>rm_members := insert (nick_key serv user) (rm_members (room_of s))\<rparr>"
    by (auto simp: room_of_def frame_of_def)
qed

interpretation leave: session_op "\<lambda>s. nick_server serv \<and> plain_nick nick \<and> session_inv serv s" "session_inv serv"
    room_of "\<lambda>r. r\<lparr>rm_members := rm_members r - {rfc_strlower nick}\<rparr>"
    "\<lambda>s. map_option snd (userlist_remove serv (emit ev s) nick)"
  for serv nick ev
proof
  fix s assume a: "nick_server serv \<and> plain_nick nick \<and> session_inv serv s"
  then show "\<exists>s'. map_option snd (userlist_remove serv (emit ev s) nick) = Some s' \<and> session_inv serv s' \<and>
      room_of s' = (room_of s)\<lparr>rm_members := rm_members (room_of s) - {rfc_strlower nick}\<rparr>"
    using remove_session [of serv "emit ev s" nick] by (auto simp: room_of_def frame_of_def)
qed

interpretation quit: session_loop "\<lambda>s. nick_server serv \<and> plain_nick nick \<and> session_inv serv s" "session_inv serv"
    room_of "\<lambda>r. r\<lparr>rm_members := rm_members r - {rfc_strlower nick}\<rparr>" "quit_sess serv nick ip reason"
  for serv nick ip reason
  using quit_session by unfold_locales blast

interpretation newnick: session_loop
    "\<lambda>s. nick_server serv \<and> ascii_skip skip \<and> plain_nick nick \<and> plain_nick new \<and> session_inv serv s \<and>
       (rfc_strlower (take 63 new) \<in> roster s \<longrightarrow> rfc_strlower (take 63 new) = rfc_strlower nick)"
    "session_inv serv" room_of "rename_room nick new" "newnick_sess skip serv me quiet nick new"
  for serv skip nick new me quiet
  using newnick_session by unfold_locales blast

interpretation gone: session_op "session_inv serv" "session_inv serv" room_of "\<lambda>r. r\<lparr>rm_name := [], rm_members := {}\<rparr>"
    "\<lambda>s. clear_channel (emit ev s)"
  for serv ev
proof
  fix s assume "session_inv serv s"
  then show "\<exists>s'. clear_channel (emit ev s) = Some s' \<and> session_inv serv s' \<and> room_of s' = (room_of s)\<lparr>rm_name := [], rm_members := {}\<rparr>"
    using clear_channel_session [of serv "emit ev s"] by simp
qed

interpretation kicked: session_op "\<lambda>s. ascii_skip (ib_skip env) \<and> plain_nick chan \<and> session_inv serv s" "session_inv serv" room_of
    "\<lambda>r. r\<lparr>rm_name := [], rm_members := {}\<rparr>" "ukick_sess env chan ev"
  for serv env chan ev
proof
  fix s assume a: "ascii_skip (ib_skip env) \<and> plain_nick chan \<and> session_inv serv s"
  then obtain s1 where "clear_channel (emit ev s) = Some s1" "session_inv serv s1"
    "room_of s1 = (room_of s)\<lparr>rm_name := [], rm_members := {}\<rparr>"
    using clear_channel_session [of serv "emit ev s"] by auto
  then show "\<exists>s'. ukick_sess env chan ev s = Some s' \<and> session_inv serv s' \<and>
      room_of s' = (room_of s)\<lparr>rm_name := [], rm_members := {}\<rparr>"
    using a chan_copy [of "ib_skip env" chan] by (auto simp: ukick_sess_def session_inv_other room_of_def roster_def)
qed

interpretation names: session_op
    "\<lambda>s. nick_server serv \<and> ascii_skip skip \<and> (\<forall>item \<in> set (g_strsplit names (CHR '' '')) - {[]}. item_ok serv item) \<and> session_inv serv s"
    "session_inv serv" room_of "names_room serv names" "names_sess skip serv ev names"
  for serv skip names ev
  using names_session by unfold_locales blast

interpretation names_end: session_op "session_inv serv" "session_inv serv" room_of "\<lambda>r. r\<lparr>rm_done := True\<rparr>" "\<lambda>s. Some (names_end s)"
  for serv
  by unfold_locales (simp add: names_end_def session_inv_other room_of_def roster_def)

text \<open>The handlers that leave the rooms alone.\<close>

interpretation shown: session_op "session_inv serv" "session_inv serv" room_of id "\<lambda>s. Some (emit ev s)" for serv ev
  by unfold_locales simp

interpretation account: session_op "\<lambda>s. nick_server serv \<and> plain_nick nick \<and> session_inv serv s" "session_inv serv" room_of id
    "\<lambda>s. userlist_set_account serv s nick ac"
  for serv nick ac
  using account_session by unfold_locales (fastforce simp: room_of_def frame_of_def)

interpretation info: session_op "\<lambda>s. nick_server serv \<and> plain_nick nick \<and> session_inv serv s" "session_inv serv" room_of id
    "\<lambda>s. map_option snd (userlist_add_hostname sh serv s nick h r sv ac aw)"
  for serv nick sh h r sv ac aw
  using hostname_session [of serv _ nick sh h r sv ac aw] by unfold_locales (fastforce simp: room_of_def frame_of_def)

lemma account_of_total:
  assumes "session_inv serv s" "nick_server serv" "plain_nick nick"
  shows "\<exists>a. account_of serv s nick = Some a"
  by (cases rule: find_session [OF assms, case_names hit miss]) (auto simp: account_of_def)

interpretation old_account: session_loop "\<lambda>s. nick_server serv \<and> plain_nick nick \<and> session_inv serv s" "session_inv serv" room_of id
    "find_account serv nick"
  for serv nick
  using account_of_total by unfold_locales (fastforce simp: find_account_def)

interpretation away: session_loop "\<lambda>s. nick_server (ns_server serv) \<and> plain_nick nick \<and> session_inv (ns_server serv) s"
    "session_inv (ns_server serv)" room_of id "away_notify_sess env serv st nick reason"
  for env serv st nick reason
proof
  fix s i a assume p: "nick_server (ns_server serv) \<and> plain_nick nick \<and> session_inv (ns_server serv) s"
  let ?aw = "if reason \<noteq> None then 1 else 0 :: nat"
  obtain s1 where s1: "userlist_set_away (ns_server serv) s nick ?aw = Some s1" "session_inv (ns_server serv) s1"
    "frame_of s1 = frame_of s" "roster s1 = roster s"
    using away_session [of "ns_server serv" s nick ?aw] p by blast
  obtain b where "account_of (ns_server serv) s1 nick = Some b" using account_of_total [OF s1(2)] p by blast
  then show "\<exists>a' s'. away_notify_sess env serv st nick reason i s a = Some (a', s') \<and> session_inv (ns_server serv) s' \<and>
      room_of s' = id (room_of s)"
    using s1 by (simp add: away_notify_sess_def) (auto simp: room_of_def frame_of_def)
qed

interpretation infos: session_loop "\<lambda>s. nick_server serv \<and> plain_nick nick \<and> session_inv serv s" "session_inv serv" room_of id
    "user_info_sess sh serv nick h r sv ac aw"
  for serv nick sh h r sv ac aw
proof
  fix s i a assume p: "nick_server serv \<and> plain_nick nick \<and> session_inv serv s"
  then obtain b s1 where "userlist_add_hostname sh serv s nick h r sv ac aw = Some (b, s1)" "session_inv serv s1"
    "room_of s1 = room_of s"
    using hostname_session [of serv s nick sh h r sv ac aw] by (auto simp: room_of_def frame_of_def)
  then show "\<exists>a' s'. user_info_sess sh serv nick h r sv ac aw i s a = Some (a', s') \<and> session_inv serv s' \<and> room_of s' = id (room_of s)"
    using p by (auto simp: user_info_sess_def)
qed

lemma strip_all_total: "\<exists>t. strip_color markup src None STRIP_ALL = Some t"
  using strip_loop_total [of "length src" src STRIP_ALL 0 False] by (auto simp: strip_color_def strip_color2_def)

interpretation topic: session_op "session_inv serv" "session_inv serv" room_of id
    "\<lambda>s. do { t \<leftarrow> strip_color markup tpc None STRIP_ALL; Some (emit ev (set_topic tpc t s)) }"
  for serv markup tpc ev
  using strip_all_total [of markup tpc] by unfold_locales auto

interpretation new_topic: session_op "session_inv serv" "session_inv serv" room_of id
    "\<lambda>s. do { t \<leftarrow> strip_color markup tpc None STRIP_ALL; Some (set_topic tpc t (emit ev s)) }"
  for serv markup tpc ev
  using strip_all_total [of markup tpc] by unfold_locales auto

section \<open>The client\<close>

lemma client_invD:
  assumes "client_inv cl"
  shows "nick_server (ns_server (cl_serv cl))" "own_all (session_inv (ns_server (cl_serv cl))) cl" "notify_inv (cl_notify cl)"
    "p_cmp (ns_server (cl_serv cl)) = rfc_casecmp"
  using assms by (simp_all add: client_inv_def nick_server_def)

lemma at_channel:
  assumes inv: "client_inv cl" and "session_op pre (session_inv (ns_server (cl_serv cl))) room_of g h"
    and pre: "\<And>s. session_inv (ns_server (cl_serv cl)) s \<Longrightarrow> pre s"
    and i: "serv_channel (cl_serv cl) (sess_list cl) chan = Some i"
  shows "\<exists>ss'. upd_sess i h cl = Some (cl\<lparr>sess_list := ss'\<rparr>) \<and> client_inv (cl\<lparr>sess_list := ss'\<rparr>) \<and>
     views room_of ss' = at_room (ns_id (cl_serv cl)) chan g (rooms cl)"
proof -
  note c = client_invD [OF inv]
  have "i < length (sess_list cl)" "fst (sess_list cl ! i) = ns_id (cl_serv cl)"
    using first_sess_Some i by (auto simp: serv_channel_def)
  moreover from this have "pre (snd (sess_list cl ! i))" using c(2) pre by (simp add: own_all_def)
  ultimately show ?thesis
    using session_op.one_session [OF assms(2) _ _ c(2)] serv_channel_room [OF c(4), of chan g "sess_list cl"] i c
    by (fastforce simp: client_inv_def)
qed

lemma no_channel:
  assumes "client_inv cl" "serv_channel (cl_serv cl) (sess_list cl) chan = None"
  shows "at_room (ns_id (cl_serv cl)) chan g (rooms cl) = rooms cl"
  using serv_channel_room [OF client_invD(4) [OF assms(1)]] assms(2) by simp

lemma at_position:
  assumes "client_inv cl" "i < length (sess_list cl)"
  shows "\<exists>ss'. upd_sess i (\<lambda>s. Some (emit ev s)) cl = Some (cl\<lparr>sess_list := ss'\<rparr>) \<and> client_inv (cl\<lparr>sess_list := ss'\<rparr>) \<and>
     views room_of ss' = rooms cl"
proof -
  note c = client_invD [OF assms(1)]
  let ?x = "sess_list cl ! i"
  let ?ss = "(sess_list cl)[i := (fst ?x, emit ev (snd ?x))]"
  have "views room_of ?ss = rooms cl"
    using assms(2) by (auto simp: views_def map_update apsnd_def map_prod_def case_prod_beta intro!: list_update_same_conv [THEN iffD2])
  moreover have "own_all (session_inv (ns_server (cl_serv cl))) (cl\<lparr>sess_list := ?ss\<rparr>)"
    using c(2) assms(2) by (auto simp: own_all_def dest!: set_update_subset_insert [THEN subsetD])
  ultimately show ?thesis using assms(2) c by (auto simp: upd_sess_def client_inv_def)
qed

lemma client_inv_notify: "client_inv cl \<Longrightarrow> notify_inv st \<Longrightarrow> client_inv (cl\<lparr>cl_notify := st\<rparr>)"
  by (simp add: client_inv_def own_all_def)

lemma client_inv_on_notify:
  assumes "client_inv cl" "\<And>st. notify_inv st \<Longrightarrow> notify_inv (f st)"
  shows "client_inv (on_notify f cl)"
  using client_inv_notify [OF assms(1) assms(2) [OF client_invD(3) [OF assms(1)]]] by (simp add: on_notify_def)

lemma notify_calls_inv:
  "notify_inv st \<Longrightarrow> notify_inv (notify_account_observed env serv nick account st)"
  "notify_inv st \<Longrightarrow> notify_inv (notify_set_offline env serv n quiet st)"
  "notify_inv st \<Longrightarrow> notify_inv (fold (notify_set_online env serv) ns st)"
proof -
  show "notify_inv st \<Longrightarrow> notify_inv (notify_account_observed env serv nick account st)"
    by (rule n_step_inv [OF n_observed])
  show "notify_inv st \<Longrightarrow> notify_inv (notify_set_offline env serv n quiet st)"
    by (rule n_step_inv [OF n_set_offline])
  show "notify_inv st \<Longrightarrow> notify_inv (fold (notify_set_online env serv) ns st)"
    by (rule fold_inv) (rule n_step_inv [OF n_set_online])
qed

lemma account_probe_own: "account_probe serv ss p = account_probe serv (filter (\<lambda>x. fst x = ns_id serv) ss) p"
proof (induction ss arbitrary: p)
  case (Cons x ss)
  have n: "account_probe serv ss None = Some None" for ss by (cases ss) auto
  have "account_probe serv ss = account_probe serv (filter (\<lambda>x. fst x = ns_id serv) ss)" using Cons by blast
  then show ?case by (cases x) (auto simp: n split: option.splits)
qed simp

lemma session_inv_users:
  assumes "session_inv serv s"
  shows "\<exists>xs. sess_users s xs"
proof -
  obtain xs where "tree_inv rfc_casecmp plain_nick s xs" using assms by (auto simp: session_inv_def userlist_inv_def)
  then have "sess_users s xs" by (auto simp: tree_inv_def sess_users_def split: option.splits)
  then show ?thesis ..
qed

lemma account_cleared_total:
  assumes inv: "client_inv cl"
  shows "\<exists>st. account_cleared env acct cl = Some (cl\<lparr>cl_notify := st\<rparr>) \<and> client_inv (cl\<lparr>cl_notify := st\<rparr>)"
proof (cases acct)
  case None
  then show ?thesis using inv by (auto simp: account_cleared_def intro!: exI [of _ "cl_notify cl"])
next
  case (Some a)
  note c = client_invD [OF inv]
  define ss where "ss = filter (\<lambda>x. fst x = ns_id (cl_serv cl)) (sess_list cl)"
  have "\<forall>x \<in> set ss. \<exists>xs. sess_users (snd x) xs"
    using c(2) session_inv_users by (auto simp: ss_def own_all_def)
  then obtain F where F: "\<forall>x \<in> set ss. sess_users (snd x) (F x)" by metis
  then have "list_all2 (\<lambda>(sid, s) xs. sess_users s xs) ss (map F ss)" by (auto simp: list_all2_conv_all_nth case_prod_beta)
  from account_probe_result [OF this] have "\<exists>r. account_probe (cl_serv cl) (sess_list cl) (Some a) = Some r"
    using account_probe_own [of "cl_serv cl" "sess_list cl"] by (auto simp: ss_def)
  then have "notify_account_cleared (ib_nenv env) (cl_serv cl) (sess_list cl) (Some a) (cl_notify cl) \<noteq> None"
    by (auto simp: notify_account_cleared_def notify_account_still_present_def Let_def)
  then obtain st where st: "notify_account_cleared (ib_nenv env) (cl_serv cl) (sess_list cl) (Some a) (cl_notify cl) = Some st"
    by blast
  have "notify_inv st" using n_step_inv [OF n_cleared [OF st] c(3)] .
  then show ?thesis using Some st client_inv_notify [OF inv] by (auto simp: account_cleared_def)
qed

lemma session_inv_my_nick [simp]: "session_inv (serv\<lparr>my_nick := n\<rparr>) s = session_inv serv s"
proof -
  have h: "mode_has_arg (serv\<lparr>my_nick := n\<rparr>) = mode_has_arg serv"
    by (intro ext) (simp add: mode_has_arg_def mode_chanmode_type_def)
  have "shown_args (serv\<lparr>my_nick := n\<rparr>) ms = shown_args serv ms" for ms
    by (simp add: shown_args_def h)
  then show ?thesis
    by (simp add: session_inv_def userlist_inv_def flag_inv_def has_prefix_def modes_inv_def show_modes_def modes_ok_def h)
qed

text \<open>A handler is correct when it is defined, keeps the invariant and acts on the rooms as specified; besides that it may change
  the nick of the user.\<close>

definition handled :: "client \<Rightarrow> member_msg \<Rightarrow> client option \<Rightarrow> bool" where
  "handled cl m r \<longleftrightarrow>
     (\<exists>cl'. r = Some cl' \<and> client_inv cl' \<and> rooms cl' = room_spec (cl_serv cl) m (rooms cl) \<and>
        (\<exists>n. cl_serv cl' = (cl_serv cl)\<lparr>ns_server := (ns_server (cl_serv cl))\<lparr>my_nick := n\<rparr>\<rparr>))"

lemma same_serv: "\<exists>n. serv = serv\<lparr>ns_server := (ns_server serv)\<lparr>my_nick := n\<rparr>\<rparr>"
  by (intro exI [of _ "my_nick (ns_server serv)"]) simp

lemma on_notify_sel [simp]:
  "sess_list (on_notify f cl) = sess_list cl" "cl_serv (on_notify f cl) = cl_serv cl"
  by (simp_all add: on_notify_def)

lemma join_handled:
  assumes inv: "client_inv cl" and ok: "msg_ok env cl (Msg_Join chan user ip ac rn)"
  shows "handled cl (Msg_Join chan user ip ac rn) (inbound_join env chan user ip ac rn cl)"
proof (cases "serv_channel (cl_serv cl) (sess_list cl) chan")
  case None
  then show ?thesis using inv no_channel [OF inv None] same_serv by (simp add: inbound_join_def handled_def room_spec_def Let_def)
next
  case (Some i)
  note c = client_invD [OF inv]
  obtain ss' where ss': "upd_sess i (\<lambda>s. userlist_add (ib_skip env) (ns_server (cl_serv cl))
      (emit (Emit ''XP_TE_JOIN'' [Some user, Some chan, ip, ac]) s) user ip ac rn) cl = Some (cl\<lparr>sess_list := ss'\<rparr>)"
    "client_inv (cl\<lparr>sess_list := ss'\<rparr>)"
    "views room_of ss' = at_room (ns_id (cl_serv cl)) chan
       (\<lambda>r. r\<lparr>rm_members := insert (nick_key (ns_server (cl_serv cl)) user) (rm_members r)\<rparr>) (rooms cl)"
    using at_channel [OF inv join.session_op_axioms _ Some] c(1) ok unfolding msg_ok_def by fastforce
  show ?thesis
    using ss' Some same_serv
    by (auto simp: inbound_join_def handled_def room_spec_def Let_def upd_sess_online_def
        intro!: client_inv_on_notify notify_calls_inv)
qed

lemma leaves_handled:
  assumes inv: "client_inv cl" and p: "plain_nick user"
    and spec: "room_spec (cl_serv cl) m = at_room (ns_id (cl_serv cl)) chan (\<lambda>r. r\<lparr>rm_members := rm_members r - {rfc_strlower user}\<rparr>)"
  shows "handled cl m (member_leaves env chan user ev cl)"
proof (cases "serv_channel (cl_serv cl) (sess_list cl) chan")
  case None
  then show ?thesis using inv no_channel [OF inv None] same_serv by (simp add: member_leaves_def handled_def spec)
next
  case (Some i)
  note c = client_invD [OF inv]
  have "i < length (sess_list cl)" "fst (sess_list cl ! i) = ns_id (cl_serv cl)"
    using first_sess_Some Some by (auto simp: serv_channel_def)
  then have "session_inv (ns_server (cl_serv cl)) (snd (sess_list cl ! i))" using c(2) by (simp add: own_all_def)
  from account_of_total [OF this c(1) p] obtain acct where
    acct: "account_of (ns_server (cl_serv cl)) (snd (sess_list cl ! i)) user = Some acct" by blast
  obtain ss' where ss': "upd_sess i (\<lambda>s. map_option snd (userlist_remove (ns_server (cl_serv cl)) (emit ev s) user)) cl =
      Some (cl\<lparr>sess_list := ss'\<rparr>)" "client_inv (cl\<lparr>sess_list := ss'\<rparr>)"
    "views room_of ss' = at_room (ns_id (cl_serv cl)) chan (\<lambda>r. r\<lparr>rm_members := rm_members r - {rfc_strlower user}\<rparr>) (rooms cl)"
    using at_channel [OF inv leave.session_op_axioms _ Some] c(1) p by blast
  obtain st where "account_cleared env acct (cl\<lparr>sess_list := ss'\<rparr>) = Some (cl\<lparr>sess_list := ss', cl_notify := st\<rparr>)"
    "client_inv (cl\<lparr>sess_list := ss', cl_notify := st\<rparr>)"
    using account_cleared_total [OF ss'(2), of env acct] by auto
  then show ?thesis using Some acct ss' same_serv by (simp add: member_leaves_def handled_def spec)
qed

lemma quit_handled:
  assumes inv: "client_inv cl" and p: "plain_nick nick"
  shows "handled cl (Msg_Quit nick ip reason) (inbound_quit env nick ip reason cl)"
proof -
  note c = client_invD [OF inv]
  let ?S = "ns_server (cl_serv cl)"
  obtain acct ss' where ss': "on_sessions (quit_sess ?S nick ip reason) None cl = Some (acct, cl\<lparr>sess_list := ss'\<rparr>)"
    "own_all (session_inv ?S) (cl\<lparr>sess_list := ss'\<rparr>)"
    "views room_of ss' = every_own (ns_id (cl_serv cl)) (\<lambda>r. r\<lparr>rm_members := rm_members r - {rfc_strlower nick}\<rparr>) (rooms cl)"
    using quit.all_sessions [of ?S nick cl ip reason None] c p by (auto simp: own_all_def)
  then have inv': "client_inv (cl\<lparr>sess_list := ss'\<rparr>)" using c by (simp add: client_inv_def)
  obtain st where "account_cleared env acct (cl\<lparr>sess_list := ss'\<rparr>) = Some (cl\<lparr>sess_list := ss', cl_notify := st\<rparr>)"
    "client_inv (cl\<lparr>sess_list := ss', cl_notify := st\<rparr>)"
    using account_cleared_total [OF inv', of env acct] by auto
  then show ?thesis
    using ss' same_serv
    by (auto simp: inbound_quit_def handled_def room_spec_def Let_def intro!: client_inv_on_notify notify_calls_inv)
qed

lemma nick_handled:
  assumes inv: "client_inv cl" and ok: "msg_ok env cl (Msg_Nick nick newnick quiet)"
  shows "handled cl (Msg_Nick nick newnick quiet) (inbound_newnick env nick newnick quiet cl)"
proof -
  note c = client_invD [OF inv]
  define S where "S = ns_server (cl_serv cl)"
  define me where "me = (rfc_casecmp nick (my_nick S) = 0)"
  define n where "n = (if me then take 63 newnick else my_nick S)"
  define cl1 where "cl1 = cl\<lparr>cl_serv := (cl_serv cl)\<lparr>ns_server := S\<lparr>my_nick := n\<rparr>\<rparr>\<rparr>"
  have p: "ascii_skip (ib_skip env)" "plain_nick nick" "plain_nick newnick"
    "own_all (\<lambda>s. rfc_strlower (take 63 newnick) \<in> roster s \<longrightarrow> rfc_strlower (take 63 newnick) = rfc_strlower nick) cl"
    using ok by (auto simp: msg_ok_def)
  have cmp: "p_cmp S = rfc_casecmp" using c(4) by (simp add: S_def)
  have S': "nick_server (S\<lparr>my_nick := n\<rparr>)" using c(1) by (simp add: S_def nick_server_def prefix_ok_def)
  have "own_all (\<lambda>s. nick_server (S\<lparr>my_nick := n\<rparr>) \<and> ascii_skip (ib_skip env) \<and> plain_nick nick \<and> plain_nick newnick \<and>
      session_inv (S\<lparr>my_nick := n\<rparr>) s \<and>
      (rfc_strlower (take 63 newnick) \<in> roster s \<longrightarrow> rfc_strlower (take 63 newnick) = rfc_strlower nick)) cl1"
    using c(2) p S' by (auto simp: own_all_def cl1_def S_def)
  from newnick.all_sessions [OF this] obtain ss' where
    ss': "on_sessions (newnick_sess (ib_skip env) (S\<lparr>my_nick := n\<rparr>) me quiet nick newnick) () cl1 = Some ((), cl1\<lparr>sess_list := ss'\<rparr>)"
    "own_all (session_inv (S\<lparr>my_nick := n\<rparr>)) (cl1\<lparr>sess_list := ss'\<rparr>)"
    "views room_of ss' = every_own (ns_id (cl_serv cl1)) (rename_room nick newnick) (rooms cl1)"
    by fastforce
  have serv: "(if me then do { n \<leftarrow> safe_strcpy (ib_skip env) newnick NICKLEN; Some (S\<lparr>my_nick := n\<rparr>) } else Some S) =
      Some (S\<lparr>my_nick := n\<rparr>)"
    using nick_copy [OF p(1,3)] by (simp add: n_def)
  let ?r = "(cl1\<lparr>sess_list := ss'\<rparr>)\<lparr>cl_log := cl_log cl @ Call ''dcc_change_nick'' # (if me then [Call ''fe_set_nick''] else [])\<rparr>"
  have "inbound_newnick env nick newnick quiet cl = Some ?r"
    unfolding inbound_newnick_def Let_def S_def [symmetric] cmp me_def [symmetric] serv
    by (simp add: cl1_def [symmetric] ss'(1)) (simp add: cl1_def)
  moreover have "client_inv ?r" using ss'(2) S' c(3) by (simp add: client_inv_def own_all_def cl1_def)
  moreover have "rooms ?r = room_spec (cl_serv cl) (Msg_Nick nick newnick quiet) (rooms cl)"
    using ss'(3) by (simp add: room_spec_def Let_def cl1_def)
  moreover have "\<exists>n. cl_serv ?r = (cl_serv cl)\<lparr>ns_server := (ns_server (cl_serv cl))\<lparr>my_nick := n\<rparr>\<rparr>"
    by (auto simp: cl1_def S_def)
  ultimately show ?thesis unfolding handled_def by blast
qed

lemma channel_op_handled:
  assumes inv: "client_inv cl" and o: "session_op pre (session_inv (ns_server (cl_serv cl))) room_of g h"
    and pre: "\<And>s. session_inv (ns_server (cl_serv cl)) s \<Longrightarrow> pre s"
    and spec: "room_spec (cl_serv cl) m (rooms cl) = at_room (ns_id (cl_serv cl)) chan g (rooms cl)"
    and i: "serv_channel (cl_serv cl) (sess_list cl) chan = Some i"
  shows "handled cl m (upd_sess i h cl)"
  using at_channel [OF inv o pre i] same_serv by (auto simp: handled_def spec)

lemma nothing_handled: "client_inv cl \<Longrightarrow> room_spec (cl_serv cl) m (rooms cl) = rooms cl \<Longrightarrow> handled cl m (Some cl)"
  using same_serv by (simp add: handled_def)

lemma shown_handled:
  "client_inv cl \<Longrightarrow> i < length (sess_list cl) \<Longrightarrow> room_spec (cl_serv cl) m (rooms cl) = rooms cl \<Longrightarrow>
     handled cl m (upd_sess i (\<lambda>s. Some (emit ev s)) cl)"
  using at_position [of cl i ev] same_serv by (auto simp: handled_def)

lemma at_room_id: "at_room sid chan id rs = rs" "every_own sid id rs = rs"
proof -
  show "at_room sid chan id rs = rs" by (induction sid chan "id :: room \<Rightarrow> room" rs rule: at_room.induct) auto
  show "every_own sid id rs = rs" by (auto simp: every_own_def intro: map_idI)
qed

lemma names_handled:
  assumes inv: "client_inv cl" and ok: "msg_ok env cl (Msg_Names chan names)"
  shows "handled cl (Msg_Names chan names) (inbound_nameslist env chan names cl)"
proof (cases "serv_channel (cl_serv cl) (sess_list cl) chan")
  case None
  then show ?thesis
    using shown_handled [OF inv, of "ib_server env"] no_channel [OF inv None] ok
    by (simp add: inbound_nameslist_def room_spec_def Let_def msg_ok_def)
next
  case (Some i)
  note c = client_invD [OF inv]
  let ?ev = "Emit ''XP_TE_USERSONCHAN'' [Some chan, Some names]"
  obtain ss' where ss': "upd_sess i (names_sess (ib_skip env) (ns_server (cl_serv cl)) ?ev names) cl = Some (cl\<lparr>sess_list := ss'\<rparr>)"
    "client_inv (cl\<lparr>sess_list := ss'\<rparr>)"
    "views room_of ss' = at_room (ns_id (cl_serv cl)) chan (names_room (ns_server (cl_serv cl)) names) (rooms cl)"
    using at_channel [OF inv names.session_op_axioms _ Some] c(1) ok unfolding msg_ok_def by fastforce
  show ?thesis
    using ss' Some same_serv
    by (auto simp: inbound_nameslist_def handled_def room_spec_def Let_def upd_sess_online_def
        intro!: client_inv_on_notify notify_calls_inv)
qed

lemma names_end_handled:
  assumes inv: "client_inv cl"
  shows "handled cl (Msg_Names_End chan) (map_option snd (inbound_nameslist_end chan cl))"
proof (cases "chan = ''*''")
  case True
  note c = client_invD [OF inv]
  obtain ss' where "on_sessions (\<lambda>i s u. Some (u, names_end s)) () cl = Some ((), cl\<lparr>sess_list := ss'\<rparr>)"
    "own_all (session_inv (ns_server (cl_serv cl))) (cl\<lparr>sess_list := ss'\<rparr>)"
    "views room_of ss' = every_own (ns_id (cl_serv cl)) (\<lambda>r. r\<lparr>rm_done := True\<rparr>) (rooms cl)"
    using names_end.each.all_sessions [OF c(2), of "()"] by auto
  then show ?thesis using True c same_serv
    by (auto simp: inbound_nameslist_end_def handled_def room_spec_def Let_def client_inv_def)
next
  case False
  then have spec: "room_spec (cl_serv cl) (Msg_Names_End chan) (rooms cl) =
      at_room (ns_id (cl_serv cl)) chan (\<lambda>r. r\<lparr>rm_done := True\<rparr>) (rooms cl)"
    by (simp add: room_spec_def Let_def)
  show ?thesis
  proof (cases "serv_channel (cl_serv cl) (sess_list cl) chan")
    case None
    then show ?thesis using False nothing_handled [OF inv] no_channel [OF inv None] spec by (simp add: inbound_nameslist_end_def)
  next
    case (Some i)
    then show ?thesis
      using False channel_op_handled [OF inv names_end.session_op_axioms _ spec Some]
      by (simp add: inbound_nameslist_end_def option.map_comp comp_def option.map_ident)
  qed
qed

lemma upart_handled:
  assumes inv: "client_inv cl"
  shows "handled cl (Msg_UPart chan ip reason) (inbound_upart chan ip reason cl)"
proof -
  have spec: "room_spec (cl_serv cl) (Msg_UPart chan ip reason) (rooms cl) =
      at_room (ns_id (cl_serv cl)) chan (\<lambda>r. r\<lparr>rm_name := [], rm_members := {}\<rparr>) (rooms cl)" by (simp add: room_spec_def Let_def)
  show ?thesis
  proof (cases "serv_channel (cl_serv cl) (sess_list cl) chan")
    case None
    then show ?thesis using nothing_handled [OF inv] no_channel [OF inv None] spec by (simp add: inbound_upart_def)
  next
    case (Some i)
    then show ?thesis using channel_op_handled [OF inv gone.session_op_axioms _ spec Some] by (simp add: inbound_upart_def Let_def)
  qed
qed

lemma ukick_handled:
  assumes inv: "client_inv cl" and ok: "msg_ok env cl (Msg_UKick chan kicker reason)"
  shows "handled cl (Msg_UKick chan kicker reason) (inbound_ukick env chan kicker reason cl)"
proof -
  have spec: "room_spec (cl_serv cl) (Msg_UKick chan kicker reason) (rooms cl) =
      at_room (ns_id (cl_serv cl)) chan (\<lambda>r. r\<lparr>rm_name := [], rm_members := {}\<rparr>) (rooms cl)" by (simp add: room_spec_def Let_def)
  show ?thesis
  proof (cases "serv_channel (cl_serv cl) (sess_list cl) chan")
    case None
    then show ?thesis using nothing_handled [OF inv] no_channel [OF inv None] spec by (simp add: inbound_ukick_def)
  next
    case (Some i)
    then show ?thesis
      using channel_op_handled [OF inv kicked.session_op_axioms _ spec Some] ok by (simp add: inbound_ukick_def msg_ok_def)
  qed
qed

lemma topic_handled:
  assumes inv: "client_inv cl" and ok: "msg_ok env cl (Msg_Topic chan t)"
  shows "handled cl (Msg_Topic chan t) (inbound_topic env chan t cl)"
proof -
  have spec: "room_spec (cl_serv cl) (Msg_Topic chan t) (rooms cl) = at_room (ns_id (cl_serv cl)) chan id (rooms cl)"
    by (simp add: room_spec_def Let_def at_room_id)
  show ?thesis
  proof (cases "serv_channel (cl_serv cl) (sess_list cl) chan")
    case None
    then show ?thesis using shown_handled [OF inv, of "ib_server env"] ok
      by (simp add: inbound_topic_def room_spec_def Let_def msg_ok_def)
  next
    case (Some i)
    then show ?thesis using channel_op_handled [OF inv topic.session_op_axioms _ spec Some] by (simp add: inbound_topic_def Let_def)
  qed
qed

lemma new_topic_handled:
  assumes inv: "client_inv cl"
  shows "handled cl (Msg_New_Topic nick chan t) (inbound_topicnew env nick chan t cl)"
proof -
  have spec: "room_spec (cl_serv cl) (Msg_New_Topic nick chan t) (rooms cl) = at_room (ns_id (cl_serv cl)) chan id (rooms cl)"
    by (simp add: room_spec_def Let_def at_room_id)
  show ?thesis
  proof (cases "serv_channel (cl_serv cl) (sess_list cl) chan")
    case None
    then show ?thesis using nothing_handled [OF inv] by (simp add: inbound_topicnew_def room_spec_def Let_def)
  next
    case (Some i)
    then show ?thesis using channel_op_handled [OF inv new_topic.session_op_axioms _ spec Some] by (simp add: inbound_topicnew_def)
  qed
qed

lemma all_handled:
  assumes inv: "client_inv cl" and l: "session_loop pre (session_inv (ns_server (cl_serv cl))) room_of id f"
    and pre: "\<And>s. session_inv (ns_server (cl_serv cl)) s \<Longrightarrow> pre s"
  shows "\<exists>a' ss'. on_sessions f a cl = Some (a', cl\<lparr>sess_list := ss'\<rparr>) \<and> client_inv (cl\<lparr>sess_list := ss'\<rparr>) \<and>
     views room_of ss' = rooms cl"
proof -
  note c = client_invD [OF inv]
  have "own_all pre cl" using c(2) pre by (simp add: own_all_def)
  from session_loop.all_sessions [OF l this, of a] show ?thesis using c by (fastforce simp: client_inv_def at_room_id)
qed

lemma account_handled:
  assumes inv: "client_inv cl" and p: "plain_nick nick"
  shows "handled cl (Msg_Account nick account) (inbound_account env nick account cl)"
proof -
  note c = client_invD [OF inv]
  let ?S = "ns_server (cl_serv cl)"
  obtain old ss1 where o: "on_sessions (find_account ?S nick) None cl = Some (old, cl\<lparr>sess_list := ss1\<rparr>)"
    "client_inv (cl\<lparr>sess_list := ss1\<rparr>)" "views room_of ss1 = rooms cl"
    using all_handled [OF inv old_account.session_loop_axioms, of nick None] c(1) p by blast
  let ?f = "\<lambda>i s u. map_option (Pair u) (userlist_set_account ?S s nick account)"
  have sl: "session_loop (\<lambda>s. nick_server ?S \<and> plain_nick nick \<and> session_inv ?S s) (session_inv ?S) room_of id ?f"
    by (rule account.each.session_loop_axioms)
  obtain u ss2 where s: "on_sessions ?f () (cl\<lparr>sess_list := ss1\<rparr>) = Some (u, cl\<lparr>sess_list := ss2\<rparr>)"
    "client_inv (cl\<lparr>sess_list := ss2\<rparr>)" "views room_of ss2 = rooms cl"
  proof -
    have "cl_serv (cl\<lparr>sess_list := ss1\<rparr>) = cl_serv cl" by simp
    note all = all_handled [OF o(2), unfolded this, OF sl, of "()"]
    show thesis using all c(1) p o(3) that by auto
  qed
  define cl2 where "cl2 = on_notify (notify_account_observed (ib_nenv env) (cl_serv cl) (Some nick) (Some account)) (cl\<lparr>sess_list := ss2\<rparr>)"
  have inv2: "client_inv cl2" using s(2) by (auto simp: cl2_def intro!: client_inv_on_notify notify_calls_inv)
  have r2: "rooms cl2 = rooms cl" "cl_serv cl2 = cl_serv cl" using s(3) by (simp_all add: cl2_def)
  have e: "inbound_account env nick account cl =
      (if old \<noteq> None \<and> (no_account (Some account) \<or> Some account \<noteq> old) then account_cleared env old cl2 else Some cl2)"
    using o(1) s(1) by (auto simp: inbound_account_def cl2_def Let_def)
  obtain st where "account_cleared env old cl2 = Some (cl2\<lparr>cl_notify := st\<rparr>)" "client_inv (cl2\<lparr>cl_notify := st\<rparr>)"
    using account_cleared_total [OF inv2] by blast
  then show ?thesis using e inv2 r2 same_serv by (auto simp: handled_def room_spec_def Let_def)
qed

lemma away_handled:
  assumes inv: "client_inv cl" and p: "plain_nick nick"
  shows "handled cl (Msg_Away nick reason) (inbound_away_notify env nick reason cl)"
proof -
  note c = client_invD [OF inv]
  obtain u ss' where "on_sessions (away_notify_sess env (cl_serv cl) (cl_notify cl) nick reason) () cl = Some (u, cl\<lparr>sess_list := ss'\<rparr>)"
    "client_inv (cl\<lparr>sess_list := ss'\<rparr>)" "views room_of ss' = rooms cl"
    using all_handled [OF inv away.session_loop_axioms [where env = env and st = "cl_notify cl" and nick = nick and reason = reason]]
      c(1) p by blast
  then show ?thesis using same_serv by (simp add: inbound_away_notify_def handled_def room_spec_def Let_def)
qed

lemma info_handled:
  assumes inv: "client_inv cl" and ok: "msg_ok env cl (Msg_Info sess chan user host sv nick rn ac aw)"
  shows "handled cl (Msg_Info sess chan user host sv nick rn ac aw) (inbound_user_info env sess chan user host sv nick rn ac aw cl)"
proof -
  note c = client_invD [OF inv]
  let ?S = "ns_server (cl_serv cl)"
  define uhost where "uhost = (case (user, host) of (Some u, Some h) \<Rightarrow> Some (u @ ''@'' @ h) | _ \<Rightarrow> None)"
  define r where "r = (case chan of
      Some c \<Rightarrow>
        (case serv_channel (cl_serv cl) (sess_list cl) c of
           Some i \<Rightarrow> upd_sess i (\<lambda>s. map_option snd (userlist_add_hostname (ib_show_hosts env) ?S s nick uhost rn sv ac aw)) cl
         | None \<Rightarrow> if ib_doing_dns env \<and> host \<noteq> None then upd_sess sess (\<lambda>s. Some (emit (Call ''do_dns'') s)) cl else Some cl)
    | None \<Rightarrow> map_option snd (on_sessions (user_info_sess (ib_show_hosts env) ?S nick uhost rn sv ac aw) () cl))"
  have p: "plain_nick nick" "sess < length (sess_list cl)" using ok by (auto simp: msg_ok_def)
  have "\<exists>ss'. r = Some (cl\<lparr>sess_list := ss'\<rparr>) \<and> client_inv (cl\<lparr>sess_list := ss'\<rparr>) \<and> views room_of ss' = rooms cl"
  proof (cases chan)
    case None
    then show ?thesis using all_handled [OF inv infos.session_loop_axioms [where nick = nick and sh = "ib_show_hosts env" and
          h = uhost and r = rn and sv = sv and ac = ac and aw = aw], of "()"] c(1) p
      by (auto simp: r_def)
  next
    case ch: (Some ch)
    show ?thesis
    proof (cases "serv_channel (cl_serv cl) (sess_list cl) ch")
      case None
      then show ?thesis using ch at_position [OF inv p(2), of "Call ''do_dns''"] inv by (auto simp: r_def intro: exI [of _ "sess_list cl"])
    next
      case (Some i)
      then show ?thesis
        using ch at_channel [OF inv info.session_op_axioms [of ?S nick "ib_show_hosts env" uhost rn sv ac aw] _ Some] c(1) p
        by (auto simp: r_def at_room_id)
    qed
  qed
  then obtain ss' where ss': "r = Some (cl\<lparr>sess_list := ss'\<rparr>)" "client_inv (cl\<lparr>sess_list := ss'\<rparr>)" "views room_of ss' = rooms cl" by blast
  have "inbound_user_info env sess chan user host sv nick rn ac aw cl =
      Some (case ac of None \<Rightarrow> cl\<lparr>sess_list := ss'\<rparr>
        | Some a \<Rightarrow> if a \<noteq> [] then on_notify (notify_account_observed (ib_nenv env) (cl_serv cl) (Some nick) ac) (cl\<lparr>sess_list := ss'\<rparr>)
                   else cl\<lparr>sess_list := ss'\<rparr>)"
    using ss'(1) unfolding r_def uhost_def inbound_user_info_def Let_def by simp
  then show ?thesis using ss' same_serv
    by (auto simp: handled_def room_spec_def Let_def split: option.split intro!: client_inv_on_notify notify_calls_inv)
qed

lemma inb_apply_handled:
  assumes "client_inv cl" "msg_ok env cl m"
  shows "handled cl m (inb_apply env m cl)"
proof (cases m)
  case (Msg_Part chan user ip reason)
  then show ?thesis using leaves_handled [OF assms(1)] assms(2)
    by (simp add: inb_apply_def inbound_part_def msg_ok_def room_spec_def Let_def)
next
  case (Msg_Kick chan user kicker reason)
  then show ?thesis using leaves_handled [OF assms(1)] assms(2)
    by (simp add: inb_apply_def inbound_kick_def msg_ok_def room_spec_def Let_def)
qed (use assms join_handled quit_handled nick_handled names_handled names_end_handled upart_handled ukick_handled account_handled
    away_handled topic_handled new_topic_handled info_handled in \<open>auto simp: inb_apply_def msg_ok_def\<close>)

section \<open>Histories of messages\<close>

fun inb_run :: "inb_env \<Rightarrow> member_msg list \<Rightarrow> client \<Rightarrow> client option" where
  "inb_run env [] cl = Some cl"
| "inb_run env (m # ms) cl = do { cl1 \<leftarrow> inb_apply env m cl; inb_run env ms cl1 }"

fun run_ok :: "inb_env \<Rightarrow> member_msg list \<Rightarrow> client \<Rightarrow> bool" where
  "run_ok env [] cl \<longleftrightarrow> True"
| "run_ok env (m # ms) cl \<longleftrightarrow> msg_ok env cl m \<and> (case inb_apply env m cl of None \<Rightarrow> True | Some cl1 \<Rightarrow> run_ok env ms cl1)"

lemma room_spec_my_nick [simp]:
  "room_spec (serv\<lparr>ns_server := (ns_server serv)\<lparr>my_nick := n\<rparr>\<rparr>) m = room_spec serv m"
proof -
  let ?S = "(ns_server serv)\<lparr>my_nick := n\<rparr>"
  have k: "nick_key ?S = nick_key (ns_server serv)" "name_item ?S = name_item (ns_server serv)"
    by (auto simp: nick_key_def prefix_len_def name_item_def fun_eq_iff)
  show ?thesis by (cases m) (simp_all add: room_spec_def Let_def k names_room_def [abs_def])
qed

lemma inb_run_rooms:
  assumes "client_inv cl" "run_ok env ms cl"
  shows "\<exists>cl'. inb_run env ms cl = Some cl' \<and> client_inv cl' \<and> rooms cl' = fold (room_spec (cl_serv cl)) ms (rooms cl)"
  using assms
proof (induction ms arbitrary: cl)
  case (Cons m ms)
  then obtain cl1 n where 1: "inb_apply env m cl = Some cl1" "client_inv cl1" "rooms cl1 = room_spec (cl_serv cl) m (rooms cl)"
    "cl_serv cl1 = (cl_serv cl)\<lparr>ns_server := (ns_server (cl_serv cl))\<lparr>my_nick := n\<rparr>\<rparr>"
    using inb_apply_handled [of cl env m] by (auto simp: handled_def)
  have "room_spec (cl_serv cl1) = room_spec (cl_serv cl)" unfolding 1(4) by (rule ext) simp
  with Cons.IH [OF 1(2)] Cons.prems 1 show ?case by auto
qed simp

section \<open>Properties\<close>

text \<open>C3: The client's picture of who is in which channel follows the server's messages: over any history of JOIN, PART, KICK, QUIT,
  NICK, NAMES, account, away, topic and user-information messages with ASCII nicks, every handler is defined (no freed user is read,
  no search fails to end), the invariants of all user lists, recorded modes and of the friends list hold throughout, and the sets of
  members, by case-folded nick, are exactly those of the specification: a join adds the nick to its channel, a part or kick takes it
  out there, a quit takes it out of every channel of the server, a nick change replaces it everywhere, NAMES adds all names (after a
  reset when an earlier list was complete), and sessions of other servers are untouched.\<close>

theorem membership_follows_messages:
  assumes "client_inv cl" "run_ok env ms cl"
  shows "\<exists>cl'. inb_run env ms cl = Some cl' \<and> client_inv cl' \<and> rooms cl' = fold (room_spec (cl_serv cl)) ms (rooms cl)"
  by (rule inb_run_rooms [OF assms])

definition demo_client :: client where
  "demo_client =
     \<lparr>sess_list = [(1, empty_session\<lparr>channel := ''#c''\<rparr>), (2, empty_session\<lparr>channel := ''#c''\<rparr>)],
      cl_serv = demo_serv False, cl_notify = demo_notify, cl_log = []\<rparr>"

definition demo_inb :: inb_env where
  "demo_inb =
     \<lparr>ib_skip = (\<lambda>c. 1), ib_markup = id, ib_nenv = \<lparr>whois_online = False, now_time = 7\<rparr>, ib_current = None, ib_front = None,
      ib_server = 0, ib_auto_rejoin = False, ib_show_hosts = False, ib_doing_dns = False\<rparr>"

lemma blank_server_ok: "nick_server (blank_server\<lparr>supports_monitor := m\<rparr>)"
  by (simp add: nick_server_def blank_server_def prefix_ok_def cstring_def)

lemma empty_session_ok: "session_inv serv (empty_session\<lparr>channel := c\<rparr>)"
proof -
  have "modes_inv serv empty_session"
    by (auto simp: modes_inv_def empty_session_def show_modes_def shown_args_def modes_ok_def intro!: exI [of _ "[]"])
  then have "session_inv serv empty_session" by (simp add: session_inv_def empty_session_inv)
  then show ?thesis by (simp add: session_inv_other)
qed

lemma demo_client_inv: "client_inv demo_client"
  using blank_server_ok demo_notify_inv empty_session_ok
  by (auto simp: client_inv_def demo_client_def own_all_def demo_serv_def)

theorem membership_follows_messages_witness:
  "\<exists>cl'. inb_run demo_inb [Msg_Names ''#C'' ''@Bob alice''] demo_client = Some cl' \<and> client_inv cl' \<and>
     map (\<lambda>(i, r). (i, rm_members r)) (rooms cl') = [(1, {''bob'', ''alice''}), (2, {})]"
proof -
  have split: "g_strsplit ''@Bob alice'' (CHR '' '') = [''@Bob'', ''alice'']" by code_simp
  have items: "name_item (ns_server (demo_serv False)) x = Some (take 63 x, None)" for x
    by (simp add: name_item_def demo_serv_def blank_server_def NICKLEN_def)
  have keys: "prefix_len (ns_server (demo_serv False)) ''@Bob'' = 1" "prefix_len (ns_server (demo_serv False)) ''alice'' = 0"
    by (simp_all add: prefix_len_def demo_serv_def blank_server_def)
  have fold: "rfc_strlower ''Bob'' = ''bob''" "rfc_strlower ''alice'' = ''alice''" by code_simp+
  have "run_ok demo_inb [Msg_Names ''#C'' ''@Bob alice''] demo_client"
    by (auto simp: msg_ok_def demo_inb_def demo_client_def ascii_skip_def split items item_ok_def name_ok_def keys uchar_def
        split: option.split)
  from membership_follows_messages [OF demo_client_inv this] obtain cl' where
    cl': "inb_run demo_inb [Msg_Names ''#C'' ''@Bob alice''] demo_client = Some cl'" "client_inv cl'"
    "rooms cl' = fold (room_spec (cl_serv demo_client)) [Msg_Names ''#C'' ''@Bob alice''] (rooms demo_client)" by blast
  have c: "rfc_casecmp ''#C'' ''#c'' = 0" by code_simp
  have cs: "cl_serv demo_client = demo_serv False" by (simp add: demo_client_def)
  have room: "rm_members (names_room (ns_server (demo_serv False)) ''@Bob alice'' r) = {''bob'', ''alice''}"
    if "rm_members r = {}" for r :: room
    using that by (simp add: names_room_def split items nick_key_def keys fold insert_commute)
  define r0 where "r0 = \<lparr>rm_type = SESS_CHANNEL, rm_name = ''#c'', rm_done = False, rm_members = {}\<rparr>"
  have r0: "rm_type r0 = SESS_CHANNEL" "rm_name r0 = ''#c''" "rm_members r0 = {}" by (simp_all add: r0_def)
  have "rooms demo_client = [(1, r0), (2, r0)]"
    by (simp add: views_def demo_client_def room_of_def empty_session_def roster_def r0_def)
  then have "rooms cl' = [(1, names_room (ns_server (demo_serv False)) ''@Bob alice'' r0), (2, r0)]"
    using cl'(3)
    by (simp only: fold.simps comp_def id_def room_spec_def member_msg.case Let_def cs demo_serv_id at_room.simps r0 c simp_thms if_True)
  then have "map (\<lambda>(i, r). (i, rm_members r)) (rooms cl') = [(1, {''bob'', ''alice''}), (2, {})]"
    using room [OF r0(3)] r0(3) by simp
  with cl'(1,2) show ?thesis by (intro exI [of _ cl'] conjI)
qed

text \<open>With full hosts in NAMES, an item that consists of prefix characters only makes the scan run off its end.\<close>

lemma names_prefix_only_overrun:
  assumes "have_uhnames serv" "set item \<subseteq> set (nick_prefixes serv)"
  shows "name_item serv item = None"
proof -
  have "skip_prefixes pfxs item = None" if "set item \<subseteq> set pfxs" for pfxs
    using that by (induction item) auto
  with assms show ?thesis by (simp add: name_item_def)
qed

end
