(* ===== verification/Batch.thy ===== *)
theory Batch
  imports Inbound Protocol
begin

text \<open>
  Batches of messages (IRCv3 \<open>batch\<close>; \<open>src/src/common/inbound.c\<close>, with the names of \<open>src/src/common/persistence.c\<close>): a batch is
  opened, messages that carry its identifier are collected, and when it is closed they are handed on as a unit. A multi-line
  message is put together from the lines of its batch; inside another batch it becomes one message of that. The table of
  open batches and the table of pending labels are those of the outgoing side (\<open>Sendq\<close>). Calls into chat history, scrollback and the
  front end are returned as a list. \<open>acmp\<close> is \<open>g_ascii_strcasecmp\<close>, \<open>ncmp\<close> is \<open>g_ascii_strncasecmp\<close>.
\<close>

section \<open>Names of batch types\<close>

text \<open>Vendor prefixes \<open>draft/\<close> and \<open>example.org/\<close> are skipped.\<close>

function persistence_strip_namespace :: "(string \<Rightarrow> string \<Rightarrow> nat \<Rightarrow> int) \<Rightarrow> string \<Rightarrow> string" where
  "persistence_strip_namespace ncmp name =
     (if CHR ''/'' \<notin> set name then name
      else
        (let pre = takeWhile (\<lambda>c. c \<noteq> CHR ''/'') name; rest = drop (length pre + 1) name
         in if length pre = 5 \<and> ncmp name ''draft'' 5 = 0 then persistence_strip_namespace ncmp rest
            else if 0 < length pre \<and> CHR ''.'' \<in> set pre then persistence_strip_namespace ncmp rest
            else name))"
  by pat_completeness auto
termination
  by (relation "measure (\<lambda>(ncmp, name). length name)") (auto simp: Let_def dest: length_pos_if_in_set)

declare persistence_strip_namespace.simps [simp del]

definition persistence_match :: "(string \<Rightarrow> string \<Rightarrow> nat \<Rightarrow> int) \<Rightarrow> string \<Rightarrow> string option" where
  "persistence_match ncmp name =
     (if name = [] then None
      else let base = persistence_strip_namespace ncmp name
      in if ncmp base ''persistence'' 11 \<noteq> 0 then None
         else if length base = 11 then Some []
         else if base ! 11 = CHR ''/'' then Some (drop 12 base)
         else None)"

definition persistence_is_bare_name :: "(string \<Rightarrow> string \<Rightarrow> nat \<Rightarrow> int) \<Rightarrow> string \<Rightarrow> bool" where
  "persistence_is_bare_name ncmp name = (persistence_match ncmp name = Some [])"

section \<open>Opening a batch\<close>

datatype batch_call =
    Call_Chathistory batch_info
  | Call_Targets batch_info
  | Call_Replay_Begin
  | Call_Replay_End
  | Call_Chanmsg "nat option" string string string bool message_tags_data
  | Call_Privmsg string string string message_tags_data
  | Call_Confirm nat nat "string option"
  | Call_Scrollback_Confirm nat string string
  | Call_Track_Msgid nat string int

text \<open>A message is handed to a session by its number; \<open>None\<close> stands for a dialog that is opened for it. The words of a batch are those
  from number 5 on; a leading colon is dropped.\<close>

definition batch_words :: "string list \<Rightarrow> string list" where
  "batch_words word = map (\<lambda>w. if chd w = CHR '':'' then tl w else w) (takeWhile (\<lambda>w. w \<noteq> []) (drop 5 word))"

definition batch_info_new :: "int \<Rightarrow> string \<Rightarrow> string \<Rightarrow> string list \<Rightarrow> message_tags_data \<Rightarrow> batch_info" where
  "batch_info_new now batch_id batch_type word td =
     \<lparr>bi_id = batch_id, bi_type = batch_type, bi_params = batch_words word, bi_outer = td_batch_id td, batch_label = td_label td,
      bi_msgid = td_msgid td,
      bi_chathistory_end = (case td_all_tags td of None \<Rightarrow> False | Some t \<Rightarrow> map_of t ''draft/chathistory-end'' \<noteq> None),
      bi_messages = [], batch_started = now, bi_server_time = td_timestamp td\<rparr>"

record batch_env =
  be_acmp :: "string \<Rightarrow> string \<Rightarrow> int"
  be_ncmp :: "string \<Rightarrow> string \<Rightarrow> nat \<Rightarrow> int"
  be_now :: int
  be_have_batch :: bool
  be_server :: nat

definition inbound_batch_start ::
    "batch_env \<Rightarrow> string \<Rightarrow> string \<Rightarrow> string list \<Rightarrow> message_tags_data \<Rightarrow> sendq \<Rightarrow> batch_call list \<times> sendq" where
  "inbound_batch_start env batch_id batch_type word td st =
     (if \<not> be_have_batch env then ([], st)
      else if map_of (active_batches st) batch_id \<noteq> None then ([], st)
      else
        (let batch = batch_info_new (be_now env) batch_id batch_type word td
         in (if be_acmp env (persistence_strip_namespace (be_ncmp env) batch_type) ''bouncer-replay'' = 0 then [Call_Replay_Begin] else [],
             server_ensure_stale_sweep_timer (st\<lparr>active_batches := ht_insert batch_id batch (active_batches st)\<rparr>))))"

section \<open>Collecting messages\<close>

definition inbound_batch_is_active :: "batch_env \<Rightarrow> message_tags_data \<Rightarrow> sendq \<Rightarrow> bool" where
  "inbound_batch_is_active env td st =
     (be_have_batch env \<and> (case td_batch_id td of None \<Rightarrow> False | Some b \<Rightarrow> map_of (active_batches st) b \<noteq> None))"

text \<open>The parameters from word 3 on: a word with a colon is the rest of the line and the last one.\<close>

fun message_params :: "string list \<Rightarrow> string list \<Rightarrow> string list" where
  "message_params (w # ws) (e # es) =
     (if w = [] then [] else if hd w = CHR '':'' then [e] else w # message_params ws es)"
| "message_params ws es = []"

definition deferred_type :: "batch_env \<Rightarrow> string \<Rightarrow> bool" where
  "deferred_type env t \<longleftrightarrow>
     be_acmp env t ''chathistory'' = 0 \<or> be_acmp env t ''draft/chathistory-targets'' = 0 \<or>
     be_acmp env t ''draft/multiline'' = 0 \<or> be_acmp env t ''multiline'' = 0"

definition batch_message_new :: "string \<Rightarrow> string \<Rightarrow> string list \<Rightarrow> string list \<Rightarrow> message_tags_data \<Rightarrow> batch_message" where
  "batch_message_new pfx command word word_eol td =
     \<lparr>bm_prefix = Some pfx, bm_command = command, bm_params = message_params (take (PDIWORDS - 3) (drop 3 word)) (drop 3 word_eol),
      bm_tags = td_all_tags td, bm_timestamp = td_timestamp td, bm_msgid = td_msgid td\<rparr>"

text \<open>The own JOIN inside the batch that restores a channel state is swallowed when the channel is open.\<close>

definition own_prefix :: "batch_env \<Rightarrow> server \<Rightarrow> string \<Rightarrow> bool" where
  "own_prefix env serv pfx =
     (let n = length (takeWhile (\<lambda>c. c \<noteq> CHR ''!'') pfx)
      in length (my_nick serv) = n \<and> be_ncmp env pfx (my_nick serv) n = 0)"

definition restored_join ::
    "batch_env \<Rightarrow> string \<Rightarrow> string \<Rightarrow> string list \<Rightarrow> message_tags_data \<Rightarrow> client \<Rightarrow> (bool \<times> batch_call list \<times> client) option" where
  "restored_join env pfx command word td cl =
     (if be_acmp env command ''JOIN'' = 0 \<and> own_prefix env (ns_server (cl_serv cl)) pfx
      then
        (let chan = (if chd (word ! 3) = CHR '':'' then tl (word ! 3) else word ! 3)
         in case serv_channel (cl_serv cl) (sess_list cl) chan of
              None \<Rightarrow> Some (False, [], cl)
            | Some i \<Rightarrow>
                if channel (snd (sess_list cl ! i)) = [] then Some (False, [], cl)
                else
                  do {
                    cl1 \<leftarrow> upd_sess i (\<lambda>s. Some (s\<lparr>ignore_names := True\<rparr>)) cl;
                    Some (True, (case td_msgid td of None \<Rightarrow> [] | Some m \<Rightarrow> [Call_Track_Msgid i m (td_timestamp td)]), cl1)
                  })
      else Some (False, [], cl))"

definition append_message :: "string \<Rightarrow> batch_message \<Rightarrow> sendq \<Rightarrow> sendq" where
  "append_message batch_id msg st =
     st\<lparr>active_batches := map (\<lambda>(k, b). if k = batch_id then (k, b\<lparr>bi_messages := bi_messages b @ [msg]\<rparr>) else (k, b)) (active_batches st)\<rparr>"

text \<open>The first component says that the message was taken.\<close>

definition inbound_batch_add_message ::
    "batch_env \<Rightarrow> string \<Rightarrow> string \<Rightarrow> string list \<Rightarrow> string list \<Rightarrow> message_tags_data \<Rightarrow> client \<Rightarrow> sendq \<Rightarrow>
      (bool \<times> batch_call list \<times> client \<times> sendq) option" where
  "inbound_batch_add_message env pfx command word word_eol td cl st =
     (case td_batch_id td of
        None \<Rightarrow> Some (False, [], cl, st)
      | Some b \<Rightarrow>
          if \<not> be_have_batch env then Some (False, [], cl, st)
          else
            (case map_of (active_batches st) b of
               None \<Rightarrow> Some (False, [], cl, st)
             | Some batch \<Rightarrow>
                 if persistence_is_bare_name (be_ncmp env) (bi_type batch)
                 then do { (taken, calls, cl1) \<leftarrow> restored_join env pfx command word td cl; Some (taken, calls, cl1, st) }
                 else if \<not> deferred_type env (bi_type batch) then Some (False, [], cl, st)
                 else Some (True, [], cl, append_message b (batch_message_new pfx command word word_eol td) st)))"

section \<open>Closing a batch\<close>

definition is_privmsg :: "batch_env \<Rightarrow> batch_message \<Rightarrow> bool" where
  "is_privmsg env msg = (be_acmp env (bm_command msg) ''PRIVMSG'' = 0)"

text \<open>The text of a message: its second parameter without the colon.\<close>

definition message_text :: "batch_message \<Rightarrow> string option" where
  "message_text msg =
     (case bm_params msg of p # q # _ \<Rightarrow> Some (if chd q = CHR '':'' then tl q else q) | _ \<Rightarrow> None)"

text \<open>The loop that joins the texts with newlines; \<open>first_line\<close> is set until a text was added.\<close>

fun combine :: "bool \<Rightarrow> string \<Rightarrow> batch_message list \<Rightarrow> string" where
  "combine first_line acc [] = acc"
| "combine first_line acc (m # ms) =
     (case message_text m of
        None \<Rightarrow> combine first_line acc ms
      | Some t \<Rightarrow> combine False (acc @ (if first_line then [] else [CHR 0x0A]) @ t) ms)"

definition combined_text :: "batch_env \<Rightarrow> batch_info \<Rightarrow> string" where
  "combined_text env batch = combine True [] (filter (is_privmsg env) (bi_messages batch))"

definition first_privmsg :: "batch_env \<Rightarrow> batch_info \<Rightarrow> batch_message option" where
  "first_privmsg env batch = find (is_privmsg env) (bi_messages batch)"

definition or_else :: "'a option \<Rightarrow> 'a option \<Rightarrow> 'a option" where
  "or_else a b = (case a of None \<Rightarrow> b | Some _ \<Rightarrow> a)"

definition process_multiline_batch :: "batch_env \<Rightarrow> client \<Rightarrow> batch_info \<Rightarrow> batch_call list" where
  "process_multiline_batch env cl batch =
     (case first_privmsg env batch of
        None \<Rightarrow> []
      | Some first \<Rightarrow>
          (let serv = ns_server (cl_serv cl);
               target = (case bi_params batch of [] \<Rightarrow> None | t # _ \<Rightarrow> Some t);
               sess = (case target of
                         None \<Rightarrow> None
                       | Some t \<Rightarrow> or_else (serv_channel (cl_serv cl) (sess_list cl) t) (find_dialog (cl_serv cl) (sess_list cl) t));
               sess0 = (case sess of None \<Rightarrow> be_server env | Some i \<Rightarrow> i);
               body = combined_text env batch
           in case bm_prefix first of
                None \<Rightarrow> []
              | Some pfx \<Rightarrow>
                  if body = [] then []
                  else
                    (let nick = takeWhile (\<lambda>c. c \<noteq> CHR ''!'') pfx;
                         host = tl (dropWhile (\<lambda>c. c \<noteq> CHR ''!'') pfx);
                         self_pm = (case target of None \<Rightarrow> False | Some t \<Rightarrow> \<not> is_channel serv t \<and> p_cmp serv nick (my_nick serv) = 0);
                         td = MESSAGE_TAGS_DATA_INIT\<lparr>td_timestamp := bm_timestamp first, td_msgid := or_else (bi_msgid batch) (bm_msgid first),
                                td_all_tags := bm_tags first\<rparr>
                     in if self_pm
                        then [Call_Chanmsg (find_dialog (cl_serv cl) (sess_list cl) (the target)) (the target) nick body True td]
                        else if sess_type (snd (sess_list cl ! sess0)) = SESS_CHANNEL
                        then [Call_Chanmsg (Some sess0) (channel (snd (sess_list cl ! sess0))) nick body False td]
                        else [Call_Privmsg nick host body td])))"

definition collapsed :: "batch_env \<Rightarrow> batch_info \<Rightarrow> batch_message option" where
  "collapsed env batch =
     (case first_privmsg env batch of
        None \<Rightarrow> None
      | Some first \<Rightarrow>
          if combined_text env batch = [] then None
          else Some
            \<lparr>bm_prefix = bm_prefix first, bm_command = ''PRIVMSG'',
             bm_params = [case bi_params batch of [] \<Rightarrow> [] | t # _ \<Rightarrow> t, CHR '':'' # combined_text env batch],
             bm_tags = bm_tags first,
             bm_timestamp = (if bi_server_time batch \<noteq> 0 then bi_server_time batch else bm_timestamp first),
             bm_msgid = or_else (bi_msgid batch) (bm_msgid first)\<rparr>)"

definition collapse_multiline_to_parent :: "batch_env \<Rightarrow> batch_info \<Rightarrow> string \<Rightarrow> sendq \<Rightarrow> sendq" where
  "collapse_multiline_to_parent env batch parent st =
     (case collapsed env batch of None \<Rightarrow> st | Some msg \<Rightarrow> append_message parent msg st)"

text \<open>The outer batch, if it is still open.\<close>

definition open_parent :: "sendq \<Rightarrow> string option \<Rightarrow> string option" where
  "open_parent st outer =
     (case outer of None \<Rightarrow> None | Some p \<Rightarrow> if map_of (active_batches st) p \<noteq> None then Some p else None)"

text \<open>An own message that is already shown as pending.\<close>

definition echo_suppressed :: "batch_info \<Rightarrow> sendq \<Rightarrow> bool" where
  "echo_suppressed batch st =
     (case batch_label batch of
        None \<Rightarrow> False
      | Some l \<Rightarrow> (case map_of (pending_labels st) l of None \<Rightarrow> False | Some info \<Rightarrow> info_entry_id info \<noteq> 0))"

text \<open>What is done with a batch of its type.\<close>

definition batch_body :: "batch_env \<Rightarrow> client \<Rightarrow> batch_info \<Rightarrow> sendq \<Rightarrow> batch_call list \<times> sendq" where
  "batch_body env cl batch st =
     (let t = bi_type batch
      in if be_acmp env t ''chathistory'' = 0 then ([Call_Chathistory batch], st)
         else if be_acmp env t ''draft/chathistory-targets'' = 0 then ([Call_Targets batch], st)
         else if be_acmp env t ''draft/multiline'' = 0 \<or> be_acmp env t ''multiline'' = 0 then
           (case open_parent st (bi_outer batch) of
              Some p \<Rightarrow> ([], collapse_multiline_to_parent env batch p st)
            | None \<Rightarrow> (if echo_suppressed batch st then [] else process_multiline_batch env cl batch, st))
         else if persistence_is_bare_name (be_ncmp env) t then ([], st)
         else if be_acmp env (persistence_strip_namespace (be_ncmp env) t) ''bouncer-replay'' = 0 then ([Call_Replay_End], st)
         else ([], st))"

definition settle_label :: "client \<Rightarrow> batch_info \<Rightarrow> sendq \<Rightarrow> batch_call list \<times> sendq" where
  "settle_label cl batch st =
     (case batch_label batch of
        None \<Rightarrow> ([], st)
      | Some l \<Rightarrow>
          (case map_of (pending_labels st) l of
             None \<Rightarrow> []
           | Some info \<Rightarrow>
               (case info_sess info of
                  None \<Rightarrow> []
                | Some sess \<Rightarrow>
                    if info_entry_id info \<noteq> 0 \<and> sess < length (sess_list cl)
                    then
                      (let m = or_else (bi_msgid batch) (case bi_messages batch of [] \<Rightarrow> None | first # _ \<Rightarrow> bm_msgid first)
                       in Call_Confirm sess (info_entry_id info) m #
                          (case m of None \<Rightarrow> [] | Some x \<Rightarrow> [Call_Scrollback_Confirm sess l x]))
                    else []),
           st\<lparr>pending_labels := ht_remove l (pending_labels st)\<rparr>))"

definition inbound_batch_end :: "batch_env \<Rightarrow> string \<Rightarrow> client \<Rightarrow> sendq \<Rightarrow> batch_call list \<times> sendq" where
  "inbound_batch_end env batch_id cl st =
     (if \<not> be_have_batch env then ([], st)
      else
        (case map_of (active_batches st) batch_id of
           None \<Rightarrow> ([], st)
         | Some batch \<Rightarrow>
             (let (calls1, st1) = batch_body env cl batch st;
                  (calls2, st2) = settle_label cl batch st1
              in (calls1 @ calls2, st2\<lparr>active_batches := ht_remove batch_id (active_batches st2)\<rparr>))))"

section \<open>Multi-line messages\<close>

lemma combine_join:
  "combine first acc ms =
     (let ts = List.map_filter message_text ms
      in if ts = [] then acc else acc @ (if first then [] else [CHR 0x0A]) @ join_sep (CHR 0x0A) ts)"
proof (induction first acc ms rule: combine.induct)
  case (2 first acc m ms)
  show ?case
  proof (cases "message_text m")
    case None
    then show ?thesis using 2(1) by (simp add: map_filter_simps)
  next
    case (Some t)
    then show ?thesis using 2(2) [OF Some] by (cases "List.map_filter message_text ms") (simp_all add: map_filter_simps)
  qed
qed (simp add: map_filter_simps)

text \<open>A line of a multi-line message as the dispatcher splits it: the target and the text behind a colon.\<close>

definition line_of :: "string \<Rightarrow> string \<Rightarrow> string \<Rightarrow> string list \<times> string list \<times> message_tags_data \<Rightarrow> bool" where
  "line_of batch_id chan t x \<longleftrightarrow>
     (case x of (word, eol, td) \<Rightarrow>
        td_batch_id td = Some batch_id \<and> length word = PDIWORDS \<and> length eol = PDIWORDS \<and>
        word ! 3 = chan \<and> chan \<noteq> [] \<and> hd chan \<noteq> CHR '':'' \<and> word ! 4 \<noteq> [] \<and> hd (word ! 4) = CHR '':'' \<and> eol ! 4 = CHR '':'' # t)"

fun receive_lines ::
    "batch_env \<Rightarrow> string \<Rightarrow> (string list \<times> string list \<times> message_tags_data) list \<Rightarrow> client \<Rightarrow> sendq \<Rightarrow> (client \<times> sendq) option" where
  "receive_lines env pfx [] cl st = Some (cl, st)"
| "receive_lines env pfx ((word, eol, td) # ls) cl st =
     do {
       (taken, calls, cl1, st1) \<leftarrow> inbound_batch_add_message env pfx ''PRIVMSG'' word eol td cl st;
       receive_lines env pfx ls cl1 st1
     }"

lemma line_params:
  assumes "line_of b chan t (word, eol, td)"
  shows "message_params (take (PDIWORDS - 3) (drop 3 word)) (drop 3 eol) = [chan, CHR '':'' # t]"
proof -
  have l: "length word = 32" "length eol = 32" using assms by (simp_all add: line_of_def PDIWORDS_def)
  then have "drop 3 word = word ! 3 # word ! 4 # drop 5 word" "drop 3 eol = eol ! 3 # eol ! 4 # drop 5 eol"
    by (simp_all add: Cons_nth_drop_Suc [symmetric] eval_nat_numeral)
  then show ?thesis using assms by (auto simp: line_of_def PDIWORDS_def)
qed

lemma map_of_append_message:
  "map_of (active_batches (append_message b m st)) =
     (map_of (active_batches st))(b := map_option (\<lambda>x. x\<lparr>bi_messages := bi_messages x @ [m]\<rparr>) (map_of (active_batches st) b))"
proof -
  have "map_of (map (\<lambda>(k, x). if k = b then (k, f x) else (k, x)) t) k' = (if k' = b then map_option f (map_of t b) else map_of t k')"
    for t k' and f :: "batch_info \<Rightarrow> batch_info"
    by (induction t) auto
  then show ?thesis by (auto simp: append_message_def fun_eq_iff)
qed

lemma append_message_sel [simp]:
  "pending_labels (append_message b m st) = pending_labels st" "stale_sweep_timer (append_message b m st) = stale_sweep_timer st"
  by (simp_all add: append_message_def)

lemma receive_lines_collect:
  assumes "be_have_batch env" "\<not> persistence_is_bare_name (be_ncmp env) t" "deferred_type env t"
  shows "map_of (active_batches st) b = Some batch \<Longrightarrow> bi_type batch = t \<Longrightarrow> list_all2 (line_of b chan) texts ls \<Longrightarrow>
     \<exists>st'. receive_lines env pfx ls cl st = Some (cl, st') \<and> pending_labels st' = pending_labels st \<and>
       map_of (active_batches st') = (map_of (active_batches st))(b \<mapsto> batch\<lparr>bi_messages := bi_messages batch @
         map (\<lambda>(word, eol, td). batch_message_new pfx ''PRIVMSG'' word eol td) ls\<rparr>)"
proof (induction ls arbitrary: st batch texts)
  case Nil
  then show ?case by (auto simp: fun_eq_iff)
next
  case (Cons x ls)
  obtain word eol td where x: "x = (word, eol, td)" by (cases x)
  let ?m = "batch_message_new pfx ''PRIVMSG'' word eol td" and ?b = "\<lambda>m. batch\<lparr>bi_messages := bi_messages batch @ [m]\<rparr>"
  obtain t0 ts where ts: "texts = t0 # ts" "line_of b chan t0 x" "list_all2 (line_of b chan) ts ls"
    using Cons.prems(3) by (cases texts) auto
  have td: "td_batch_id td = Some b" using ts(2) by (simp add: x line_of_def)
  have add: "inbound_batch_add_message env pfx ''PRIVMSG'' word eol td cl st = Some (True, [], cl, append_message b ?m st)"
    using assms Cons.prems(1,2) td by (simp add: inbound_batch_add_message_def)
  have "map_of (active_batches (append_message b ?m st)) b = Some (?b ?m)" using Cons.prems(1) by (simp add: map_of_append_message)
  from Cons.IH [OF this _ ts(3)] Cons.prems(1,2) show ?case by (auto simp: x add map_of_append_message fun_eq_iff)
qed

abbreviation multiline_types :: "string set" where
  "multiline_types \<equiv> {''draft/multiline'', ''multiline''}"

lemma multiline_names:
  assumes "ncmp_ok ncmp" "t \<in> multiline_types"
  shows "persistence_strip_namespace ncmp t = ''multiline''"
proof -
  have d: "ncmp ''draft/multiline'' ''draft'' 5 = 0" using assms(1) by (simp add: ncmp_ok_def)
  have m: "persistence_strip_namespace ncmp ''multiline'' = ''multiline''" by (subst persistence_strip_namespace.simps) simp
  have "persistence_strip_namespace ncmp ''draft/multiline'' = ''multiline''"
    using d m by (subst persistence_strip_namespace.simps) simp
  then show ?thesis using assms(2) m by auto
qed

lemma ascii_lower_literal: "map ascii_lower ''multiline'' \<noteq> map ascii_lower ''persistence''"
  "map ascii_lower ''multiline'' \<noteq> map ascii_lower ''bouncer-replay''"
  "map ascii_lower ''multiline'' \<noteq> map ascii_lower ''chathistory''"
  "map ascii_lower ''draft/multiline'' \<noteq> map ascii_lower ''chathistory''"
  "map ascii_lower ''multiline'' \<noteq> map ascii_lower ''draft/chathistory-targets''"
  "map ascii_lower ''draft/multiline'' \<noteq> map ascii_lower ''draft/chathistory-targets''"
  by code_simp+

lemma multiline_type:
  assumes "acmp_ok (be_acmp env)" "ncmp_ok (be_ncmp env)" "t \<in> multiline_types"
  shows "\<not> persistence_is_bare_name (be_ncmp env) t" "deferred_type env t"
    "be_acmp env t ''chathistory'' \<noteq> 0" "be_acmp env t ''draft/chathistory-targets'' \<noteq> 0"
    "be_acmp env t ''draft/multiline'' = 0 \<or> be_acmp env t ''multiline'' = 0"
    "be_acmp env (persistence_strip_namespace (be_ncmp env) t) ''bouncer-replay'' \<noteq> 0"
proof -
  have c: "be_acmp env a b = 0 \<longleftrightarrow> map ascii_lower a = map ascii_lower b" for a b using assms(1) by (simp add: acmp_ok_def)
  have "be_ncmp env ''multiline'' ''persistence'' 11 \<noteq> 0"
    using assms(2) ascii_lower_literal(1) by (simp add: ncmp_ok_def)
  then show "\<not> persistence_is_bare_name (be_ncmp env) t"
    by (simp add: persistence_is_bare_name_def persistence_match_def multiline_names [OF assms(2,3)] Let_def)
  show d: "be_acmp env t ''draft/multiline'' = 0 \<or> be_acmp env t ''multiline'' = 0" using assms(3) c by auto
  then show "deferred_type env t" by (auto simp: deferred_type_def)
  show "be_acmp env t ''chathistory'' \<noteq> 0" "be_acmp env t ''draft/chathistory-targets'' \<noteq> 0"
    using assms(3) ascii_lower_literal(3-6) unfolding c by blast+
  show "be_acmp env (persistence_strip_namespace (be_ncmp env) t) ''bouncer-replay'' \<noteq> 0"
    unfolding multiline_names [OF assms(2,3)] c by (rule ascii_lower_literal(2))
qed

text \<open>What a batch of lines of one sender holds when it is closed.\<close>

lemma multiline_collected:
  assumes "acmp_ok (be_acmp env)" "list_all2 (line_of b chan) texts ls" "ls \<noteq> []"
    and "bi_messages batch = map (\<lambda>(word, eol, td). batch_message_new pfx ''PRIVMSG'' word eol td) ls"
  shows "combined_text env batch = join_sep (CHR 0x0A) texts"
    "\<exists>word eol td. first_privmsg env batch = Some (batch_message_new pfx ''PRIVMSG'' word eol td)"
proof -
  have p: "is_privmsg env (batch_message_new pfx ''PRIVMSG'' word eol td)" for word eol td
    using assms(1) by (simp add: is_privmsg_def batch_message_new_def acmp_ok_def)
  have f: "filter (is_privmsg env) (bi_messages batch) = bi_messages batch"
    unfolding assms(4) by (auto simp: filter_id_conv p split: prod.splits)
  have t: "List.map_filter message_text (map (\<lambda>(word, eol, td). batch_message_new pfx ''PRIVMSG'' word eol td) ls) = texts"
    using assms(2)
  proof (induction texts ls rule: list_all2_induct)
    case (Cons t ts x ls)
    obtain word eol td where x: "x = (word, eol, td)" by (cases x)
    show ?case using Cons line_params [of b chan t word eol td]
      by (simp add: x map_filter_simps message_text_def batch_message_new_def)
  qed (simp add: map_filter_simps)
  have "texts \<noteq> []" using assms(2,3) by auto
  then show "combined_text env batch = join_sep (CHR 0x0A) texts"
    unfolding combined_text_def f by (simp add: combine_join assms(4) t)
  obtain word eol td ls' where "ls = (word, eol, td) # ls'" using assms(3) by (cases ls) auto
  then show "\<exists>word eol td. first_privmsg env batch = Some (batch_message_new pfx ''PRIVMSG'' word eol td)"
    using p by (auto simp: first_privmsg_def assms(4))
qed

lemma batch_opened:
  assumes "be_have_batch env" "map_of (active_batches st) b = None"
  shows "map_of (active_batches (snd (inbound_batch_start env b t word td st))) =
       (map_of (active_batches st))(b \<mapsto> batch_info_new (be_now env) b t word td)"
    "pending_labels (snd (inbound_batch_start env b t word td st)) = pending_labels st"
  using assms
  by (auto simp: inbound_batch_start_def Let_def server_ensure_stale_sweep_timer_def ht.lookup_insert fun_eq_iff)

section \<open>Properties\<close>


text \<open>Two lines for the channel \<open>#c\<close>.\<close>

definition demo_env :: batch_env where
  "demo_env =
     \<lparr>be_acmp = (\<lambda>a b. if map ascii_lower a = map ascii_lower b then 0 else 1),
      be_ncmp = (\<lambda>a b n. if map ascii_lower (take n a) = map ascii_lower (take n b) then 0 else 1),
      be_now = 0, be_have_batch = True, be_server = 0\<rparr>"

definition demo_line :: "string \<Rightarrow> string list \<times> string list \<times> message_tags_data" where
  "demo_line t =
     ([[], ''@'', '':bob!b@h'', ''#c'', CHR '':'' # t] @ replicate 27 [],
      [[], [], [], ''#c :'' @ t, CHR '':'' # t] @ replicate 27 [], MESSAGE_TAGS_DATA_INIT\<lparr>td_batch_id := Some ''b1''\<rparr>)"


end
