(* ===== verification/Sts.thy ===== *)
theory Sts
  imports Textutil
begin

text \<open>
  The store of strict transport security policies (\<open>src/src/common/servlist.c\<close>): for a host, the port of its TLS service and the time
  until which only that may be used. \<open>acmp\<close> is \<open>g_ascii_strcasecmp\<close>, \<open>now\<close> is \<open>time (NULL)\<close>; the file is its contents.
\<close>

section \<open>The list\<close>

record sts_policy =
  sp_host :: string
  sp_port :: int
  sp_expires :: int

fun sts_pos :: "(string \<Rightarrow> string \<Rightarrow> int) \<Rightarrow> string \<Rightarrow> sts_policy list \<Rightarrow> nat option" where
  "sts_pos acmp host [] = None"
| "sts_pos acmp host (p # ps) = (if acmp (sp_host p) host = 0 then Some 0 else map_option Suc (sts_pos acmp host ps))"

text \<open>Only the first entry for the host is looked at; it is removed when it has expired.\<close>

definition sts_policy_find ::
    "(string \<Rightarrow> string \<Rightarrow> int) \<Rightarrow> int \<Rightarrow> string \<Rightarrow> sts_policy list \<Rightarrow> nat option \<times> sts_policy list" where
  "sts_policy_find acmp now host ps =
     (case sts_pos acmp host ps of
        None \<Rightarrow> (None, ps)
      | Some i \<Rightarrow>
          if sp_expires (ps ! i) > 0 \<and> sp_expires (ps ! i) < now then (None, take i ps @ drop (Suc i) ps)
          else (Some i, ps))"

definition sts_policy_add ::
    "(string \<Rightarrow> string \<Rightarrow> int) \<Rightarrow> int \<Rightarrow> string \<Rightarrow> int \<Rightarrow> int \<Rightarrow> sts_policy list \<Rightarrow> sts_policy list" where
  "sts_policy_add acmp now host port duration ps =
     (if port \<le> 0 then ps
      else
        (case sts_policy_find acmp now host ps of
           (Some i, ps1) \<Rightarrow>
             ps1[i := (ps1 ! i)\<lparr>sp_port := port,
               sp_expires := (if duration > 0 then now + duration else if duration = 0 then 0 else sp_expires (ps1 ! i))\<rparr>]
         | (None, ps1) \<Rightarrow> \<lparr>sp_host = host, sp_port = port, sp_expires = (if duration > 0 then now + duration else 0)\<rparr> # ps1))"

definition sts_policy_remove :: "(string \<Rightarrow> string \<Rightarrow> int) \<Rightarrow> int \<Rightarrow> string \<Rightarrow> sts_policy list \<Rightarrow> sts_policy list" where
  "sts_policy_remove acmp now host ps =
     (case sts_policy_find acmp now host ps of
        (Some i, ps1) \<Rightarrow> take i ps1 @ drop (Suc i) ps1
      | (None, ps1) \<Rightarrow> ps1)"

text \<open>The port to connect to with TLS, if the host has a policy.\<close>

definition sts_policy_check :: "(string \<Rightarrow> string \<Rightarrow> int) \<Rightarrow> int \<Rightarrow> string \<Rightarrow> sts_policy list \<Rightarrow> int option \<times> sts_policy list" where
  "sts_policy_check acmp now host ps =
     (case sts_policy_find acmp now host ps of
        (Some i, ps1) \<Rightarrow> (Some (sp_port (ps1 ! i)), ps1)
      | (None, ps1) \<Rightarrow> (None, ps1))"

section \<open>The file\<close>

definition sts_line :: "sts_policy \<Rightarrow> string" where
  "sts_line p = sp_host p @ '' '' @ int_string (sp_port p) @ '' '' @ int_string (sp_expires p) @ [CHR 0x0A]"

definition sts_policy_save :: "int \<Rightarrow> sts_policy list \<Rightarrow> string" where
  "sts_policy_save now ps = concat (map sts_line (filter (\<lambda>p. sp_expires p \<noteq> 0 \<and> \<not> sp_expires p < now) ps))"

text \<open>\<open>fgets\<close> with a buffer of \<open>n\<close> bytes, and the words that \<open>strtok\<close> finds between separators.\<close>

definition fgets :: "nat \<Rightarrow> string \<Rightarrow> (string \<times> string) option" where
  "fgets n s =
     (if s = [] then None
      else let k = min (n - 1) (length (takeWhile (\<lambda>c. c \<noteq> CHR 0x0A) s) + 1) in Some (take k s, drop k s))"

function strtok_words :: "(char \<Rightarrow> bool) \<Rightarrow> string \<Rightarrow> string list" where
  "strtok_words sep s =
     (let t = dropWhile sep s
      in if t = [] then [] else takeWhile (\<lambda>c. \<not> sep c) t # strtok_words sep (dropWhile (\<lambda>c. \<not> sep c) t))"
  by pat_completeness auto
termination
proof (relation "measure (\<lambda>(sep, s). length s)", goal_cases)
  case (2 sep s t)
  have "length (dropWhile (\<lambda>c. \<not> sep c) t) < length t"
  proof (cases t)
    case (Cons c cs)
    then have "\<not> sep c" using 2(1) hd_dropWhile [of sep s] by auto
    then show ?thesis using Cons length_dropWhile_le [of "\<lambda>c. \<not> sep c" cs] by simp
  qed (use 2 in simp)
  also have "\<dots> \<le> length s" using 2(1) by (simp add: length_dropWhile_le)
  finally show ?case by simp
qed simp

declare strtok_words.simps [simp del]

definition is_blank :: "char \<Rightarrow> bool" where
  "is_blank c \<longleftrightarrow> c = CHR '' '' \<or> c = CHR 0x09 \<or> c = CHR 0x0A"

text \<open>A line of the file: the policy is added, and the time is written into the head of the list.\<close>

definition sts_load_line :: "(string \<Rightarrow> string \<Rightarrow> int) \<Rightarrow> int \<Rightarrow> string \<Rightarrow> sts_policy list \<Rightarrow> sts_policy list" where
  "sts_load_line acmp now l ps =
     (case strtok_words is_blank l of
        host # port_str # expires_str # _ \<Rightarrow>
          (let port = c_atoi port_str; expires = g_ascii_strtoll expires_str
           in if expires > 0 \<and> expires < now then ps
              else case sts_policy_add acmp now host port 0 ps of
                     [] \<Rightarrow> []
                   | p # ps1 \<Rightarrow> p\<lparr>sp_expires := expires\<rparr> # ps1)
      | _ \<Rightarrow> ps)"

function sts_load :: "(string \<Rightarrow> string \<Rightarrow> int) \<Rightarrow> int \<Rightarrow> string \<Rightarrow> sts_policy list \<Rightarrow> sts_policy list" where
  "sts_load acmp now file ps =
     (case fgets 512 file of None \<Rightarrow> ps | Some (l, rest) \<Rightarrow> sts_load acmp now rest (sts_load_line acmp now l ps))"
  by pat_completeness auto
termination
  by (relation "measure (\<lambda>(acmp, now, file, ps). length file)") (auto simp: fgets_def Let_def split: if_splits)

declare sts_load.simps [simp del]

definition sts_policy_init :: "(string \<Rightarrow> string \<Rightarrow> int) \<Rightarrow> int \<Rightarrow> string option \<Rightarrow> sts_policy list \<Rightarrow> sts_policy list" where
  "sts_policy_init acmp now file ps = (case file of None \<Rightarrow> ps | Some text \<Rightarrow> sts_load acmp now text ps)"

section \<open>At most one policy for a host\<close>

definition sts_inv :: "sts_policy list \<Rightarrow> bool" where
  "sts_inv ps \<longleftrightarrow> distinct (map (\<lambda>p. map ascii_lower (sp_host p)) ps) \<and> (\<forall>p \<in> set ps. 0 < sp_port p)"

text \<open>What the list says of a host at a time, regardless of what it has not removed yet.\<close>

definition sts_state :: "int \<Rightarrow> sts_policy list \<Rightarrow> string \<Rightarrow> (int \<times> int) option" where
  "sts_state now ps host =
     (case find (\<lambda>p. map ascii_lower (sp_host p) = map ascii_lower host) ps of
        None \<Rightarrow> None
      | Some p \<Rightarrow> if 0 < sp_expires p \<and> sp_expires p < now then None else Some (sp_port p, sp_expires p))"

lemma sts_pos_find:
  assumes "acmp_ok acmp"
  shows "sts_pos acmp host ps = None \<longleftrightarrow> (\<forall>p \<in> set ps. map ascii_lower (sp_host p) \<noteq> map ascii_lower host)"
    "sts_pos acmp host ps = Some i \<Longrightarrow> i < length ps \<and> map ascii_lower (sp_host (ps ! i)) = map ascii_lower host \<and>
       find (\<lambda>p. map ascii_lower (sp_host p) = map ascii_lower host) ps = Some (ps ! i)"
proof -
  show "sts_pos acmp host ps = None \<longleftrightarrow> (\<forall>p \<in> set ps. map ascii_lower (sp_host p) \<noteq> map ascii_lower host)"
    using assms by (induction ps) (auto simp: acmp_ok_def)
  show "sts_pos acmp host ps = Some i \<Longrightarrow> i < length ps \<and> map ascii_lower (sp_host (ps ! i)) = map ascii_lower host \<and>
       find (\<lambda>p. map ascii_lower (sp_host p) = map ascii_lower host) ps = Some (ps ! i)"
    using assms by (induction ps arbitrary: i) (auto simp: acmp_ok_def split: if_splits)
qed

text \<open>Adding a policy sets the state of its host and of no other.\<close>

lemma find_update:
  assumes "i < length ps" "key (ps ! i) = k" "key q = k" "distinct (map key ps)"
  shows "find (\<lambda>p. key p = k') (ps[i := q]) = (if k' = k then Some q else find (\<lambda>p. key p = k') ps)"
  using assms(1,2,4)
proof (induction ps arbitrary: i)
  case (Cons a ps)
  show ?case
  proof (cases i)
    case 0
    then show ?thesis using Cons.prems assms(3) by auto
  next
    case (Suc j)
    then have j: "j < length ps" "key (ps ! j) = k" "distinct (map key ps)" using Cons.prems by auto
    then have "k \<in> key ` set ps" using nth_mem by force
    then have "key a \<noteq> k" using Cons.prems by auto
    then show ?thesis using Cons.IH [OF j] Suc by auto
  qed
qed simp

lemma find_delete:
  assumes "i < length ps" "distinct (map key ps)"
  shows "find (\<lambda>p. key p = k) (take i ps @ drop (Suc i) ps) = (if k = key (ps ! i) then None else find (\<lambda>p. key p = k) ps)"
  using assms
proof (induction ps arbitrary: i)
  case (Cons a ps)
  show ?case
  proof (cases i)
    case 0
    then show ?thesis using Cons.prems by (auto simp: find_None_iff image_iff)
  next
    case (Suc j)
    then have "j < length ps" using Cons.prems by simp
    then have "key (ps ! j) \<in> key ` set ps" by simp
    then have "key a \<noteq> key (ps ! j)" using Cons.prems by auto
    then show ?thesis using Cons Suc by auto
  qed
qed simp

lemma distinct_delete: "distinct (map f ps) \<Longrightarrow> distinct (map f (take i ps @ drop (Suc i) ps))"
proof (induction ps arbitrary: i)
  case (Cons a ps)
  then show ?case by (cases i) (auto dest: in_set_takeD in_set_dropD)
qed simp

abbreviation host_key :: "string \<Rightarrow> string" where
  "host_key \<equiv> map ascii_lower"

lemma sts_find_result:
  assumes "acmp_ok acmp" "sts_inv ps"
  obtains i where "sts_policy_find acmp now host ps = (Some i, ps)" "i < length ps" "host_key (sp_host (ps ! i)) = host_key host"
      "find (\<lambda>p. host_key (sp_host p) = host_key host) ps = Some (ps ! i)" "\<not> (0 < sp_expires (ps ! i) \<and> sp_expires (ps ! i) < now)"
  | ps1 where "sts_policy_find acmp now host ps = (None, ps1)" "sts_inv ps1" "\<And>h. sts_state now ps1 h = sts_state now ps h"
      "find (\<lambda>p. host_key (sp_host p) = host_key host) ps1 = None" "set ps1 \<subseteq> set ps"
proof (cases "sts_pos acmp host ps")
  case None
  have "find (\<lambda>p. host_key (sp_host p) = host_key host) ps = None"
    using None sts_pos_find(1) [OF assms(1)] by (simp add: find_None_iff)
  moreover have "sts_policy_find acmp now host ps = (None, ps)" by (simp only: sts_policy_find_def None option.case)
  ultimately show ?thesis using that(2) [of ps] assms(2) by simp
next
  case (Some i)
  note p = sts_pos_find(2) [OF assms(1) Some]
  let ?del = "take i ps @ drop (Suc i) ps"
  have d: "distinct (map (\<lambda>p. host_key (sp_host p)) ps)" using assms(2) by (simp add: sts_inv_def)
  note f = find_delete [OF _ d, of i]
  show ?thesis
  proof (cases "0 < sp_expires (ps ! i) \<and> sp_expires (ps ! i) < now")
    case True
    have "sts_state now ?del h = sts_state now ps h" for h
      using p True f by (auto simp: sts_state_def)
    moreover have "sts_inv ?del" using assms(2) distinct_delete [OF d, of i] by (auto simp: sts_inv_def dest: in_set_takeD in_set_dropD)
    moreover have "find (\<lambda>p. host_key (sp_host p) = host_key host) ?del = None" using f p by simp
    moreover have "set ?del \<subseteq> set ps" by (auto dest: in_set_takeD in_set_dropD)
    ultimately show ?thesis using that(2) [of ?del] Some True by (simp add: sts_policy_find_def)
  next
    case False
    then show ?thesis using that(1) [of i] Some p by (simp add: sts_policy_find_def)
  qed
qed

lemma sts_add_result:
  assumes "acmp_ok acmp" "sts_inv ps" "0 < port" "0 \<le> duration" "0 < now"
  shows "sts_inv (sts_policy_add acmp now host port duration ps)"
    "sts_state now (sts_policy_add acmp now host port duration ps) h =
       (if host_key h = host_key host then Some (port, if duration > 0 then now + duration else 0) else sts_state now ps h)"
proof -
  let ?e = "if duration > 0 then now + duration else 0"
  have "sts_inv (sts_policy_add acmp now host port duration ps) \<and>
     sts_state now (sts_policy_add acmp now host port duration ps) h =
       (if host_key h = host_key host then Some (port, ?e) else sts_state now ps h)"
  proof (cases rule: sts_find_result [OF assms(1,2), of now host])
    case (1 i)
    let ?q = "(ps ! i)\<lparr>sp_port := port, sp_expires := ?e\<rparr>"
    have a: "sts_policy_add acmp now host port duration ps = ps[i := ?q]"
      using 1(1) assms(3,4) by (simp add: sts_policy_add_def)
    have d: "distinct (map (\<lambda>p. host_key (sp_host p)) ps)" using assms(2) by (simp add: sts_inv_def)
    have "map (\<lambda>p. host_key (sp_host p)) (ps[i := ?q]) = map (\<lambda>p. host_key (sp_host p)) ps"
      using 1(2) by (simp add: map_update list_update_same_conv)
    then have "sts_inv (ps[i := ?q])" using assms(2,3) by (auto simp: sts_inv_def dest!: set_update_subset_insert [THEN subsetD])
    moreover have "find (\<lambda>p. host_key (sp_host p) = host_key h) (ps[i := ?q]) =
        (if host_key h = host_key host then Some ?q else find (\<lambda>p. host_key (sp_host p) = host_key h) ps)"
      using find_update [where key = "\<lambda>p. host_key (sp_host p)" and q = ?q, OF 1(2,3) _ d] 1(3) by simp
    ultimately show ?thesis using a assms(5) by (auto simp: sts_state_def)
  next
    case (2 ps1)
    have "sts_state now ps h = sts_state now ps1 h" using 2(3) by simp
    then show ?thesis using 2 assms(3,5)
      by (auto simp: sts_policy_add_def sts_inv_def find_None_iff sts_state_def)
  qed
  then show "sts_inv (sts_policy_add acmp now host port duration ps)"
    "sts_state now (sts_policy_add acmp now host port duration ps) h =
       (if host_key h = host_key host then Some (port, if duration > 0 then now + duration else 0) else sts_state now ps h)" by auto
qed

section \<open>Lines of the file\<close>

definition sts_plain :: "sts_policy \<Rightarrow> bool" where
  "sts_plain p \<longleftrightarrow> sp_host p \<noteq> [] \<and> (\<forall>c \<in> set (sp_host p). \<not> is_blank c) \<and> length (sp_host p) < 450 \<and>
     0 < sp_port p \<and> sp_port p < 2 ^ 31 \<and> 0 \<le> sp_expires p \<and> sp_expires p < 2 ^ 63"

lemma strtok_word:
  assumes "w \<noteq> []" "\<forall>c \<in> set w. \<not> sep c" "sep c"
  shows "strtok_words sep (w @ c # s) = w # strtok_words sep s"
proof -
  have "dropWhile sep (w @ c # s) = w @ c # s" using assms(1,2) by (cases w) simp_all
  moreover have "takeWhile (\<lambda>c. \<not> sep c) (w @ c # s) = w" "dropWhile (\<lambda>c. \<not> sep c) (w @ c # s) = c # s"
    using assms(2,3) by (simp_all add: takeWhile_append dropWhile_append)
  moreover have "strtok_words sep (c # s) = strtok_words sep s"
    using assms(3) by (subst (1 2) strtok_words.simps) simp
  ultimately show ?thesis using assms(1) by (subst strtok_words.simps) (simp add: Let_def)
qed

lemma int_string_word:
  "0 \<le> n \<Longrightarrow> int_string n \<noteq> [] \<and> (\<forall>c \<in> set (int_string n). \<not> is_blank c) \<and> c_number (int_string n) = n"
  using dec_string_digits [of "nat n"] c_number_dec_string [of "nat n"]
  by (auto simp: int_string_def list_all_iff is_blank_def is_digit_def uchar_def)

lemma sts_line_words:
  assumes "sts_plain p"
  shows "strtok_words is_blank (sts_line p) = [sp_host p, int_string (sp_port p), int_string (sp_expires p)]"
proof -
  have b: "is_blank (CHR '' '')" "is_blank (CHR 0x0A)" by (simp_all add: is_blank_def)
  have e: "strtok_words is_blank [] = []" by (subst strtok_words.simps) simp
  show ?thesis
    using assms int_string_word [of "sp_port p"] int_string_word [of "sp_expires p"] b
    by (simp add: sts_line_def strtok_word sts_plain_def e)
qed

lemma sts_line_length:
  assumes "sts_plain p"
  shows "length (sts_line p) < 512" "CHR 0x0A \<notin> set (butlast (sts_line p))" "sts_line p \<noteq> []" "last (sts_line p) = CHR 0x0A"
proof -
  have "length (int_string (sp_port p)) \<le> 10" "length (int_string (sp_expires p)) \<le> 19"
    using assms by (auto simp: sts_plain_def int_string_def intro!: dec_string_length)
  then show "length (sts_line p) < 512" using assms by (simp add: sts_line_def sts_plain_def)
  have "CHR 0x0A \<notin> set (sp_host p)" using assms by (auto simp: sts_plain_def is_blank_def)
  moreover have "CHR 0x0A \<notin> set (int_string (sp_port p))" "CHR 0x0A \<notin> set (int_string (sp_expires p))"
    using assms int_string_word [of "sp_port p"] int_string_word [of "sp_expires p"] by (force simp: sts_plain_def is_blank_def)+
  moreover have "sts_line p = (sp_host p @ '' '' @ int_string (sp_port p) @ '' '' @ int_string (sp_expires p)) @ [CHR 0x0A]"
    by (simp add: sts_line_def)
  ultimately show "CHR 0x0A \<notin> set (butlast (sts_line p))" by (simp only: butlast_snoc set_append Un_iff) simp
qed (simp_all add: sts_line_def)

lemma fgets_line:
  assumes "length l < n" "CHR 0x0A \<notin> set (butlast l)" "l \<noteq> []" "last l = CHR 0x0A"
  shows "fgets n (l @ rest) = Some (l, rest)"
proof -
  have l: "l = butlast l @ [CHR 0x0A]" using assms(3,4) append_butlast_last_id [of l] by simp
  have "takeWhile (\<lambda>c. c \<noteq> CHR 0x0A) (l @ rest) = butlast l"
    using assms(2) by (subst l) (auto simp: takeWhile_append)
  then show ?thesis using assms by (simp add: fgets_def Let_def)
qed

lemma sts_load_lines:
  assumes "\<forall>p \<in> set ps. sts_plain p"
  shows "sts_load acmp now (concat (map sts_line ps)) acc = fold (sts_load_line acmp now) (map sts_line ps) acc"
  using assms
proof (induction ps arbitrary: acc)
  case Nil
  then show ?case by (subst sts_load.simps) (simp add: fgets_def)
next
  case (Cons p ps)
  then show ?case using sts_line_length [of p] by (subst sts_load.simps) (simp add: fgets_line)
qed

lemma sint_word_of_int_small: "0 \<le> n \<Longrightarrow> n < 2 ^ 31 \<Longrightarrow> sint (word_of_int n :: 32 word) = n"
  by (simp add: int_word_sint)

lemma sts_load_one:
  assumes "acmp_ok acmp" "sts_plain p" "\<forall>q \<in> set acc. host_key (sp_host q) \<noteq> host_key (sp_host p)"
  shows "sts_load_line acmp now (sts_line p) acc = (if 0 < sp_expires p \<and> sp_expires p < now then acc else p # acc)"
proof -
  have n: "c_atoi (int_string (sp_port p)) = sp_port p" "g_ascii_strtoll (int_string (sp_expires p)) = sp_expires p"
    using assms(2) int_string_word [of "sp_port p"] int_string_word [of "sp_expires p"]
    by (simp_all add: sts_plain_def c_atoi_def g_ascii_strtoll_def sint_word_of_int_small)
  have "sts_policy_add acmp now (sp_host p) (sp_port p) 0 acc = \<lparr>sp_host = sp_host p, sp_port = sp_port p, sp_expires = 0\<rparr> # acc"
    using assms(2,3) sts_pos_find(1) [OF assms(1), of "sp_host p" acc] by (simp add: sts_policy_add_def sts_policy_find_def sts_plain_def)
  then show ?thesis by (simp add: sts_load_line_def sts_line_words [OF assms(2)] n Let_def)
qed

lemma sts_load_all:
  assumes "acmp_ok acmp" "\<forall>p \<in> set ps. sts_plain p" "distinct (map (\<lambda>p. host_key (sp_host p)) (ps @ acc))"
  shows "fold (sts_load_line acmp now) (map sts_line ps) acc = rev (filter (\<lambda>p. \<not> (0 < sp_expires p \<and> sp_expires p < now)) ps) @ acc"
  using assms(2,3)
proof (induction ps arbitrary: acc)
  case (Cons p ps)
  then have "sts_load_line acmp now (sts_line p) acc = (if 0 < sp_expires p \<and> sp_expires p < now then acc else p # acc)"
    by (intro sts_load_one [OF assms(1)]) (auto simp: image_iff)
  then show ?case using Cons by auto
qed simp

lemma find_distinct_keys:
  assumes "distinct (map key ps)" "set qs = {p \<in> set ps. Q p}"
  shows "find (\<lambda>p. key p = k) qs = (case find (\<lambda>p. key p = k) ps of None \<Rightarrow> None | Some p \<Rightarrow> if Q p then Some p else None)"
proof (cases "find (\<lambda>p. key p = k) ps")
  case None
  then have "find (\<lambda>p. key p = k) qs = None" using assms(2) by (auto simp: find_None_iff)
  then show ?thesis using None by simp
next
  case (Some p)
  then have p: "p \<in> set ps" "key p = k" by (auto simp: find_Some_iff)
  have u: "q = p" if "q \<in> set ps" "key q = k" for q using that p assms(1) by (auto simp: distinct_map dest: inj_onD)
  show ?thesis
  proof (cases "find (\<lambda>p. key p = k) qs")
    case None
    then show ?thesis using Some p assms(2) by (auto simp: find_None_iff)
  next
    case (Some q)
    then have "q \<in> set qs" "key q = k" by (auto simp: find_Some_iff)
    then show ?thesis using u [of q] assms(2) Some \<open>find (\<lambda>p. key p = k) ps = Some p\<close> by auto
  qed
qed

section \<open>Properties\<close>

text \<open>C15: Policies survive a restart: what the saved file gives back when it is loaded at a later time is, for every host, exactly the policy
  that was in force, with its port and time, unless it was for the session only or has expired; and the list keeps at most one
  policy for a host up to case.\<close>

theorem sts_survives_restart:
  assumes "acmp_ok acmp" "sts_inv ps" "\<forall>p \<in> set ps. sts_plain p" "now \<le> later"
  shows "sts_inv (sts_policy_init acmp later (Some (sts_policy_save now ps)) []) \<and>
     (\<forall>host. sts_state later (sts_policy_init acmp later (Some (sts_policy_save now ps)) []) host =
        (case sts_state now ps host of
           None \<Rightarrow> None
         | Some (port, expires) \<Rightarrow> if expires = 0 \<or> expires < later then None else Some (port, expires)))"
proof -
  let ?saved = "filter (\<lambda>p. sp_expires p \<noteq> 0 \<and> \<not> sp_expires p < now) ps"
  let ?loaded = "rev (filter (\<lambda>p. \<not> (0 < sp_expires p \<and> sp_expires p < later)) ?saved)"
  have d: "distinct (map (\<lambda>p. host_key (sp_host p)) ps)" using assms(2) by (simp add: sts_inv_def)
  have ds: "distinct (map (\<lambda>p. host_key (sp_host p)) (filter P ps))" for P using d by (rule distinct_map_filter)
  have l: "sts_policy_init acmp later (Some (sts_policy_save now ps)) [] = ?loaded"
    using sts_load_all [OF assms(1), of ?saved "[]" later] ds assms(3) by (simp add: sts_policy_init_def sts_policy_save_def sts_load_lines)
  have "distinct (map (\<lambda>p. host_key (sp_host p)) ?loaded)"
    unfolding rev_map [symmetric] distinct_rev by (intro distinct_map_filter d)
  then have inv: "sts_inv ?loaded" using assms(2) by (auto simp: sts_inv_def)
  let ?Q = "\<lambda>p. sp_expires p \<noteq> 0 \<and> \<not> sp_expires p < now \<and> \<not> (0 < sp_expires p \<and> sp_expires p < later)"
  have "set ?loaded = {p \<in> set ps. ?Q p}" by auto
  from find_distinct_keys [OF d this]
  have f: "find (\<lambda>p. host_key (sp_host p) = host_key host) ?loaded =
      (case find (\<lambda>p. host_key (sp_host p) = host_key host) ps of None \<Rightarrow> None | Some p \<Rightarrow> if ?Q p then Some p else None)" for host
    by simp
  have pos: "0 \<le> sp_expires p" if "find P ps = Some p" for P p
    using that assms(3) by (auto simp: find_Some_iff sts_plain_def)
  have "sts_state later ?loaded host =
        (case sts_state now ps host of
           None \<Rightarrow> None
         | Some (port, expires) \<Rightarrow> if expires = 0 \<or> expires < later then None else Some (port, expires))" for host
    unfolding sts_state_def f using assms(4) by (auto split: option.split dest: pos)
  then show ?thesis unfolding l using inv by blast
qed

definition demo_policies :: "sts_policy list" where
  "demo_policies = [\<lparr>sp_host = ''a.net'', sp_port = 6697, sp_expires = 900\<rparr>, \<lparr>sp_host = ''b.net'', sp_port = 6697, sp_expires = 0\<rparr>]"

theorem sts_survives_restart_witness:
  "sts_state 500 (sts_policy_init demo_acmp 500 (Some (sts_policy_save 100 demo_policies)) []) ''A.net'' = Some (6697, 900)"
proof -
  have "acmp_ok demo_acmp" by (simp add: acmp_ok_def demo_acmp_def)
  moreover have "sts_inv demo_policies" "\<forall>p \<in> set demo_policies. sts_plain p" "sts_state 100 demo_policies ''A.net'' = Some (6697, 900)"
    by code_simp+
  ultimately show ?thesis using sts_survives_restart [of demo_acmp demo_policies 100 500] by simp
qed

text \<open>Loading writes the time into the head of the list even when the line names a host that is further down: the third line of
  this file makes the policy of \<open>a\<close> a session policy and gives its time to \<open>b\<close>.\<close>

lemma sts_init_wrong_entry:
  "sts_policy_init demo_acmp 50 (Some (concat (map sts_line
       [\<lparr>sp_host = ''a'', sp_port = 1, sp_expires = 100\<rparr>, \<lparr>sp_host = ''b'', sp_port = 2, sp_expires = 200\<rparr>,
        \<lparr>sp_host = ''a'', sp_port = 3, sp_expires = 300\<rparr>]))) [] =
     [\<lparr>sp_host = ''b'', sp_port = 2, sp_expires = 300\<rparr>, \<lparr>sp_host = ''a'', sp_port = 3, sp_expires = 0\<rparr>]"
  by code_simp

end
