(* ===== verification/Scram.thy ===== *)
theory Scram
  imports Textutil "HOL-Library.Sublist"
begin

text \<open>
  The client side of SCRAM (\<open>src/src/common/scram.c\<close>, RFC 5802): three steps that send a nonce, answer the server's salt and nonce with a
  proof of the password, and check the server's signature. The functions of OpenSSL and the base64 functions of GLib are parameters;
  \<open>crypto_ok\<close> states what is documented of them. The last section sets the client against a server that follows the RFC.
\<close>

section \<open>Sessions\<close>

datatype scram_status = SCRAM_ERROR | SCRAM_IN_PROGRESS | SCRAM_SUCCESS

record scram_session =
  sc_digest :: string
  sc_digest_size :: nat
  sc_username :: string
  sc_password :: string
  client_nonce_b64 :: string
  client_first_message_bare :: string
  salted_password :: string
  auth_message :: string
  sc_error :: "string option"
  sc_step :: int

text \<open>\<open>EVP_get_digestbyname\<close> with \<open>EVP_MD_size\<close>, the return value of \<open>RAND_bytes\<close> with the bytes, the three parts of a digest,
  \<open>HMAC\<close>, \<open>PKCS5_PBKDF2_HMAC\<close>, and the base64 functions.\<close>

record crypto =
  cr_digest :: "string \<Rightarrow> nat option"
  cr_rand :: "nat \<Rightarrow> int \<times> string"
  cr_init :: "string \<Rightarrow> bool"
  cr_update :: "string \<Rightarrow> string \<Rightarrow> bool"
  cr_final :: "string \<Rightarrow> string \<Rightarrow> string option"
  cr_hmac :: "string \<Rightarrow> string \<Rightarrow> string \<Rightarrow> string"
  cr_pbkdf2 :: "string \<Rightarrow> string \<Rightarrow> int \<Rightarrow> string \<Rightarrow> nat \<Rightarrow> string"
  cr_b64 :: "string \<Rightarrow> string"
  cr_unb64 :: "string \<Rightarrow> string"

definition NONCE_LENGTH :: nat where "NONCE_LENGTH = 18"
definition CLIENT_KEY :: string where "CLIENT_KEY = ''Client Key''"
definition SERVER_KEY :: string where "SERVER_KEY = ''Server Key''"

definition scram_session_create :: "crypto \<Rightarrow> string \<Rightarrow> string \<Rightarrow> string \<Rightarrow> scram_session option" where
  "scram_session_create cr digest username password =
     map_option (\<lambda>size.
       \<lparr>sc_digest = digest, sc_digest_size = size, sc_username = username, sc_password = password, client_nonce_b64 = [],
        client_first_message_bare = [], salted_password = [], auth_message = [], sc_error = None, sc_step = 0\<rparr>) (cr_digest cr digest)"

definition create_nonce :: "crypto \<Rightarrow> nat \<Rightarrow> int \<times> string" where
  "create_nonce cr len = cr_rand cr len"

text \<open>The digest of an input: the output, or the text of the error.\<close>

definition create_SHA :: "crypto \<Rightarrow> scram_session \<Rightarrow> string \<Rightarrow> string + string" where
  "create_SHA cr session input =
     (if \<not> cr_init cr (sc_digest session) then Inl ''Message digest initialization failed''
      else if \<not> cr_update cr (sc_digest session) input then Inl ''Message digest update failed''
      else (case cr_final cr (sc_digest session) input of
              None \<Rightarrow> Inl ''Message digest finalization failed''
            | Some out \<Rightarrow> Inr out))"

text \<open>A zeroed buffer of \<open>n\<close> bytes into which \<open>s\<close> is written; \<open>a ^ b\<close> byte by byte.\<close>

definition zeroed :: "nat \<Rightarrow> string \<Rightarrow> string" where
  "zeroed n s = take n (s @ replicate n NUL)"

definition xor_char :: "char \<Rightarrow> char \<Rightarrow> char" where
  "xor_char a b = char_of (uchar a XOR uchar b)"

definition xor_bytes :: "string \<Rightarrow> string \<Rightarrow> string" where
  "xor_bytes a b = map (\<lambda>(x, y). xor_char x y) (zip a b)"

section \<open>The steps\<close>

type_synonym scram_result = "scram_status \<times> string option \<times> scram_session"

definition process_client_first :: "crypto \<Rightarrow> scram_session \<Rightarrow> scram_result" where
  "process_client_first cr session =
     (case create_nonce cr NONCE_LENGTH of (rc, nonce) \<Rightarrow>
        if rc = 0 then (SCRAM_ERROR, None, session\<lparr>sc_error := Some ''Could not create client nonce''\<rparr>)
        else
          (let b64 = cr_b64 cr nonce;
               out = ''n,,n='' @ sc_username session @ '',r='' @ b64
           in (SCRAM_IN_PROGRESS, Some out,
               session\<lparr>client_nonce_b64 := b64, client_first_message_bare := drop 3 out, sc_step := sc_step session + 1\<rparr>)))"

text \<open>\<open>strtoul\<close> into an \<open>unsigned int\<close>.\<close>

definition c_strtoul32 :: "string \<Rightarrow> u32" where
  "c_strtoul32 s = (let n = c_number s in word_of_int (if \<bar>n\<bar> > 2 ^ 64 - 1 then 2 ^ 64 - 1 else n mod 2 ^ 64))"

text \<open>The attributes of the server's first message: the last nonce, salt and iteration count win.\<close>

definition server_param :: "string \<Rightarrow> string option \<times> string option \<times> u32 \<Rightarrow> string option \<times> string option \<times> u32" where
  "server_param p acc =
     (case acc of (nonce, salt, count) \<Rightarrow>
        if take 2 p = ''r='' then (Some (drop 2 p), salt, count)
        else if take 2 p = ''s='' then (nonce, Some (drop 2 p), count)
        else if take 2 p = ''i='' then (nonce, salt, c_strtoul32 (drop 2 p))
        else acc)"

definition server_first_params :: "string \<Rightarrow> (string \<times> string \<times> u32) option" where
  "server_first_params data =
     (let params = g_strsplit data (CHR '','')
      in if length params < 3 then None
         else (case fold server_param params (None, None, 0) of
                 (Some nonce, Some salt, count) \<Rightarrow> if nonce = [] \<or> salt = [] \<or> count = 0 then None else Some (nonce, salt, count)
               | _ \<Rightarrow> None))"

definition process_server_first :: "crypto \<Rightarrow> scram_session \<Rightarrow> string \<Rightarrow> scram_result" where
  "process_server_first cr session data =
     (case server_first_params data of
        None \<Rightarrow> (SCRAM_ERROR, None, session\<lparr>sc_error := Some (''Invalid server-first-message: '' @ data)\<rparr>)
      | Some (nonce, salt, count) \<Rightarrow>
          if length nonce < length (client_nonce_b64 session) \<or>
             take (length (client_nonce_b64 session)) nonce \<noteq> client_nonce_b64 session
          then (SCRAM_ERROR, None, session\<lparr>sc_error := Some (''Invalid server nonce: '' @ nonce)\<rparr>)
          else
            (let size = sc_digest_size session; md = sc_digest session;
                 salted = cr_pbkdf2 cr (sc_password session) (cr_unb64 cr salt) (sint count) md size;
                 final = ''c=biws,r='' @ nonce;
                 auth = client_first_message_bare session @ '','' @ data @ '','' @ final;
                 key = cr_hmac cr md salted CLIENT_KEY;
                 session1 = session\<lparr>salted_password := salted, auth_message := auth\<rparr>
             in case create_SHA cr session1 (zeroed size key) of
                  Inl e \<Rightarrow> (SCRAM_ERROR, None, session1\<lparr>sc_error := Some e\<rparr>)
                | Inr stored_key \<Rightarrow>
                    (let signature = cr_hmac cr md stored_key auth;
                         proof_bytes = xor_bytes key (zeroed size signature)
                     in (SCRAM_IN_PROGRESS, Some (final @ '',p='' @ cr_b64 cr proof_bytes),
                         session1\<lparr>sc_step := sc_step session + 1\<rparr>))))"

definition process_server_final :: "crypto \<Rightarrow> scram_session \<Rightarrow> string \<Rightarrow> scram_status" where
  "process_server_final cr session data =
     (if length data < 3 \<or> (data ! 0 \<noteq> CHR ''v'' \<and> data ! 1 \<noteq> CHR ''='') then SCRAM_ERROR
      else
        (let md = sc_digest session;
             server_key = zeroed (sc_digest_size session) (cr_hmac cr md (salted_password session) SERVER_KEY);
             signature = cr_hmac cr md server_key (auth_message session)
         in if cr_unb64 cr (drop 2 data) = signature then SCRAM_SUCCESS else SCRAM_ERROR))"

definition scram_process :: "crypto \<Rightarrow> scram_session \<Rightarrow> string \<Rightarrow> scram_result" where
  "scram_process cr session input =
     (if sc_step session = 0 then process_client_first cr session
      else if sc_step session = 1 then process_server_first cr session input
      else if sc_step session = 2 then (process_server_final cr session input, None, session)
      else (SCRAM_ERROR, None, session))"

section \<open>A server of RFC 5802\<close>

definition crypto_ok :: "crypto \<Rightarrow> string \<Rightarrow> nat \<Rightarrow> bool" where
  "crypto_ok cr md len \<longleftrightarrow>
     cr_digest cr md = Some len \<and> 0 < len \<and> fst (cr_rand cr NONCE_LENGTH) = 1 \<and> cr_init cr md \<and> (\<forall>s. cr_update cr md s) \<and>
     (\<forall>s. cr_final cr md s \<noteq> None) \<and> (\<forall>k d. length (cr_hmac cr md k d) = len) \<and>
     (\<forall>s. cr_unb64 cr (cr_b64 cr s) = s) \<and> (\<forall>s. CHR '','' \<notin> set (cr_b64 cr s)) \<and> (\<forall>s. s \<noteq> [] \<longrightarrow> cr_b64 cr s \<noteq> [])"

definition hash_of :: "crypto \<Rightarrow> string \<Rightarrow> string \<Rightarrow> string" where
  "hash_of cr md s = the (cr_final cr md s)"

text \<open>What the server keeps of a password.\<close>

record scram_account =
  ac_salt :: string
  ac_count :: nat
  ac_stored_key :: string
  ac_server_key :: string

definition enrol :: "crypto \<Rightarrow> string \<Rightarrow> nat \<Rightarrow> string \<Rightarrow> string \<Rightarrow> nat \<Rightarrow> scram_account" where
  "enrol cr md len password salt count =
     (let salted = cr_pbkdf2 cr password salt (int count) md len
      in \<lparr>ac_salt = salt, ac_count = count, ac_stored_key = hash_of cr md (cr_hmac cr md salted CLIENT_KEY),
          ac_server_key = cr_hmac cr md salted SERVER_KEY\<rparr>)"

definition rfc_client_first :: "string \<Rightarrow> (string \<times> string) option" where
  "rfc_client_first msg =
     (if take 3 msg \<noteq> ''n,,'' then None
      else (case g_strsplit (drop 3 msg) (CHR '','') of
              [u, r] \<Rightarrow> if take 2 u = ''n='' \<and> take 2 r = ''r='' then Some (drop 2 u, drop 2 r) else None
            | _ \<Rightarrow> None))"

definition rfc_server_first :: "crypto \<Rightarrow> scram_account \<Rightarrow> string \<Rightarrow> string" where
  "rfc_server_first cr ac nonce = ''r='' @ nonce @ '',s='' @ cr_b64 cr (ac_salt ac) @ '',i='' @ dec_string (ac_count ac)"

text \<open>The server checks the nonce and the proof against the stored key, and answers with its signature.\<close>

definition rfc_server_final :: "crypto \<Rightarrow> string \<Rightarrow> scram_account \<Rightarrow> string \<Rightarrow> string \<Rightarrow> string \<Rightarrow> string option" where
  "rfc_server_final cr md ac bare nonce msg =
     (case g_strsplit msg (CHR '','') of
        [c, r, p] \<Rightarrow>
          (let auth = bare @ '','' @ rfc_server_first cr ac nonce @ '','' @ c @ '','' @ r;
               key = xor_bytes (cr_unb64 cr (drop 2 p)) (cr_hmac cr md (ac_stored_key ac) auth)
           in if c = ''c=biws'' \<and> r = ''r='' @ nonce \<and> take 2 p = ''p='' \<and> hash_of cr md key = ac_stored_key ac
              then Some (''v='' @ cr_b64 cr (cr_hmac cr md (ac_server_key ac) auth)) else None)
      | _ \<Rightarrow> None)"

section \<open>Lemmas\<close>

lemma xor_char_twice: "xor_char (xor_char a b) b = a"
proof -
  have "take_bit 8 (uchar c) = uchar c" for c by (rule take_bit_nat_eq_self) simp
  then have "take_bit 8 (uchar a XOR uchar b) = uchar a XOR uchar b" by simp
  then have "uchar a XOR uchar b < 256" using take_bit_nat_less_exp [of 8 "uchar a XOR uchar b"] by simp
  then have "xor_char (xor_char a b) b = char_of (uchar a XOR (uchar b XOR uchar b))"
    by (simp only: xor_char_def uchar_char_of xor.assoc)
  then show ?thesis by simp
qed

lemma xor_bytes_twice: "length a \<le> length b \<Longrightarrow> xor_bytes (xor_bytes a b) b = a"
proof (induction a arbitrary: b)
  case (Cons x a)
  then show ?case by (cases b) (auto simp: xor_bytes_def xor_char_twice)
qed (simp add: xor_bytes_def)

lemma zeroed_full: "length s = n \<Longrightarrow> zeroed n s = s"
  by (simp add: zeroed_def)

lemma g_strsplit_three:
  assumes "\<forall>t \<in> {a, b, c}. CHR '','' \<notin> set t"
  shows "g_strsplit (a @ '','' @ b @ '','' @ c) (CHR '','') = [a, b, c]"
  using g_strsplit_join [of "[a, b, c]" "CHR '',''"] assms by simp

text \<open>The client reads the server's first message as it was meant.\<close>

lemma server_first_read:
  assumes "crypto_ok cr md len" "CHR '','' \<notin> set nonce" "nonce \<noteq> []" "ac_salt ac \<noteq> []" "0 < ac_count ac" "ac_count ac < 2 ^ 31"
  shows "server_first_params (rfc_server_first cr ac nonce) = Some (nonce, cr_b64 cr (ac_salt ac), word_of_nat (ac_count ac))"
proof -
  let ?b = "cr_b64 cr (ac_salt ac)" and ?d = "dec_string (ac_count ac)"
  have b: "CHR '','' \<notin> set ?b" "?b \<noteq> []" using assms(1,4) by (auto simp: crypto_ok_def)
  have "CHR '','' \<notin> set ?d"
    using dec_string_digits [of "ac_count ac"] by (auto simp: list_all_iff is_digit_def uchar_def)
  then have sp: "g_strsplit (rfc_server_first cr ac nonce) (CHR '','') = [''r='' @ nonce, ''s='' @ ?b, ''i='' @ ?d]"
    using g_strsplit_three [of "''r='' @ nonce" "''s='' @ ?b" "''i='' @ ?d"] b assms(2) by (simp add: rfc_server_first_def)
  have "c_strtoul32 ?d = word_of_nat (ac_count ac)"
    using assms(6) by (simp add: c_strtoul32_def Let_def c_number_dec_string)
  moreover have "(word_of_nat (ac_count ac) :: u32) \<noteq> 0"
    using assms(5,6) by (simp add: word_of_nat_eq_0_iff nat_dvd_not_less)
  ultimately show ?thesis using b(2) assms(3) by (simp add: server_first_params_def Let_def sp server_param_def)
qed

text \<open>The two ends compute the same key: the proof, with the signature taken off again, is the client key.\<close>

lemma proof_accepted:
  assumes "crypto_ok cr md len" "CHR '','' \<notin> set nonce" "password = pw"
    and "ac = enrol cr md len pw salt count" "auth = bare @ '','' @ rfc_server_first cr ac nonce @ '','' @ ''c=biws,r='' @ nonce"
    and "key = cr_hmac cr md (cr_pbkdf2 cr pw salt (int count) md len) CLIENT_KEY"
  shows "rfc_server_final cr md ac bare nonce
     (''c=biws,r='' @ nonce @ '',p='' @ cr_b64 cr (xor_bytes key (cr_hmac cr md (ac_stored_key ac) auth))) =
       Some (''v='' @ cr_b64 cr (cr_hmac cr md (ac_server_key ac) auth))"
proof -
  let ?p = "''p='' @ cr_b64 cr (xor_bytes key (cr_hmac cr md (ac_stored_key ac) auth))"
  have "CHR '','' \<notin> set ?p" using assms(1) by (simp add: crypto_ok_def)
  then have sp: "g_strsplit (''c=biws,r='' @ nonce @ '','' @ ?p) (CHR '','') = [''c=biws'', ''r='' @ nonce, ?p]"
    using g_strsplit_three [of "''c=biws''" "''r='' @ nonce" ?p] assms(2) by simp
  have "xor_bytes (xor_bytes key (cr_hmac cr md (ac_stored_key ac) auth)) (cr_hmac cr md (ac_stored_key ac) auth) = key"
    using assms(1,6) by (intro xor_bytes_twice) (simp add: crypto_ok_def)
  moreover have "hash_of cr md key = ac_stored_key ac" using assms(4,6) by (simp add: enrol_def Let_def)
  ultimately show ?thesis
    using sp assms(1,5) by (simp add: rfc_server_final_def Let_def crypto_ok_def)
qed

section \<open>Properties\<close>



text \<open>The client's side of an exchange: the answers of the server one after the other, until a step does not ask for another.\<close>

fun scram_run :: "crypto \<Rightarrow> scram_session \<Rightarrow> string list \<Rightarrow> scram_status" where
  "scram_run cr s [] = SCRAM_IN_PROGRESS"
| "scram_run cr s (d # ds) =
     (case scram_process cr s d of (SCRAM_IN_PROGRESS, _, s1) \<Rightarrow> scram_run cr s1 ds | (st, _, _) \<Rightarrow> st)"



section \<open>Examples\<close>

text \<open>Functions that meet the contract, weak as they are: for examples only.\<close>

fun demo_unb64 :: "string \<Rightarrow> string" where
  "demo_unb64 (a # b # _ # _ # s) = char_of (16 * (uchar a - 65) + (uchar b - 65)) # demo_unb64 s"
| "demo_unb64 s = []"

definition demo_b64 :: "string \<Rightarrow> string" where
  "demo_b64 s = concat (map (\<lambda>c. [char_of (65 + uchar c div 16), char_of (65 + uchar c mod 16), CHR ''A'', CHR ''A'']) s)"

definition demo_crypto :: crypto where
  "demo_crypto =
     \<lparr>cr_digest = (\<lambda>md. if md = ''SHA1'' then Some 2 else None), cr_rand = (\<lambda>n. (1, ''x'')), cr_init = (\<lambda>md. True),
      cr_update = (\<lambda>md s. True), cr_final = (\<lambda>md s. Some (take 2 (s @ ''hh''))), cr_hmac = (\<lambda>md k d. take 2 (rev d @ k @ ''mm'')),
      cr_pbkdf2 = (\<lambda>pw salt i md n. take n (pw @ salt)), cr_b64 = demo_b64, cr_unb64 = demo_unb64\<rparr>"

lemma demo_b64_char:
  "char_of (16 * (uchar (char_of (65 + uchar c div 16)) - 65) + (uchar (char_of (65 + uchar c mod 16)) - 65)) = c"
  "char_of (65 + uchar c div 16) \<noteq> CHR '',''" "char_of (65 + uchar c mod 16) \<noteq> CHR '',''"
proof -
  have d: "uchar c div 16 < 16" using uchar_less [of c] by (simp add: less_mult_imp_div_less)
  have u: "uchar (char_of (65 + uchar c div 16)) = 65 + uchar c div 16" "uchar (char_of (65 + uchar c mod 16)) = 65 + uchar c mod 16"
    using d by (simp_all add: uchar_char_of)
  show "char_of (16 * (uchar (char_of (65 + uchar c div 16)) - 65) + (uchar (char_of (65 + uchar c mod 16)) - 65)) = c"
    by (simp add: u)
  have "uchar (CHR '','') = 44" by (simp add: uchar_def)
  then show "char_of (65 + uchar c div 16) \<noteq> CHR '',''" "char_of (65 + uchar c mod 16) \<noteq> CHR '',''"
    using u by (auto dest: arg_cong [where f = uchar])
qed

lemma demo_crypto_ok: "crypto_ok demo_crypto ''SHA1'' 2"
proof -
  have "demo_unb64 (demo_b64 s) = s" for s by (induction s) (simp_all add: demo_b64_def demo_b64_char)
  moreover have "CHR '','' \<notin> set (demo_b64 s)" for s using demo_b64_char by (auto simp: demo_b64_def) metis+
  moreover have "length (take 2 (rev d @ k @ ''mm'')) = 2" for d k :: string
    by (simp only: length_take length_append length_rev list.size)
  moreover have "s \<noteq> [] \<Longrightarrow> demo_b64 s \<noteq> []" for s by (cases s) (simp_all add: demo_b64_def)
  ultimately show ?thesis by (simp add: crypto_ok_def demo_crypto_def del: length_take)
qed


text \<open>The exchange above, seen from the client.\<close>

definition demo_answers :: "string list" where
  "demo_answers = [''+'', ''r=HIAAsrv,s=HDAA,i=9'', ''v=HGAAHCAA'']"


end
