(* ===== verification/Login.thy ===== *)
theory Login
  imports Batch Isupport Sts Scram
begin

text \<open>
  Registration with a server: capabilities (\<open>CAP\<close>), strict transport security, SASL, and persistent sessions (\<open>src/src/common/inbound.c\<close>,
  \<open>src/src/common/persistence.c\<close>, \<open>server_connect\<close> of \<open>src/src/common/server.c\<close>). The build has \<open>USE_OPENSSL\<close> and
  \<open>USE_LIBWEBSOCKETS\<close>. Events for the server tab and calls that leave the model are recorded in order.
\<close>

section \<open>State\<close>

text \<open>The flags \<open>have_...\<close> of a server; three more (\<open>have_namesx\<close>, \<open>have_extjoin\<close>, \<open>have_uhnames\<close>) are fields of \<open>server\<close>, and
  \<open>have_labeled_response\<close> is one of \<open>sendq\<close>.\<close>

datatype cap_flag =
    Have_idmsg | Have_accnotify | Have_server_time | Have_awaynotify | Have_account_tag | Have_batch | Have_message_tags
  | Have_echo_message | Have_chathistory | Have_multiline | Have_event_playback | Have_read_marker | Have_redact
  | Have_account_registration | Have_metadata | Have_channel_rename | Have_oper_tag | Have_pre_away | Have_persistence
  | Have_extended_isupport | Have_sasl

record persistence =
  tok_replay_control :: bool
  tok_profile :: bool
  tok_attach :: bool
  tok_detach :: bool
  tok_list :: bool
  tok_attach_cursor :: bool
  hold_known :: bool
  hold :: bool
  status_known :: bool
  effective :: bool
  attached :: bool
  cursor_sent :: bool
  attach_pending :: bool
  replay_seen :: bool

record login =
  lg_have :: "cap_flag \<Rightarrow> bool"
  ch_between_unsupported :: bool
  ch_suppressed :: bool
  ch_fail_streak :: int
  sasl_mech :: int
  waiting_on_cap :: bool
  waiting_on_sasl :: bool
  sent_capend :: bool
  sts_upgrade_port :: int
  sts_policies :: "sts_policy list"
  use_ssl :: bool
  accept_invalid_cert :: bool
  lg_hostname :: string
  lg_port :: int
  connected :: bool
  connecting :: bool
  recondelay :: bool
  no_login :: bool
  accreg_before_connect :: bool
  accreg_email_required :: bool
  accreg_custom_account :: bool
  accreg_max_password_len :: int
  accreg_min_password_len :: int
  lg_persist :: persistence
  lg_scram :: "scram_session option"
  oauth_access_token :: "string option"
  oauth_token_expires :: int
  oauth_refresh_attempted :: bool

text \<open>What leaves the model: an event of the server tab, a text printed there, closing the connection (with or without a QUIT), opening one
  to a host, port and with or without TLS, storing and refreshing tokens.\<close>

datatype reg_call =
    Rg_Event string "string option list"
  | Rg_Print string
  | Rg_Disconnect bool
  | Rg_Connect string int bool
  | Rg_Save_Tokens
  | Rg_Refresh

record reg =
  rg_login :: login
  rg_serv :: server
  rg_q :: sendq
  rg_calls :: "reg_call list"

text \<open>The clock and the sending side, the comparison functions, whether the connection has TLS (\<open>serv->ssl\<close>), the login data (of the
  network: its user name and whether it uses the global one; \<open>None\<close> without a network), the profile to attach to and the newest stored
  message, the result of \<open>oauth_refresh_token\<close>, and whether an encoding is known.\<close>

record login_env =
  le_net :: net_env
  le_acmp :: "string \<Rightarrow> string \<Rightarrow> int"
  le_ncmp :: "string \<Rightarrow> string \<Rightarrow> nat \<Rightarrow> int"
  le_iconv :: "string \<Rightarrow> bool"
  le_skip :: "char \<Rightarrow> nat"
  le_ssl :: bool
  le_servername :: string
  le_loginmethod :: int
  le_password :: string
  le_network :: "(string option \<times> bool) option"
  le_global_user :: string
  le_crypto :: crypto
  le_profile :: string
  le_cursor :: "string option"
  le_refresh :: bool

definition on_lg :: "(login \<Rightarrow> login) \<Rightarrow> reg \<Rightarrow> reg" where
  "on_lg f r = r\<lparr>rg_login := f (rg_login r)\<rparr>"

definition on_srv :: "(server \<Rightarrow> server) \<Rightarrow> reg \<Rightarrow> reg" where
  "on_srv f r = r\<lparr>rg_serv := f (rg_serv r)\<rparr>"

definition on_q :: "(sendq \<Rightarrow> sendq) \<Rightarrow> reg \<Rightarrow> reg" where
  "on_q f r = r\<lparr>rg_q := f (rg_q r)\<rparr>"

definition call :: "reg_call \<Rightarrow> reg \<Rightarrow> reg" where
  "call c r = r\<lparr>rg_calls := rg_calls r @ [c]\<rparr>"

abbreviation on_persist :: "(persistence \<Rightarrow> persistence) \<Rightarrow> reg \<Rightarrow> reg" where
  "on_persist f \<equiv> on_lg (\<lambda>l. l\<lparr>lg_persist := f (lg_persist l)\<rparr>)"

definition sendf :: "login_env \<Rightarrow> string \<Rightarrow> reg \<Rightarrow> reg" where
  "sendf env s = on_q (tcp_sendf (le_net env) s)"

definition LOGIN_SASL :: int where "LOGIN_SASL = 6"
definition LOGIN_SASLEXTERNAL :: int where "LOGIN_SASLEXTERNAL = 10"
definition LOGIN_SASL_SCRAM_SHA_1 :: int where "LOGIN_SASL_SCRAM_SHA_1 = 11"
definition LOGIN_SASL_SCRAM_SHA_256 :: int where "LOGIN_SASL_SCRAM_SHA_256 = 12"
definition LOGIN_SASL_SCRAM_SHA_512 :: int where "LOGIN_SASL_SCRAM_SHA_512 = 13"
definition LOGIN_SASL_OAUTHBEARER :: int where "LOGIN_SASL_OAUTHBEARER = 14"

definition MECH_PLAIN :: int where "MECH_PLAIN = 0"
definition MECH_EXTERNAL :: int where "MECH_EXTERNAL = 1"
definition MECH_SCRAM_SHA_1 :: int where "MECH_SCRAM_SHA_1 = 2"
definition MECH_SCRAM_SHA_256 :: int where "MECH_SCRAM_SHA_256 = 3"
definition MECH_SCRAM_SHA_512 :: int where "MECH_SCRAM_SHA_512 = 4"
definition MECH_OAUTHBEARER :: int where "MECH_OAUTHBEARER = 5"

definition sasl_mechanisms :: "string list" where
  "sasl_mechanisms = [''PLAIN'', ''EXTERNAL'', ''SCRAM-SHA-1'', ''SCRAM-SHA-256'', ''SCRAM-SHA-512'', ''OAUTHBEARER'']"

lemmas login_consts =
  LOGIN_SASL_def LOGIN_SASLEXTERNAL_def LOGIN_SASL_SCRAM_SHA_1_def LOGIN_SASL_SCRAM_SHA_256_def LOGIN_SASL_SCRAM_SHA_512_def
  LOGIN_SASL_OAUTHBEARER_def MECH_PLAIN_def MECH_EXTERNAL_def MECH_SCRAM_SHA_1_def MECH_SCRAM_SHA_256_def MECH_SCRAM_SHA_512_def
  MECH_OAUTHBEARER_def

section \<open>Persistent sessions\<close>

definition persistence_print :: "login_env \<Rightarrow> string \<Rightarrow> reg \<Rightarrow> reg" where
  "persistence_print env msg = call (Rg_Event ''XP_TE_SERVTEXT'' [Some msg, Some (le_servername env)])"

definition value_is_on :: "(string \<Rightarrow> string \<Rightarrow> int) \<Rightarrow> string option \<Rightarrow> bool" where
  "value_is_on acmp value = (case value of None \<Rightarrow> False | Some v \<Rightarrow> v = ''1'' \<or> acmp v ''on'' = 0 \<or> acmp v ''true'' = 0)"

definition persistence_token :: "login_env \<Rightarrow> string \<Rightarrow> persistence \<Rightarrow> persistence" where
  "persistence_token env token p =
     (let tok = persistence_strip_namespace (le_ncmp env) token; is = (\<lambda>s. le_acmp env tok s = 0)
      in if tok = [] then p
         else if is ''replay-control'' then p\<lparr>tok_replay_control := True\<rparr>
         else if is ''profile'' then p\<lparr>tok_profile := True\<rparr>
         else if is ''attach'' then p\<lparr>tok_attach := True\<rparr>
         else if is ''detach'' then p\<lparr>tok_detach := True\<rparr>
         else if is ''list'' then p\<lparr>tok_list := True\<rparr>
         else if is ''attach-cursor'' then p\<lparr>tok_attach_cursor := True\<rparr>
         else p)"

definition persistence_parse_cap_value :: "login_env \<Rightarrow> string \<Rightarrow> persistence \<Rightarrow> persistence" where
  "persistence_parse_cap_value env value p =
     fold (persistence_token env) (g_strsplit value (CHR '',''))
       (p\<lparr>tok_replay_control := False, tok_profile := False, tok_attach := False, tok_detach := False, tok_list := False,
          tok_attach_cursor := False\<rparr>)"

definition PERSISTENCE_MAX_CURSOR_LEN :: nat where "PERSISTENCE_MAX_CURSOR_LEN = 256"

definition persistence_send_attach :: "login_env \<Rightarrow> reg \<Rightarrow> reg" where
  "persistence_send_attach env r =
     (let p = lg_persist (rg_login r)
      in if \<not> lg_have (rg_login r) Have_persistence then r
         else if le_profile env = [] then r
         else if \<exists>c \<in> set (le_profile env). c = CHR '' '' \<or> c = CHR 0x0D \<or> c = CHR 0x0A then r
         else if attached p then r
         else
           (let cursor = (if tok_attach_cursor p
                          then (case le_cursor env of
                                  Some c \<Rightarrow> if length c > PERSISTENCE_MAX_CURSOR_LEN then None else Some c
                                | None \<Rightarrow> None)
                          else None)
            in on_persist (\<lambda>p. p\<lparr>attached := True, cursor_sent := (cursor \<noteq> None), attach_pending := True\<rparr>)
                 (sendf env (''PERSISTENCE ATTACH '' @ le_profile env @ (case cursor of None \<Rightarrow> [] | Some c \<Rightarrow> '' '' @ c) @ crlf) r)))"

definition persistence_server_drives_replay :: "persistence \<Rightarrow> bool" where
  "persistence_server_drives_replay p \<longleftrightarrow> attached p \<and> cursor_sent p \<and> \<not> replay_seen p"

definition persistence_registration_complete :: "reg \<Rightarrow> reg" where
  "persistence_registration_complete = on_persist (\<lambda>p. p\<lparr>attach_pending := False\<rparr>)"

definition PERSISTENCE_MAX_WORDS :: nat where "PERSISTENCE_MAX_WORDS = 8"

text \<open>The words of a reply, each with the arguments from there on.\<close>

fun persistence_split :: "nat \<Rightarrow> string \<Rightarrow> (string \<times> string) list" where
  "persistence_split 0 s = []"
| "persistence_split (Suc n) s =
     (let p = dropWhile (\<lambda>c. c = CHR '' '') s
      in if p = [] then []
         else if hd p = CHR '':'' then [(tl p, tl p)]
         else (takeWhile (\<lambda>c. c \<noteq> CHR '' '') p, p) # persistence_split n (drop 1 (dropWhile (\<lambda>c. c \<noteq> CHR '' '') p)))"

text \<open>The text shown for a reply with the words \<open>w\<close>.\<close>

definition persistence_reply_text :: "(string \<Rightarrow> string \<Rightarrow> int) \<Rightarrow> string \<Rightarrow> (string \<times> string) list \<Rightarrow> string" where
  "persistence_reply_text acmp args ws =
     (let w = (\<lambda>i. fst (ws ! i)); n = length ws; verb = (\<lambda>s. acmp (w 0) s = 0); is = (\<lambda>s. acmp (w 1) s = 0); rest = (\<lambda>i. snd (ws ! i))
      in if verb ''STATUS'' \<and> n \<ge> 2
         then (if n \<ge> 3 then ''Persistence: preference '' @ w 1 @ '', effective '' @ w 2 else ''Persistence: effective '' @ w 1)
         else if verb ''SET'' \<and> n \<ge> 2 then ''Persistence: preference set to '' @ w 1
         else if verb ''REPLAY'' \<and> n \<ge> 4 \<and> is ''STATUS'' then ''Persistence replay: preference '' @ w 2 @ '', effective '' @ w 3
         else if verb ''REPLAY'' \<and> n \<ge> 3 \<and> is ''SET'' then ''Persistence replay: preference set to '' @ w 2
         else if verb ''PROFILE'' \<and> n \<ge> 2 \<and> is ''ENDOFLIST'' then ''Persistence: end of profile list''
         else if verb ''PROFILE'' \<and> n \<ge> 3 \<and> is ''CREATED''
         then ''Persistence: profile '' @ w 2 @ '' created ('' @ (if n \<ge> 4 then rest 3 else ''parent=default'') @ '')''
         else if verb ''PROFILE'' \<and> n \<ge> 3 \<and> is ''DELETED'' then ''Persistence: profile '' @ w 2 @ '' deleted''
         else if verb ''PROFILE'' \<and> n \<ge> 4 \<and> is ''RENAMED'' then ''Persistence: profile '' @ w 2 @ '' renamed to '' @ w 3
         else if verb ''PROFILE'' \<and> n = 2 then ''Persistence: profile '' @ w 1
         else if verb ''PROFILE'' \<and> n \<ge> 3 \<and> CHR ''='' \<in> set (w 2) then ''Persistence: profile '' @ w 1 @ '' ('' @ rest 2 @ '')''
         else if verb ''PROFILE'' \<and> n \<ge> 4 then ''Persistence: profile '' @ w 1 @ '': '' @ w 2 @ '' = '' @ w 3
         else if verb ''PROFILE'' \<and> n = 3 then ''Persistence: profile '' @ w 1 @ '': '' @ w 2 @ '' unset''
         else if verb ''ATTACH'' \<and> n \<ge> 2 then ''Persistence: attached to profile '' @ w 1
         else if verb ''DETACH'' \<and> n \<ge> 2 \<and> is ''OK'' then ''Persistence: detached, the session was released''
         else if verb ''DETACH'' \<and> n \<ge> 2 \<and> is ''NOSESSION'' then ''Persistence: no session to detach''
         else ''Persistence: '' @ args)"

text \<open>Two of the replies change the state.\<close>

definition persistence_handle_reply :: "login_env \<Rightarrow> string \<Rightarrow> reg \<Rightarrow> reg" where
  "persistence_handle_reply env args0 r =
     (let args = dropWhile (\<lambda>c. c = CHR '' '') args0; ws = persistence_split PERSISTENCE_MAX_WORDS args; acmp = le_acmp env
      in if ws = [] then r
         else persistence_print env (persistence_reply_text acmp args ws)
           (if acmp (fst (ws ! 0)) ''STATUS'' = 0 \<and> length ws \<ge> 2
            then on_persist (\<lambda>p. p\<lparr>status_known := True,
                   effective := value_is_on acmp (Some (fst (ws ! (if length ws \<ge> 3 then 2 else 1))))\<rparr>) r
            else if acmp (fst (ws ! 0)) ''ATTACH'' = 0 \<and> length ws \<ge> 2 then on_persist (\<lambda>p. p\<lparr>attach_pending := False\<rparr>) r
            else r))"

definition persistence_handle_fail :: "login_env \<Rightarrow> string option \<Rightarrow> string option \<Rightarrow> string option \<Rightarrow> reg \<Rightarrow> reg" where
  "persistence_handle_fail env code context_opt txt r =
     (let bare = (case code of None \<Rightarrow> [] | Some c \<Rightarrow> persistence_strip_namespace (le_ncmp env) c); is = (\<lambda>s. le_acmp env bare s = 0);
          t = (case txt of None \<Rightarrow> [] | Some t \<Rightarrow> t);
          gate = (\<lambda>p. if \<not> attach_pending p then p
                    else (if is ''CURSOR_UNKNOWN'' then p\<lparr>cursor_sent := False\<rparr>
                          else if is ''ACCOUNT_REQUIRED'' \<or> is ''INVALID_PARAMETERS'' then p\<lparr>attached := False, cursor_sent := False\<rparr>
                          else p)\<lparr>attach_pending := False\<rparr>)
      in persistence_print env
           (case context_opt of
              Some (c # cs) \<Rightarrow> ''Persistence error '' @ bare @ '' ('' @ (c # cs) @ ''): '' @ t
            | _ \<Rightarrow> ''Persistence error '' @ bare @ '': '' @ t)
           (on_persist gate r))"

text \<open>A notification about a key below the prefix.\<close>

definition persistence_handle_metadata :: "login_env \<Rightarrow> string option \<Rightarrow> string \<Rightarrow> string option \<Rightarrow> reg \<Rightarrow> reg" where
  "persistence_handle_metadata env target key val r =
     (let ours = (case target of None \<Rightarrow> True | Some t \<Rightarrow> t = ''*'' \<or> p_cmp (rg_serv r) t (my_nick (rg_serv r)) = 0);
          p = lg_persist (rg_login r); known = (val \<noteq> None); on = value_is_on (le_acmp env) val; tg = (case target of None \<Rightarrow> [] | Some t \<Rightarrow> t)
      in if ours \<and> le_acmp env key ''hold'' = 0
         then (if known = hold_known p \<and> on = hold p then r
               else persistence_print env
                 (if \<not> known then ''Persistence: hold preference cleared, the server default applies''
                  else if on then ''Persistence: the server is holding this session across disconnects''
                  else ''Persistence: the server is not holding this session'')
                 (on_persist (\<lambda>p. p\<lparr>hold_known := known, hold := on\<rparr>) r))
         else persistence_print env
           (case val of
              Some v \<Rightarrow> if ours then ''Persistence: '' @ key @ '' = '' @ v else ''Persistence ['' @ tg @ '']: '' @ key @ '' = '' @ v
            | None \<Rightarrow> if ours then ''Persistence: '' @ key @ '' unset'' else ''Persistence ['' @ tg @ '']: '' @ key @ '' unset'') r)"

definition no_persistence :: persistence where
  "no_persistence =
     \<lparr>tok_replay_control = False, tok_profile = False, tok_attach = False, tok_detach = False, tok_list = False, tok_attach_cursor = False,
      hold_known = False, hold = False, status_known = False, effective = False, attached = False, cursor_sent = False,
      attach_pending = False, replay_seen = False\<rparr>"

definition persistence_reset :: "reg \<Rightarrow> reg" where
  "persistence_reset = on_lg (\<lambda>l. l\<lparr>lg_persist := no_persistence, lg_have := (lg_have l)(Have_persistence := False)\<rparr>)"

section \<open>Connecting\<close>

text \<open>\<open>server_set_defaults\<close> on the registration.\<close>

definition login_defaults :: "login \<Rightarrow> login" where
  "login_defaults l =
     l\<lparr>lg_scram := None, sasl_mech := MECH_PLAIN, sent_capend := False, oauth_refresh_attempted := False,
       lg_have := (lg_have l)(Have_awaynotify := False, Have_idmsg := False, Have_accnotify := False, Have_account_tag := False,
         Have_server_time := False, Have_sasl := False)\<rparr>"

text \<open>\<open>sq_end_of_motd\<close> is the copy of \<open>end_of_motd\<close> that the queue reads.\<close>

definition queue_defaults :: "sendq \<Rightarrow> sendq" where
  "queue_defaults q = q\<lparr>sq_end_of_motd := False, stale_sweep_timer := False, pending_labels := [], active_batches := []\<rparr>"

text \<open>The part of \<open>server_disconnect\<close> and \<open>server_cleanup\<close> on this state: an attempt that is under way is stopped; what was open is closed.\<close>

definition login_disconnect :: "bool \<Rightarrow> reg \<Rightarrow> reg" where
  "login_disconnect quit r =
     (let l = rg_login r; r1 = call (Rg_Disconnect (quit \<and> connected l)) r
      in if connecting l then on_lg (\<lambda>l. l\<lparr>connecting := False\<rparr>) r1
         else if connected l then
           persistence_reset (on_lg (\<lambda>l. l\<lparr>connected := False, no_login := False\<rparr>)
             (on_srv (\<lambda>s. s\<lparr>end_of_motd := False\<rparr>) (on_q (\<lambda>q. server_flush_queue (queue_defaults q)) r1)))
         else if recondelay l then
           persistence_reset (on_lg (\<lambda>l. l\<lparr>recondelay := False, no_login := False\<rparr>) (on_q server_flush_queue r1))
         else r1)"

text \<open>The name asked for and the name as it is kept; a policy for the host enforces TLS on its port.\<close>

definition open_connection :: "login_env \<Rightarrow> string \<Rightarrow> string \<Rightarrow> int \<Rightarrow> bool \<Rightarrow> reg \<Rightarrow> reg" where
  "open_connection env hostname host port skip_login r =
     (if hostname = [] then r
      else
        (let (enforced, r1) =
               (if use_ssl (rg_login r) then (None, r)
                else case sts_policy_check (le_acmp env) (ne_now (le_net env)) hostname (sts_policies (rg_login r)) of
                       (found, ps) \<Rightarrow> (found, on_lg (\<lambda>l. l\<lparr>sts_policies := ps\<rparr>) r));
             r2 = (case enforced of
                     None \<Rightarrow> r1
                   | Some p \<Rightarrow> on_lg (\<lambda>l. l\<lparr>use_ssl := True, accept_invalid_cert := False\<rparr>)
                       (call (Rg_Event ''XP_TE_SERVTEXT'' [Some ''STS policy active - enforcing TLS connection'']) r1));
             port1 = (case enforced of None \<Rightarrow> port | Some p \<Rightarrow> p);
             port2 = (if port1 < 1 \<or> port1 > 65535 then (if use_ssl (rg_login r2) then 6697 else 6667) else port1);
             l2 = rg_login r2;
             r3 = (if connected l2 \<or> connecting l2 \<or> recondelay l2 then login_disconnect True r2 else r2)
         in call (Rg_Connect host port2 (use_ssl (rg_login r3)))
              (on_lg (\<lambda>l. (login_defaults l)\<lparr>lg_hostname := host, connecting := True, lg_port := port2, no_login := skip_login\<rparr>)
                (on_srv (server_set_defaults (le_acmp env) (le_iconv env))
                  (on_q (\<lambda>q. server_flush_queue (queue_defaults q)) (call (Rg_Event ''XP_TE_SERVERLOOKUP'' [Some hostname]) r3))))))"

text \<open>A name that is not the kept one is copied; one that does not fit is cut.\<close>

definition server_connect :: "login_env \<Rightarrow> string \<Rightarrow> int \<Rightarrow> bool \<Rightarrow> reg \<Rightarrow> reg option" where
  "server_connect env hostname port skip_login r =
     (if hostname = [] \<or> hostname = lg_hostname (rg_login r) then Some (open_connection env hostname hostname port skip_login r)
      else do {
        host \<leftarrow> safe_strcpy (le_skip env) hostname 128;
        Some (open_connection env hostname host port skip_login r)
      })"

section \<open>Capabilities\<close>

definition set_flag :: "cap_flag \<Rightarrow> bool \<Rightarrow> reg \<Rightarrow> reg" where
  "set_flag f b = on_lg (\<lambda>l. l\<lparr>lg_have := (lg_have l)(f := b)\<rparr>)"

text \<open>The mechanism that goes with the login method; else the mechanism stays.\<close>

definition method_mech :: "int \<Rightarrow> int \<Rightarrow> int" where
  "method_mech lm mech =
     (if lm = LOGIN_SASLEXTERNAL then MECH_EXTERNAL
      else if lm = LOGIN_SASL_SCRAM_SHA_1 then MECH_SCRAM_SHA_1
      else if lm = LOGIN_SASL_SCRAM_SHA_256 then MECH_SCRAM_SHA_256
      else if lm = LOGIN_SASL_SCRAM_SHA_512 then MECH_SCRAM_SHA_512
      else if lm = LOGIN_SASL_OAUTHBEARER then MECH_OAUTHBEARER
      else mech)"

text \<open>Capabilities that are only a flag.\<close>

definition plain_caps :: "(string \<times> cap_flag) list" where
  "plain_caps =
     [(''away-notify'', Have_awaynotify), (''account-tag'', Have_account_tag), (''batch'', Have_batch), (''message-tags'', Have_message_tags),
      (''echo-message'', Have_echo_message)]"

definition draft_caps :: "(string \<times> cap_flag) list" where
  "draft_caps =
     [(''draft/multiline'', Have_multiline), (''draft/event-playback'', Have_event_playback), (''draft/read-marker'', Have_read_marker),
      (''draft/message-redaction'', Have_redact), (''draft/account-registration'', Have_account_registration),
      (''draft/metadata-2'', Have_metadata), (''draft/channel-rename'', Have_channel_rename), (''draft/oper-tag'', Have_oper_tag),
      (''draft/pre-away'', Have_pre_away)]"

text \<open>One extension of an acknowledged or withdrawn list.\<close>

definition toggle_cap :: "login_env \<Rightarrow> bool \<Rightarrow> string \<Rightarrow> reg \<Rightarrow> reg" where
  "toggle_cap env enable ext r =
     (if ext = ''solanum.chat/identify-msg'' then set_flag Have_idmsg enable r
      else if ext = ''multi-prefix'' then on_srv (\<lambda>s. s\<lparr>have_namesx := enable\<rparr>) r
      else if ext = ''account-notify'' then set_flag Have_accnotify enable r
      else if ext = ''extended-join'' then on_srv (\<lambda>s. s\<lparr>have_extjoin := enable\<rparr>) r
      else if ext = ''userhost-in-names'' then on_srv (\<lambda>s. s\<lparr>have_uhnames := enable\<rparr>) r
      else if ext \<in> {''server-time'', ''znc.in/server-time'', ''znc.in/server-time-iso''} then set_flag Have_server_time enable r
      else (case map_of plain_caps ext of
        Some f \<Rightarrow> set_flag f enable r
      | None \<Rightarrow>
          if ext = ''labeled-response'' then on_q (\<lambda>q. q\<lparr>have_labeled_response := enable\<rparr>) r
          else if ext = ''draft/chathistory'' then
            on_lg (\<lambda>l. if enable then l\<lparr>ch_between_unsupported := False, ch_suppressed := False, ch_fail_streak := 0\<rparr> else l)
              (set_flag Have_chathistory enable r)
          else (case map_of draft_caps ext of
            Some f \<Rightarrow> set_flag f enable r
          | None \<Rightarrow>
              if persistence_is_bare_name (le_ncmp env) ext then set_flag Have_persistence enable r
              else if ext = ''draft/extended-isupport'' then
                (let r1 = set_flag Have_extended_isupport enable r
                 in if enable then on_q (tcp_send_len (le_net env) (''ISUPPORT'' @ crlf)) r1 else r1)
              else if ext = ''sasl'' then
                (let r1 = set_flag Have_sasl enable r
                 in if enable
                    then (let mech = method_mech (le_loginmethod env) (sasl_mech (rg_login r1))
                          in sendf env (''AUTHENTICATE '' @ sasl_mechanisms ! nat mech @ crlf) (on_lg (\<lambda>l. l\<lparr>sasl_mech := mech\<rparr>) r1))
                    else r1)
              else r)))"

definition inbound_toggle_caps :: "login_env \<Rightarrow> string \<Rightarrow> bool \<Rightarrow> reg \<Rightarrow> reg" where
  "inbound_toggle_caps env exts enable = fold (toggle_cap env enable) (g_strsplit exts (CHR '' ''))"

definition inbound_cap_ack :: "login_env \<Rightarrow> string \<Rightarrow> string \<Rightarrow> reg \<Rightarrow> reg" where
  "inbound_cap_ack env nick exts r = inbound_toggle_caps env exts True (call (Rg_Event ''XP_TE_CAPACK'' [Some nick, Some exts]) r)"

definition inbound_cap_del :: "login_env \<Rightarrow> string \<Rightarrow> string \<Rightarrow> reg \<Rightarrow> reg" where
  "inbound_cap_del env nick exts r = inbound_toggle_caps env exts False (call (Rg_Event ''XP_TE_CAPDEL'' [Some nick, Some exts]) r)"

definition supported_caps :: "string list" where
  "supported_caps =
     [''multi-prefix'', ''away-notify'', ''account-notify'', ''extended-join'', ''server-time'', ''userhost-in-names'', ''cap-notify'',
      ''chghost'', ''setname'', ''invite-notify'', ''account-tag'', ''extended-monitor'', ''batch'', ''message-tags'', ''echo-message'',
      ''labeled-response'', ''draft/chathistory'', ''draft/multiline'', ''draft/event-playback'', ''draft/read-marker'',
      ''draft/message-redaction'', ''draft/account-registration'', ''draft/metadata-2'', ''draft/channel-rename'', ''draft/pre-away'',
      ''draft/oper-tag'', ''draft/persistence'', ''znc.in/server-time-iso'', ''znc.in/server-time'', ''twitch.tv/membership'',
      ''solanum.chat/identify-msg'', ''draft/extended-isupport'']"

text \<open>The first mechanism of the list that the login method can use.\<close>

definition get_supported_mech :: "int \<Rightarrow> string \<Rightarrow> int" where
  "get_supported_mech lm mech_list =
     (let mechs = g_strsplit mech_list (CHR '',''); pick = (\<lambda>name mech. if name \<in> set mechs then mech else - 1)
      in if lm = LOGIN_SASLEXTERNAL then pick ''EXTERNAL'' MECH_EXTERNAL
         else if lm = LOGIN_SASL_SCRAM_SHA_1 then pick ''SCRAM-SHA-1'' MECH_SCRAM_SHA_1
         else if lm = LOGIN_SASL_SCRAM_SHA_256 then pick ''SCRAM-SHA-256'' MECH_SCRAM_SHA_256
         else if lm = LOGIN_SASL_SCRAM_SHA_512 then pick ''SCRAM-SHA-512'' MECH_SCRAM_SHA_512
         else if lm = LOGIN_SASL_OAUTHBEARER then pick ''OAUTHBEARER'' MECH_OAUTHBEARER
         else pick ''PLAIN'' MECH_PLAIN)"

definition wants_sasl :: "login_env \<Rightarrow> bool" where
  "wants_sasl env \<longleftrightarrow>
     (le_loginmethod env \<in> {LOGIN_SASL, LOGIN_SASL_SCRAM_SHA_1, LOGIN_SASL_SCRAM_SHA_256, LOGIN_SASL_SCRAM_SHA_512} \<and> le_password env \<noteq> []) \<or>
     le_loginmethod env \<in> {LOGIN_SASLEXTERNAL, LOGIN_SASL_OAUTHBEARER}"

definition sts_token :: "string \<Rightarrow> int \<times> int \<Rightarrow> int \<times> int" where
  "sts_token tok pd =
     (if has_prefix_str tok ''port='' then (c_atoi (drop 5 tok), snd pd)
      else if has_prefix_str tok ''duration='' then (fst pd, c_atoi (drop 9 tok))
      else pd)"

definition cap_sts :: "login_env \<Rightarrow> string \<Rightarrow> reg \<Rightarrow> reg" where
  "cap_sts env value r =
     (let (port, duration) = fold sts_token (g_strsplit value (CHR '','')) (0, 0)
      in if port \<le> 0 then r
         else
           (let r1 = on_lg (\<lambda>l. l\<lparr>sts_policies := sts_policy_add (le_acmp env) (ne_now (le_net env)) (lg_hostname l) port duration (sts_policies l)\<rparr>) r
            in if le_ssl env then r1
               else call (Rg_Event ''XP_TE_SERVTEXT'' [Some ''STS policy received - upgrading to TLS''])
                      (on_lg (\<lambda>l. l\<lparr>sts_upgrade_port := port\<rparr>) r1)))"

definition accreg_token :: "string \<Rightarrow> login \<Rightarrow> login" where
  "accreg_token tok l =
     (if tok = ''before-connect'' then l\<lparr>accreg_before_connect := True\<rparr>
      else if tok = ''email-required'' then l\<lparr>accreg_email_required := True\<rparr>
      else if tok = ''custom-account-name'' then l\<lparr>accreg_custom_account := True\<rparr>
      else if has_prefix_str tok ''max-password-length='' then l\<lparr>accreg_max_password_len := c_atoi (drop 20 tok)\<rparr>
      else if has_prefix_str tok ''min-password-length='' then l\<lparr>accreg_min_password_len := c_atoi (drop 20 tok)\<rparr>
      else l)"

text \<open>What the value of an extension that is requested all the same tells.\<close>

definition cap_value :: "login_env \<Rightarrow> string \<Rightarrow> string \<Rightarrow> reg \<Rightarrow> reg" where
  "cap_value env ext value r =
     (let toks = g_strsplit value (CHR '','');
          r1 = (if ext = ''draft/account-registration'' then on_lg (fold accreg_token toks) r else r);
          r2 = (if persistence_is_bare_name (le_ncmp env) ext then on_persist (persistence_parse_cap_value env value) r1 else r1)
      in if ext = ''draft/multiline'' then on_srv (fold multiline_token toks) r2 else r2)"

text \<open>One offered extension: the text of the request so far, whether anything is wanted, and the state.\<close>

definition cap_offer :: "login_env \<Rightarrow> string \<Rightarrow> string \<times> bool \<times> reg \<Rightarrow> string \<times> bool \<times> reg" where
  "cap_offer env offered = (\<lambda>(buffer, want_cap, r).
     let ext = takeWhile (\<lambda>c. c \<noteq> CHR ''='') offered;
         value = (if CHR ''='' \<in> set offered then Some (tl (dropWhile (\<lambda>c. c \<noteq> CHR ''='') offered)) else None)
     in if ext = ''sasl'' \<and> wants_sasl env
        then (let mech = (case value of None \<Rightarrow> sasl_mech (rg_login r) | Some v \<Rightarrow> get_supported_mech (le_loginmethod env) v)
              in if value \<noteq> None \<and> mech = - 1 then (buffer, want_cap, r)
                 else (g_strlcat 500 buffer ''sasl '', True, on_lg (\<lambda>l. l\<lparr>sasl_mech := mech, waiting_on_sasl := True\<rparr>) r))
        else if ext = ''sts'' \<and> value \<noteq> None then (buffer, want_cap, cap_sts env (the value) r)
        else
          (let r1 = (case value of None \<Rightarrow> r | Some v \<Rightarrow> cap_value env ext v r)
           in (fold (\<lambda>x b. if ext = x then g_strlcat 500 (g_strlcat 500 b ext) '' '' else b) supported_caps buffer,
               want_cap \<or> ext \<in> set supported_caps, r1)))"

text \<open>The connection is closed and opened again with TLS on the port of the policy.\<close>

definition sts_reconnect :: "login_env \<Rightarrow> reg \<Rightarrow> reg" where
  "sts_reconnect env r =
     (let port = sts_upgrade_port (rg_login r)
      in open_connection env (lg_hostname (rg_login r)) (lg_hostname (rg_login r)) port False
           (login_disconnect False
             (on_lg (\<lambda>l. l\<lparr>sts_upgrade_port := 0, sent_capend := True, use_ssl := True, accept_invalid_cert := False, lg_port := port\<rparr>) r)))"

definition send_cap_end :: "login_env \<Rightarrow> reg \<Rightarrow> reg" where
  "send_cap_end env r = on_q (tcp_send_len (le_net env) (''CAP END'' @ crlf)) (on_lg (\<lambda>l. l\<lparr>sent_capend := True\<rparr>) r)"

definition g_strchomp :: "string \<Rightarrow> string" where
  "g_strchomp s = rev (dropWhile is_space (rev s))"

text \<open>A list that continues starts with an asterisk.\<close>

definition cap_list_text :: "string \<Rightarrow> string" where
  "cap_list_text exts =
     (if has_prefix_str exts ''* '' then (if chd (drop 2 exts) = CHR '':'' then drop 3 exts else drop 2 exts) else exts)"

definition inbound_cap_ls :: "login_env \<Rightarrow> string \<Rightarrow> string \<Rightarrow> reg \<Rightarrow> reg" where
  "inbound_cap_ls env nick exts r =
     (let text = cap_list_text exts;
          r1 = call (Rg_Event ''XP_TE_CAPLIST'' [Some nick, Some text]) (on_lg (\<lambda>l. l\<lparr>waiting_on_cap := has_prefix_str exts ''* ''\<rparr>) r);
          (buffer, want_cap, r2) = fold (cap_offer env) (g_strsplit text (CHR '' '')) (''CAP REQ :'', False, r1);
          r3 = (if want_cap
                then sendf env (g_strchomp buffer @ crlf) (call (Rg_Event ''XP_TE_CAPREQ'' [Some (drop 9 buffer)]) r2) else r2)
      in if waiting_on_sasl (rg_login r3) \<or> waiting_on_cap (rg_login r3) then r3
         else if sts_upgrade_port (rg_login r3) > 0
         then sts_reconnect env (call (Rg_Event ''XP_TE_SERVTEXT'' [Some ''Reconnecting with TLS due to STS policy...'']) r3)
         else send_cap_end env r3)"

definition inbound_cap_nak :: "login_env \<Rightarrow> string \<Rightarrow> reg \<Rightarrow> reg" where
  "inbound_cap_nak env exts r =
     (let r1 = (if ''sasl'' \<in> set (g_strsplit exts (CHR '' '')) then on_lg (\<lambda>l. l\<lparr>waiting_on_sasl := False\<rparr>) r else r); l = rg_login r1
      in if waiting_on_cap l \<or> waiting_on_sasl l \<or> sent_capend l then r1
         else if sts_upgrade_port l > 0 then sts_reconnect env r1
         else send_cap_end env r1)"

definition inbound_cap_list :: "string \<Rightarrow> string \<Rightarrow> reg \<Rightarrow> reg" where
  "inbound_cap_list nick exts = call (Rg_Event ''XP_TE_CAPACK'' [Some nick, Some (cap_list_text exts)])"

section \<open>SASL\<close>

text \<open>The payload in lines of at most 400 bytes; a last line of exactly 400 bytes is followed by an empty one.\<close>

function auth_chunks :: "string \<Rightarrow> string" where
  "auth_chunks s =
     (if s = [] then []
      else let k = min 400 (length s) in ''AUTHENTICATE '' @ take k s @ crlf @ auth_chunks (drop k s))"
  by pat_completeness auto
termination
  by (relation "measure length") (auto simp: min_def)

declare auth_chunks.simps [simp del]

definition sasl_send_authenticate :: "login_env \<Rightarrow> string \<Rightarrow> reg \<Rightarrow> reg" where
  "sasl_send_authenticate env encoded =
     on_q (tcp_send_len (le_net env)
       (auth_chunks encoded @ (if length encoded mod 400 = 0 then ''AUTHENTICATE +'' @ crlf else [])))"

definition encode_sasl_pass_plain :: "crypto \<Rightarrow> string \<Rightarrow> string \<Rightarrow> string" where
  "encode_sasl_pass_plain cr user pass = cr_b64 cr (user @ [NUL] @ user @ [NUL] @ pass)"

definition plain_authenticate :: "login_env \<Rightarrow> string \<Rightarrow> string \<Rightarrow> reg \<Rightarrow> reg" where
  "plain_authenticate env user password = sasl_send_authenticate env (encode_sasl_pass_plain (le_crypto env) user password)"

definition oauth_encode_sasl_oauthbearer :: "crypto \<Rightarrow> string \<Rightarrow> string \<Rightarrow> int \<Rightarrow> string" where
  "oauth_encode_sasl_oauthbearer cr token host port =
     (let soh = [CHR 0x01]
      in cr_b64 cr
           (if port > 0
            then ''n,,'' @ soh @ ''auth=Bearer '' @ token @ soh @ ''host='' @ host @ soh @ ''port='' @ int_string port @ soh @ soh
            else ''n,,'' @ soh @ ''auth=Bearer '' @ token @ soh @ soh))"

definition abort_sasl :: "login_env \<Rightarrow> reg \<Rightarrow> reg" where
  "abort_sasl env = sendf env (''AUTHENTICATE *'' @ crlf)"

text \<open>A decoded answer is a C string.\<close>

definition scram_authenticate :: "login_env \<Rightarrow> string \<Rightarrow> string \<Rightarrow> string \<Rightarrow> string \<Rightarrow> reg \<Rightarrow> reg" where
  "scram_authenticate env data digest user password r =
     (let cr = le_crypto env
      in case (case lg_scram (rg_login r) of None \<Rightarrow> scram_session_create cr digest user password | Some s \<Rightarrow> Some s) of
        None \<Rightarrow> abort_sasl env (call (Rg_Print (''Could not create SCRAM session with digest '' @ digest)) r)
      | Some s \<Rightarrow>
          (let keep = (\<lambda>x. on_lg (\<lambda>l. l\<lparr>lg_scram := x\<rparr>))
           in case scram_process cr s (takeWhile (\<lambda>c. c \<noteq> NUL) (cr_unb64 cr data)) of
             (SCRAM_IN_PROGRESS, out, s1) \<Rightarrow>
               sendf env (''AUTHENTICATE '' @ cr_b64 cr (case out of None \<Rightarrow> [] | Some x \<Rightarrow> x) @ crlf) (keep (Some s1) r)
           | (SCRAM_SUCCESS, _, _) \<Rightarrow> keep None (sendf env (''AUTHENTICATE +'' @ crlf) r)
           | (SCRAM_ERROR, _, s1) \<Rightarrow>
               keep None ((case sc_error s1 of None \<Rightarrow> id | Some e \<Rightarrow> call (Rg_Print (''SASL SCRAM authentication failed: '' @ e)))
                 (abort_sasl env r))))"

definition oauth_ready :: "login_env \<Rightarrow> login \<Rightarrow> string option" where
  "oauth_ready env l =
     (case oauth_access_token l of
        None \<Rightarrow> Some ''OAuth: No access token available. Please authorize first in Network List.''
      | Some [] \<Rightarrow> Some ''OAuth: No access token available. Please authorize first in Network List.''
      | Some _ \<Rightarrow>
          if oauth_token_expires l > 0 \<and> ne_now (le_net env) \<ge> oauth_token_expires l
          then Some ''OAuth: Access token has expired. Please re-authorize in Network List.'' else None)"

text \<open>Without a network the code reads through a null pointer.\<close>

definition inbound_sasl_authenticate :: "login_env \<Rightarrow> string \<Rightarrow> reg \<Rightarrow> reg option" where
  "inbound_sasl_authenticate env data r =
     (let l = rg_login r; m = sasl_mech l
      in if CHR '','' \<in> set data then Some r
         else
           (case le_network env of
              None \<Rightarrow> None
            | Some (net_user, global) \<Rightarrow>
                (let user = (case net_user of Some u \<Rightarrow> if global then le_global_user env else u | None \<Rightarrow> le_global_user env);
                     done = call (Rg_Event ''XP_TE_SASLAUTH'' [Some user, Some (sasl_mechanisms ! nat m)]);
                     scram = (\<lambda>digest. Some (scram_authenticate env data digest user (le_password env) r))
                 in if m = MECH_PLAIN then Some (done (plain_authenticate env user (le_password env) r))
                    else if m = MECH_EXTERNAL then Some (done (sendf env (''AUTHENTICATE +'' @ crlf) r))
                    else if m = MECH_SCRAM_SHA_1 then scram ''SHA1''
                    else if m = MECH_SCRAM_SHA_256 then scram ''SHA256''
                    else if m = MECH_SCRAM_SHA_512 then scram ''SHA512''
                    else if m = MECH_OAUTHBEARER then
                      (case oauth_ready env l of
                         Some msg \<Rightarrow> Some (abort_sasl env (call (Rg_Print msg) r))
                       | None \<Rightarrow> Some (done (sasl_send_authenticate env
                           (oauth_encode_sasl_oauthbearer (le_crypto env) (the (oauth_access_token l)) (le_servername env) (lg_port l)) r)))
                    else Some (done r))))"

definition inbound_sasl_error :: "login_env \<Rightarrow> reg \<Rightarrow> reg" where
  "inbound_sasl_error env r = abort_sasl env (on_lg (\<lambda>l. l\<lparr>lg_scram := None\<rparr>) r)"

text \<open>\<open>oauth_update_server_tokens\<close>, and the end of a token refresh: \<open>token\<close> is the new token with its time, \<open>alive\<close> is \<open>is_server\<close>.\<close>

definition oauth_update_server_tokens :: "login_env \<Rightarrow> string \<times> int \<Rightarrow> reg \<Rightarrow> reg" where
  "oauth_update_server_tokens env token r =
     (let r1 = on_lg (\<lambda>l. l\<lparr>oauth_access_token := Some (fst token), oauth_token_expires := snd token\<rparr>) r
      in if le_network env \<noteq> None then call Rg_Save_Tokens r1 else r1)"

definition oauth_sasl_retry_cb :: "login_env \<Rightarrow> bool \<Rightarrow> (string \<times> int) option \<Rightarrow> string option \<Rightarrow> reg \<Rightarrow> reg option" where
  "oauth_sasl_retry_cb env alive token err r =
     (if \<not> alive then Some r
      else (case (err, token) of
        (None, Some t) \<Rightarrow>
          inbound_sasl_authenticate env ''+''
            (call (Rg_Print (''OAuth: Token refreshed, retrying authentication...'' @ [CHR 0x0A])) (oauth_update_server_tokens env t r))
      | _ \<Rightarrow>
          (let msg = ''OAuth: Token refresh failed: '' @ (case err of None \<Rightarrow> ''unknown error'' | Some e \<Rightarrow> e) @ [CHR 0x0A];
               r1 = on_lg (\<lambda>l. l\<lparr>waiting_on_sasl := False\<rparr>) (inbound_sasl_error env (call (Rg_Print msg) r))
           in Some (if sent_capend (rg_login r1) then r1 else send_cap_end env r1))))"

definition inbound_sasl_oauth_refresh :: "login_env \<Rightarrow> reg \<Rightarrow> bool \<times> reg" where
  "inbound_sasl_oauth_refresh env r =
     (if le_network env = None \<or> oauth_refresh_attempted (rg_login r) then (False, r)
      else (le_refresh env,
            call Rg_Refresh (call (Rg_Print (''OAuth: SASL authentication failed, attempting token refresh...'' @ [CHR 0x0A]))
              (on_lg (\<lambda>l. l\<lparr>oauth_refresh_attempted := True\<rparr>) r))))"

text \<open>Numerics 903 to 907.\<close>

definition sasl_finished :: "login_env \<Rightarrow> int \<Rightarrow> reg \<Rightarrow> reg" where
  "sasl_finished env n r =
     (let r1 = on_lg (\<lambda>l. l\<lparr>waiting_on_sasl := False\<rparr>) r
      in if sent_capend (rg_login r1) then r1 else send_cap_end env (if n = 903 then persistence_send_attach env r1 else r1))"

section \<open>Lemmas\<close>

lemma reg_ops [simp]:
  "rg_login (on_lg f r) = f (rg_login r)" "rg_serv (on_lg f r) = rg_serv r" "rg_q (on_lg f r) = rg_q r" "rg_calls (on_lg f r) = rg_calls r"
  "rg_login (on_srv g r) = rg_login r" "rg_serv (on_srv g r) = g (rg_serv r)" "rg_q (on_srv g r) = rg_q r" "rg_calls (on_srv g r) = rg_calls r"
  "rg_login (on_q h r) = rg_login r" "rg_serv (on_q h r) = rg_serv r" "rg_q (on_q h r) = h (rg_q r)" "rg_calls (on_q h r) = rg_calls r"
  "rg_login (call c r) = rg_login r" "rg_serv (call c r) = rg_serv r" "rg_q (call c r) = rg_q r" "rg_calls (call c r) = rg_calls r @ [c]"
  "rg_login (sendf env t r) = rg_login r" "rg_serv (sendf env t r) = rg_serv r" "rg_calls (sendf env t r) = rg_calls r"
  by (simp_all add: on_lg_def on_srv_def on_q_def call_def sendf_def)

subsection \<open>SASL lines\<close>

text \<open>How a server puts the payload together again: chunks of 400 bytes, until a shorter one or a plus sign.\<close>

fun sasl_collect :: "string list \<Rightarrow> string option" where
  "sasl_collect [] = None"
| "sasl_collect (c # cs) =
     (if c = ''+'' then (if cs = [] then Some [] else None)
      else if length c < 400 then (if cs = [] then Some c else None)
      else map_option ((@) c) (sasl_collect cs))"

fun chunks_of :: "nat \<Rightarrow> string \<Rightarrow> string list" where
  "chunks_of 0 s = []"
| "chunks_of (Suc n) s = (if s = [] then [] else take 400 s # chunks_of n (drop 400 s))"

abbreviation auth_line :: "string \<Rightarrow> string" where
  "auth_line c \<equiv> ''AUTHENTICATE '' @ c @ crlf"

lemma auth_chunks_lines: "length s \<le> n \<Longrightarrow> auth_chunks s = concat (map auth_line (chunks_of n s))"
proof (induction n arbitrary: s)
  case 0
  then show ?case by (simp add: auth_chunks.simps)
next
  case (Suc n)
  show ?case
  proof (cases "s = []")
    case True
    then show ?thesis by (simp add: auth_chunks.simps)
  next
    case False
    have t: "take (min 400 (length s)) s = take 400 s" "drop (min 400 (length s)) s = drop 400 s" by (simp_all add: min_def)
    have "length (drop 400 s) \<le> n" using False Suc.prems by (cases s) auto
    then show ?thesis using False Suc.IH by (subst auth_chunks.simps) (simp add: Let_def t)
  qed
qed

lemma chunks_length: "c \<in> set (chunks_of n s) \<Longrightarrow> 0 < length c \<and> length c \<le> 400"
  by (induction n arbitrary: s) (auto split: if_splits)

lemma collect_chunks:
  assumes "length s \<le> n" "length s mod 400 \<noteq> 1"
  shows "sasl_collect (chunks_of n s @ (if length s mod 400 = 0 then [''+''] else [])) = Some s"
  using assms
proof (induction n arbitrary: s)
  case (Suc n)
  show ?case
  proof (cases "s = []")
    case False
    show ?thesis
    proof (cases "length s < 400")
      case True
      have "s \<noteq> ''+''" using Suc.prems(2) by auto
      then show ?thesis using True False by (cases n) (simp_all add: mod_eq_0_iff_dvd nat_dvd_not_less)
    next
      case long: False
      have d: "length (drop 400 s) \<le> n" using False Suc.prems by (cases s) auto
      have m: "length (drop 400 s) mod 400 = 0 \<longleftrightarrow> length s mod 400 = 0" using long le_mod_geq [of 400 "length s"] by simp
      have l: "length (drop 400 s) mod 400 \<noteq> 1" using Suc.prems(2) long le_mod_geq [of 400 "length s"] by simp
      have "take 400 s \<noteq> ''+''" using long by (auto dest: arg_cong [where f = length])
      then show ?thesis using Suc.IH [OF d l] long False m by (simp add: append_take_drop_id)
    qed
  qed simp
qed simp

text \<open>A buffer that is handed over before the end of the MOTD is sent at once.\<close>

lemma sent_at_once:
  "\<not> sq_end_of_motd q \<Longrightarrow> \<not> batch_burst q \<Longrightarrow> tcp_send_len net b q = q\<lparr>wire := wire q @ [b]\<rparr>"
  by (simp add: tcp_send_len_def server_send_real_def)

text \<open>C14: SASL PLAIN carries the login through: the lines that are sent, put together again by the rules of the protocol (chunks of 400 bytes, a
  shorter one or a plus sign at the end) and decoded, are the user, the user again, and the password; and every line is short enough for
  a server, whatever the length of the password.\<close>

theorem sasl_plain_roundtrip:
  assumes "\<forall>s. cr_unb64 (le_crypto env) (cr_b64 (le_crypto env) s) = s" "\<forall>s. length (cr_b64 (le_crypto env) s) mod 4 = 0"
    and "\<not> sq_end_of_motd (rg_q r)" "\<not> batch_burst (rg_q r)"
  shows "\<exists>cs. wire (rg_q (plain_authenticate env user pw r)) = wire (rg_q r) @ [concat (map auth_line cs)] \<and>
     (\<forall>c \<in> set cs. 0 < length c \<and> length (auth_line c) \<le> 415) \<and>
     map_option (cr_unb64 (le_crypto env)) (sasl_collect cs) = Some (user @ [NUL] @ user @ [NUL] @ pw)"
proof -
  let ?e = "encode_sasl_pass_plain (le_crypto env) user pw"
  let ?cs = "chunks_of (length ?e) ?e @ (if length ?e mod 400 = 0 then [''+''] else [])"
  have "length ?e mod 4 = 0" using assms(2) by (simp add: encode_sasl_pass_plain_def)
  then have m: "length ?e mod 400 \<noteq> 1" using mod_mod_cancel [of 4 400 "length ?e"] by auto
  have "auth_chunks ?e @ (if length ?e mod 400 = 0 then ''AUTHENTICATE +'' @ crlf else []) = concat (map auth_line ?cs)"
    using auth_chunks_lines [of ?e "length ?e"] by simp
  then have "wire (rg_q (plain_authenticate env user pw r)) = wire (rg_q r) @ [concat (map auth_line ?cs)]"
    by (simp add: plain_authenticate_def sasl_send_authenticate_def sent_at_once assms(3,4))
  moreover have "\<forall>c \<in> set ?cs. 0 < length c \<and> length (auth_line c) \<le> 415" by (auto dest: chunks_length)
  moreover have "map_option (cr_unb64 (le_crypto env)) (sasl_collect ?cs) = Some (user @ [NUL] @ user @ [NUL] @ pw)"
    using collect_chunks [OF le_refl m] assms(1) by (simp add: encode_sasl_pass_plain_def)
  ultimately show ?thesis by blast
qed

subsection \<open>Requests\<close>

abbreviation offer_name :: "string \<Rightarrow> string" where
  "offer_name offered \<equiv> takeWhile (\<lambda>c. c \<noteq> CHR ''='') offered"

definition offer_value :: "string \<Rightarrow> string option" where
  "offer_value offered = (if CHR ''='' \<in> set offered then Some (tl (dropWhile (\<lambda>c. c \<noteq> CHR ''='') offered)) else None)"

text \<open>SASL is asked for when the login needs it and the server does not name mechanisms or names a fitting one.\<close>

definition asks_sasl :: "login_env \<Rightarrow> string \<Rightarrow> bool" where
  "asks_sasl env offered \<longleftrightarrow> offer_name offered = ''sasl'' \<and> wants_sasl env \<and>
     (case offer_value offered of None \<Rightarrow> True | Some v \<Rightarrow> get_supported_mech (le_loginmethod env) v \<noteq> - 1)"

definition wanted :: "login_env \<Rightarrow> string \<Rightarrow> bool" where
  "wanted env offered \<longleftrightarrow> asks_sasl env offered \<or> offer_name offered \<in> set supported_caps"

lemma supported_not_special: "''sasl'' \<notin> set supported_caps" "''sts'' \<notin> set supported_caps"
  by (simp_all add: supported_caps_def)

lemma supported_distinct: "distinct supported_caps"
  by (simp add: supported_caps_def)

lemma supported_words: "ext \<in> set supported_caps \<Longrightarrow> ext \<noteq> [] \<and> \<not> is_space (last ext)"
  by (auto simp: supported_caps_def is_space_def uchar_def)

lemma wanted_words: "wanted env off \<Longrightarrow> offer_name off \<noteq> [] \<and> \<not> is_space (last (offer_name off))"
proof -
  have "\<not> is_space (last ''sasl'')" by (simp add: is_space_def uchar_def)
  then show "wanted env off \<Longrightarrow> offer_name off \<noteq> [] \<and> \<not> is_space (last (offer_name off))"
    using supported_words [of "offer_name off"] unfolding wanted_def asks_sasl_def by (metis list.distinct(1))
qed

lemma fold_one: "distinct xs \<Longrightarrow> fold (\<lambda>x b. if e = x then g b else b) xs b = (if e \<in> set xs then g b else b)"
proof (induction xs arbitrary: b)
  case (Cons x xs)
  moreover have "fold (\<lambda>x b. if e = x then g b else b) xs b' = b'" if "e \<notin> set xs" for b' using that by (induction xs) auto
  ultimately show ?case by auto
qed simp

text \<open>An offer adds its name to the request, if it is wanted; it never takes back that something is waited for.\<close>

lemma cap_offer_request:
  assumes "length b + length (offer_name off) + 1 < 500"
  shows "fst (cap_offer env off (b, w, r)) = b @ (if wanted env off then offer_name off @ '' '' else [])"
    "fst (snd (cap_offer env off (b, w, r))) = (w \<or> wanted env off)"
proof -
  note n = g_strlcat_fits [where n = 500]
  show "fst (cap_offer env off (b, w, r)) = b @ (if wanted env off then offer_name off @ '' '' else [])"
    using assms supported_not_special
    by (auto simp: cap_offer_def wanted_def asks_sasl_def offer_value_def Let_def fold_one [OF supported_distinct] n split: option.splits)
  show "fst (snd (cap_offer env off (b, w, r))) = (w \<or> wanted env off)"
    using supported_not_special by (auto simp: cap_offer_def wanted_def asks_sasl_def offer_value_def Let_def split: option.splits)
qed

lemma chomp_request:
  assumes "ns \<noteq> []" "\<forall>n \<in> set ns. n \<noteq> [] \<and> \<not> is_space (last n)"
  shows "g_strchomp (h @ concat (map (\<lambda>n. n @ '' '') ns)) = h @ join_sep (CHR '' '') ns"
proof -
  have "concat (map (\<lambda>n. n @ '' '') ns) = join_sep (CHR '' '') ns @ '' ''" using assms(1)
    by (induction ns rule: induct_list012) auto
  moreover have "join_sep (CHR '' '') ns \<noteq> [] \<and> \<not> is_space (last (join_sep (CHR '' '') ns))" using assms
    by (induction ns rule: induct_list012) auto
  then have "dropWhile is_space (rev (h @ join_sep (CHR '' '') ns)) = rev (h @ join_sep (CHR '' '') ns)"
    by (intro dropWhile_eq_self_iff [THEN iffD2]) (auto simp: hd_append hd_rev)
  ultimately show ?thesis by (simp add: g_strchomp_def is_space_def uchar_def)
qed

text \<open>What the state of the negotiation keeps while offers are read.\<close>

lemma cap_value_frame:
  "waiting_on_sasl (rg_login (cap_value env ext v r)) = waiting_on_sasl (rg_login r)"
  "waiting_on_cap (rg_login (cap_value env ext v r)) = waiting_on_cap (rg_login r)"
  "sent_capend (rg_login (cap_value env ext v r)) = sent_capend (rg_login r)"
  "sts_upgrade_port (rg_login (cap_value env ext v r)) = sts_upgrade_port (rg_login r)"
  "connecting (rg_login (cap_value env ext v r)) = connecting (rg_login r)"
  "lg_hostname (rg_login (cap_value env ext v r)) = lg_hostname (rg_login r)"
  "rg_q (cap_value env ext v r) = rg_q r"
proof -
  have "waiting_on_sasl (fold accreg_token ts l) = waiting_on_sasl l \<and> waiting_on_cap (fold accreg_token ts l) = waiting_on_cap l \<and>
      sent_capend (fold accreg_token ts l) = sent_capend l \<and> sts_upgrade_port (fold accreg_token ts l) = sts_upgrade_port l \<and>
      connecting (fold accreg_token ts l) = connecting l \<and> lg_hostname (fold accreg_token ts l) = lg_hostname l" for ts l
    by (induction ts arbitrary: l) (simp_all add: accreg_token_def)
  then show "waiting_on_sasl (rg_login (cap_value env ext v r)) = waiting_on_sasl (rg_login r)"
    "waiting_on_cap (rg_login (cap_value env ext v r)) = waiting_on_cap (rg_login r)"
    "sent_capend (rg_login (cap_value env ext v r)) = sent_capend (rg_login r)"
    "sts_upgrade_port (rg_login (cap_value env ext v r)) = sts_upgrade_port (rg_login r)"
    "connecting (rg_login (cap_value env ext v r)) = connecting (rg_login r)"
    "lg_hostname (rg_login (cap_value env ext v r)) = lg_hostname (rg_login r)" "rg_q (cap_value env ext v r) = rg_q r"
    by (simp_all add: cap_value_def Let_def)
qed

lemma cap_sts_frame:
  "waiting_on_sasl (rg_login (cap_sts env v r)) = waiting_on_sasl (rg_login r)"
  "waiting_on_cap (rg_login (cap_sts env v r)) = waiting_on_cap (rg_login r)"
  "sent_capend (rg_login (cap_sts env v r)) = sent_capend (rg_login r)"
  "connecting (rg_login (cap_sts env v r)) = connecting (rg_login r)"
  "lg_hostname (rg_login (cap_sts env v r)) = lg_hostname (rg_login r)"
  "rg_q (cap_sts env v r) = rg_q r"
  by (simp_all add: cap_sts_def Let_def split_beta)

lemma cap_offer_frame:
  "waiting_on_sasl (rg_login (snd (snd (cap_offer env off (b, w, r))))) = (waiting_on_sasl (rg_login r) \<or> asks_sasl env off)"
  "waiting_on_cap (rg_login (snd (snd (cap_offer env off (b, w, r))))) = waiting_on_cap (rg_login r)"
  "sent_capend (rg_login (snd (snd (cap_offer env off (b, w, r))))) = sent_capend (rg_login r)"
  "connecting (rg_login (snd (snd (cap_offer env off (b, w, r))))) = connecting (rg_login r) \<and>
   lg_hostname (rg_login (snd (snd (cap_offer env off (b, w, r))))) = lg_hostname (rg_login r)"
  "rg_q (snd (snd (cap_offer env off (b, w, r)))) = rg_q r"
  "offer_name off \<noteq> ''sts'' \<Longrightarrow> sts_upgrade_port (rg_login (snd (snd (cap_offer env off (b, w, r))))) = sts_upgrade_port (rg_login r)"
  by (auto simp: cap_offer_def asks_sasl_def offer_value_def Let_def cap_value_frame cap_sts_frame split: option.splits)

lemma cap_offers_all:
  "let l' = rg_login (snd (snd (fold (cap_offer env) offs (b, w, r)))); l = rg_login r
   in (waiting_on_sasl l' \<longleftrightarrow> waiting_on_sasl l \<or> (\<exists>off \<in> set offs. asks_sasl env off)) \<and> waiting_on_cap l' = waiting_on_cap l \<and>
      sent_capend l' = sent_capend l \<and> (connecting l' = connecting l \<and> lg_hostname l' = lg_hostname l) \<and> rg_q (snd (snd (fold (cap_offer env) offs (b, w, r)))) = rg_q r \<and>
      ((\<forall>off \<in> set offs. offer_name off \<noteq> ''sts'') \<longrightarrow> sts_upgrade_port l' = sts_upgrade_port l)"
proof (induction offs arbitrary: b w r)
  case (Cons off offs)
  note f = cap_offer_frame [where env = env and off = off and b = b and w = w and r = r]
  obtain b1 w1 r1 where c: "cap_offer env off (b, w, r) = (b1, w1, r1)" by (cases "cap_offer env off (b, w, r)") auto
  show ?case using Cons.IH [of b1 w1 r1] f by (auto simp: Let_def c)
qed simp

lemmas cap_offers =
  cap_offers_all [unfolded Let_def, THEN conjunct1] cap_offers_all [unfolded Let_def, THEN conjunct2, THEN conjunct1]
  cap_offers_all [unfolded Let_def, THEN conjunct2, THEN conjunct2, THEN conjunct1]
  cap_offers_all [unfolded Let_def, THEN conjunct2, THEN conjunct2, THEN conjunct2, THEN conjunct1]
  cap_offers_all [unfolded Let_def, THEN conjunct2, THEN conjunct2, THEN conjunct2, THEN conjunct2, THEN conjunct1]
  cap_offers_all [unfolded Let_def, THEN conjunct2, THEN conjunct2, THEN conjunct2, THEN conjunct2, THEN conjunct2, rule_format]

lemma cap_offers_request:
  assumes "length b + (\<Sum>off\<leftarrow>offs. length (offer_name off) + 1) < 500"
  shows "fst (fold (cap_offer env) offs (b, w, r)) = b @ concat (map (\<lambda>n. n @ '' '') (map (\<lambda>off. offer_name off) (filter (wanted env) offs))) \<and>
     fst (snd (fold (cap_offer env) offs (b, w, r))) = (w \<or> (\<exists>off \<in> set offs. wanted env off))"
  using assms
proof (induction offs arbitrary: b w r)
  case (Cons off offs)
  obtain b1 w1 r1 where c: "cap_offer env off (b, w, r) = (b1, w1, r1)" by (cases "cap_offer env off (b, w, r)") auto
  have "b1 = b @ (if wanted env off then offer_name off @ '' '' else [])" "w1 = (w \<or> wanted env off)"
    using cap_offer_request [of b off env w r] Cons.prems c by auto
  moreover have "length b1 + (\<Sum>off\<leftarrow>offs. length (offer_name off) + 1) < 500" using Cons.prems calculation(1) by auto
  ultimately show ?case using Cons.IH [of b1 w1 r1] c by auto
qed simp

lemma no_star:
  assumes "off \<noteq> ''*''" "off \<noteq> []" "CHR '' '' \<notin> set off"
  shows "\<not> has_prefix_str (join_sep (CHR '' '') (off # offs)) ''* ''"
proof -
  obtain c cs where off: "off = c # cs" using assms(2) by (cases off) auto
  show ?thesis using assms off by (cases cs; cases offs) (auto simp: has_prefix_str_def)
qed

lemma sendf_wire:
  "\<not> sq_end_of_motd (rg_q r) \<Longrightarrow> \<not> batch_burst (rg_q r) \<Longrightarrow> length t < 1500 \<Longrightarrow> wire (rg_q (sendf env t r)) = wire (rg_q r) @ [t]"
  by (simp add: sendf_def tcp_sendf_def printed_def Let_def sent_at_once)

lemma sendf_frame [simp]:
  assumes "\<not> sq_end_of_motd (rg_q r)" "\<not> batch_burst (rg_q r)"
  shows "sq_end_of_motd (rg_q (sendf env t r)) = False" "batch_burst (rg_q (sendf env t r)) = False"
    "sq_end_of_motd (rg_q (send_cap_end env r)) = False" "batch_burst (rg_q (send_cap_end env r)) = False"
    "wire (rg_q (send_cap_end env r)) = wire (rg_q r) @ [''CAP END'' @ crlf]"
  using assms by (simp_all add: sendf_def tcp_sendf_def sent_at_once send_cap_end_def)

lemma request_length:
  "length (join_sep (CHR '' '') (map (\<lambda>off. offer_name off) (filter P offs))) \<le> (\<Sum>off\<leftarrow>offs. length (offer_name off) + 1)"
proof (induction offs)
  case (Cons off offs)
  then show ?case by (cases "filter P offs") auto
qed simp

text \<open>The client asks for what it was offered and understands, no more and no less: for a list of capabilities in one line, with or without
  values, the request names in the order of the offers those it supports, and SASL when the login needs it and a mechanism fits; nothing is
  sent if there is none. The negotiation ends at once with \<open>CAP END\<close>, unless SASL is asked for or still waited for.\<close>

lemma cap_request_exact:
  assumes "offs \<noteq> []" "hd offs \<noteq> ''*''" "\<forall>off \<in> set offs. off \<noteq> [] \<and> CHR '' '' \<notin> set off \<and> offer_name off \<noteq> ''sts''"
    and "(\<Sum>off\<leftarrow>offs. length (offer_name off) + 1) < 491" "sts_upgrade_port (rg_login r) = 0"
    and "\<not> sq_end_of_motd (rg_q r)" "\<not> batch_burst (rg_q r)"
  shows "let r' = inbound_cap_ls env nick (join_sep (CHR '' '') offs) r; names = map (\<lambda>off. offer_name off) (filter (wanted env) offs);
       sasl = (waiting_on_sasl (rg_login r) \<or> (\<exists>off \<in> set offs. asks_sasl env off))
     in wire (rg_q r') = wire (rg_q r) @ (if names = [] then [] else [''CAP REQ :'' @ join_sep (CHR '' '') names @ crlf]) @
          (if sasl then [] else [''CAP END'' @ crlf]) \<and>
        waiting_on_sasl (rg_login r') = sasl \<and> \<not> waiting_on_cap (rg_login r') \<and> sent_capend (rg_login r') = (sent_capend (rg_login r) \<or> \<not> sasl)"
proof -
  let ?text = "join_sep (CHR '' '') offs" and ?names = "map (\<lambda>off. offer_name off) (filter (wanted env) offs)"
  have star: "\<not> has_prefix_str ?text ''* ''" using assms(1-3) no_star [of "hd offs" "tl offs"] by simp
  have t: "cap_list_text ?text = ?text" using star by (simp add: cap_list_text_def)
  have sp: "g_strsplit ?text (CHR '' '') = offs" using assms(1,3) by (intro g_strsplit_join) auto
  define r1 where "r1 = call (Rg_Event ''XP_TE_CAPLIST'' [Some nick, Some ?text]) (on_lg (\<lambda>l. l\<lparr>waiting_on_cap := False\<rparr>) r)"
  obtain b w r2 where f: "fold (cap_offer env) offs (''CAP REQ :'', False, r1) = (b, w, r2)" by (metis prod_cases3)
  have b: "b = ''CAP REQ :'' @ concat (map (\<lambda>n. n @ '' '') ?names)" "w = (?names \<noteq> [])"
    using cap_offers_request [of "''CAP REQ :''" offs env False r1] assms(4) f by (auto simp: filter_empty_conv)
  note o = cap_offers [where env = env and offs = offs and b = "''CAP REQ :''" and w = False and r = r1, unfolded f snd_conv]
  have r2: "waiting_on_sasl (rg_login r2) = (waiting_on_sasl (rg_login r) \<or> (\<exists>off \<in> set offs. asks_sasl env off))"
    "\<not> waiting_on_cap (rg_login r2)" "sent_capend (rg_login r2) = sent_capend (rg_login r)" "rg_q r2 = rg_q r" "sts_upgrade_port (rg_login r2) = 0"
    using o assms(3,5) by (simp_all add: r1_def)
  have q: "\<not> sq_end_of_motd (rg_q r2)" "\<not> batch_burst (rg_q r2)" using r2(4) assms(6,7) by simp_all
  have "\<forall>n \<in> set ?names. n \<noteq> [] \<and> \<not> is_space (last n)" using wanted_words by auto
  then have c: "g_strchomp b = ''CAP REQ :'' @ join_sep (CHR '' '') ?names" if "?names \<noteq> []"
    unfolding b(1) using that by (intro chomp_request) auto
  have l: "length (''CAP REQ :'' @ join_sep (CHR '' '') ?names @ crlf) < 1500"
    using request_length [of "wanted env" offs] assms(4) by simp
  show ?thesis
    using r2 q c l star b(2) by (simp add: inbound_cap_ls_def Let_def t sp f sendf_wire flip: r1_def) (auto simp: send_cap_end_def)
qed

subsection \<open>The negotiation as a whole\<close>

text \<open>Steps that only send something or learn something leave the negotiation where it is.\<close>

definition quiet :: "reg \<Rightarrow> reg \<Rightarrow> bool" where
  "quiet r r' \<longleftrightarrow>
     (let l = rg_login r; l' = rg_login r'
      in lg_hostname l' = lg_hostname l \<and> waiting_on_cap l' = waiting_on_cap l \<and> waiting_on_sasl l' = waiting_on_sasl l \<and>
         sent_capend l' = sent_capend l \<and> connecting l' = connecting l) \<and>
     (\<not> sq_end_of_motd (rg_q r) \<and> \<not> batch_burst (rg_q r) \<longrightarrow>
        \<not> sq_end_of_motd (rg_q r') \<and> \<not> batch_burst (rg_q r') \<and> set (wire (rg_q r)) \<subseteq> set (wire (rg_q r')))"

named_theorems quiet_intros

lemma quiet_rules [quiet_intros]:
  "quiet r r"
  "quiet r r' \<Longrightarrow> quiet r (call c r')"
  "quiet r r' \<Longrightarrow> quiet r (on_srv g r')"
  "quiet r r' \<Longrightarrow> quiet r (on_q (tcp_send_len net t) r')"
  "quiet r r' \<Longrightarrow> quiet r (sendf env t r')"
  "quiet r r' \<Longrightarrow> quiet r (set_flag flag b r')"
  "quiet r r' \<Longrightarrow> quiet r (on_persist h r')"
  by (auto simp: quiet_def Let_def sent_at_once sendf_def tcp_sendf_def set_flag_def)

lemma quiet_lg:
  "quiet r r' \<Longrightarrow> (\<And>l. lg_hostname (f l) = lg_hostname l \<and> waiting_on_cap (f l) = waiting_on_cap l \<and> waiting_on_sasl (f l) = waiting_on_sasl l \<and>
      sent_capend (f l) = sent_capend l \<and> connecting (f l) = connecting l) \<Longrightarrow> quiet r (on_lg f r')"
  by (simp add: quiet_def Let_def)

lemma quiet_fold: "(\<And>x r r'. quiet r r' \<Longrightarrow> quiet r (f x r')) \<Longrightarrow> quiet r r' \<Longrightarrow> quiet r (fold f xs r')"
  by (induction xs arbitrary: r') auto

lemma quiet_cases [quiet_intros]:
  "quiet r a \<Longrightarrow> quiet r b \<Longrightarrow> quiet r (if c then a else b)"
  "quiet r a \<Longrightarrow> (\<And>x. quiet r (f x)) \<Longrightarrow> quiet r (case m of None \<Rightarrow> a | Some x \<Rightarrow> f x)"
  "quiet r r' \<Longrightarrow> quiet r (on_q (\<lambda>q. q\<lparr>have_labeled_response := on\<rparr>) r')"
  by (auto simp: quiet_def Let_def split: option.split)

lemma quiet_toggle: "quiet r r' \<Longrightarrow> quiet r (toggle_cap env enable ext r')"
  unfolding toggle_cap_def Let_def by (intro quiet_intros quiet_lg) simp_all

lemma quiet_ops:
  assumes "quiet r r'"
  shows "quiet r (inbound_cap_ack env nick exts r')" "quiet r (inbound_cap_del env nick exts r')" "quiet r (inbound_cap_list nick exts r')"
    "quiet r (persistence_send_attach env r')" "quiet r (persistence_handle_reply env args r')" "quiet r (persistence_handle_fail env code ctx txt r')"
    "quiet r (persistence_handle_metadata env target key val r')" "quiet r (persistence_registration_complete r')"
    "quiet r (inbound_sasl_error env r')" "quiet r (snd (inbound_sasl_oauth_refresh env r'))"
proof -
  note q = assms
  show "quiet r (inbound_cap_ack env nick exts r')" "quiet r (inbound_cap_del env nick exts r')" "quiet r (inbound_cap_list nick exts r')"
    unfolding inbound_cap_ack_def inbound_cap_del_def inbound_cap_list_def inbound_toggle_caps_def
    by (intro quiet_fold quiet_toggle quiet_intros q; assumption)+
  show "quiet r (persistence_send_attach env r')"
    unfolding persistence_send_attach_def Let_def by (intro quiet_intros q)
  show "quiet r (persistence_handle_reply env args r')"
    unfolding persistence_handle_reply_def persistence_print_def Let_def by (intro quiet_intros q)
  show "quiet r (persistence_handle_fail env code ctx txt r')"
    unfolding persistence_handle_fail_def persistence_print_def Let_def by (intro quiet_intros q)
  show "quiet r (persistence_handle_metadata env target key val r')"
    unfolding persistence_handle_metadata_def persistence_print_def Let_def by (intro quiet_intros q)
  show "quiet r (persistence_registration_complete r')"
    unfolding persistence_registration_complete_def by (intro quiet_intros q)
  show "quiet r (inbound_sasl_error env r')"
    unfolding inbound_sasl_error_def abort_sasl_def by (intro quiet_intros quiet_lg q) simp
  show "quiet r (snd (inbound_sasl_oauth_refresh env r'))"
    unfolding inbound_sasl_oauth_refresh_def if_distrib [of snd] snd_conv by (intro quiet_intros quiet_lg q) simp
qed

lemma quiet_scram: "quiet r r' \<Longrightarrow> quiet r (scram_authenticate env data digest user pw r')"
proof -
  assume q: "quiet r r'"
  let ?d = "takeWhile (\<lambda>c. c \<noteq> NUL) (cr_unb64 (le_crypto env) data)"
  have keep: "quiet r (on_lg (\<lambda>l. l\<lparr>lg_scram := x\<rparr>) r1)" if "quiet r r1" for x r1 using that by (intro quiet_lg) simp_all
  show ?thesis
  proof (cases "case lg_scram (rg_login r') of None \<Rightarrow> scram_session_create (le_crypto env) digest user pw | Some s \<Rightarrow> Some s")
    case None
    then show ?thesis using q by (simp add: scram_authenticate_def Let_def abort_sasl_def quiet_intros)
  next
    case (Some s)
    obtain st out s1 where p: "scram_process (le_crypto env) s ?d = (st, out, s1)" by (metis prod_cases3)
    show ?thesis
    proof (cases st)
      case SCRAM_ERROR
      then show ?thesis using q keep Some p
        by (simp add: scram_authenticate_def Let_def abort_sasl_def quiet_intros split: option.split)
    qed (use q keep Some p in \<open>simp_all add: scram_authenticate_def Let_def quiet_intros\<close>)
  qed
qed

lemma quiet_auth: "inbound_sasl_authenticate env data r' = Some r'' \<Longrightarrow> quiet r r' \<Longrightarrow> quiet r r''"
  by (auto simp: inbound_sasl_authenticate_def Let_def plain_authenticate_def sasl_send_authenticate_def abort_sasl_def
      split: if_splits option.splits intro!: quiet_intros quiet_scram)

text \<open>What happens during the registration: a message of the server, or the end of a token refresh.\<close>

inductive neg_step :: "reg \<Rightarrow> reg \<Rightarrow> bool" where
  step_ls: "neg_step r (inbound_cap_ls env nick exts r)"
| step_ack: "neg_step r (inbound_cap_ack env nick exts r)"
| step_del: "neg_step r (inbound_cap_del env nick exts r)"
| step_nak: "neg_step r (inbound_cap_nak env exts r)"
| step_list: "neg_step r (inbound_cap_list nick exts r)"
| step_auth: "inbound_sasl_authenticate env data r = Some r' \<Longrightarrow> neg_step r r'"
| step_sasl_end: "n \<in> {903, 905, 906, 907} \<Longrightarrow> neg_step r (sasl_finished env n r)"
| step_sasl_failed: "neg_step r (sasl_finished env 904 (inbound_sasl_error env r))"
| step_refresh: "inbound_sasl_oauth_refresh env r = (True, r') \<Longrightarrow> neg_step r r'"
| step_retry: "oauth_sasl_retry_cb env alive token err r = Some r' \<Longrightarrow> neg_step r r'"
| step_reply: "neg_step r (persistence_handle_reply env args r)"
| step_fail: "neg_step r (persistence_handle_fail env code ctx txt r)"
| step_metadata: "neg_step r (persistence_handle_metadata env target key val r)"

text \<open>\<open>CAP END\<close> is not claimed to be sent unless it is; and something is always going on: more of the list is to come, SASL is not over,
  the negotiation has ended, or a new connection is being opened.\<close>

definition neg_ok :: "reg \<Rightarrow> bool" where
  "neg_ok r \<longleftrightarrow> lg_hostname (rg_login r) \<noteq> [] \<and> \<not> sq_end_of_motd (rg_q r) \<and> \<not> batch_burst (rg_q r) \<and>
     (sent_capend (rg_login r) \<longrightarrow> ''CAP END'' @ crlf \<in> set (wire (rg_q r)))"

definition neg_live :: "reg \<Rightarrow> bool" where
  "neg_live r \<longleftrightarrow> waiting_on_cap (rg_login r) \<or> waiting_on_sasl (rg_login r) \<or> sent_capend (rg_login r) \<or> connecting (rg_login r)"

lemma quiet_ok: "quiet r r' \<Longrightarrow> neg_ok r \<Longrightarrow> neg_ok r'"
  by (auto simp: quiet_def neg_ok_def Let_def)

lemma quiet_live: "quiet r r' \<Longrightarrow> neg_live r' = neg_live r"
  by (simp add: quiet_def neg_live_def Let_def)

lemma login_disconnect_frame:
  "lg_hostname (rg_login (login_disconnect quit r)) = lg_hostname (rg_login r)"
  "batch_burst (rg_q (login_disconnect quit r)) = batch_burst (rg_q r)"
  "wire (rg_q (login_disconnect quit r)) = wire (rg_q r)"
  "use_ssl (rg_login (login_disconnect quit r)) = use_ssl (rg_login r)"
  "accept_invalid_cert (rg_login (login_disconnect quit r)) = accept_invalid_cert (rg_login r)"
  "sts_policies (rg_login (login_disconnect quit r)) = sts_policies (rg_login r)"
  by (simp_all add: login_disconnect_def persistence_reset_def queue_defaults_def server_flush_queue_def Let_def)

lemma open_connection_state:
  assumes "hostname \<noteq> []"
  shows "lg_hostname (rg_login (open_connection env hostname host port skip r)) = host"
    "connecting (rg_login (open_connection env hostname host port skip r))"
    "\<not> sent_capend (rg_login (open_connection env hostname host port skip r))"
    "\<not> sq_end_of_motd (rg_q (open_connection env hostname host port skip r))"
    "batch_burst (rg_q (open_connection env hostname host port skip r)) = batch_burst (rg_q r)"
  using assms
  by (simp_all add: open_connection_def Let_def split_beta login_defaults_def queue_defaults_def server_flush_queue_def login_disconnect_frame
      split: option.split)

lemma sts_reconnect_ok: "neg_ok r \<Longrightarrow> neg_ok (sts_reconnect env r) \<and> neg_live (sts_reconnect env r)"
  using open_connection_state [of "lg_hostname (rg_login r)" env "lg_hostname (rg_login r)" "sts_upgrade_port (rg_login r)" False]
  by (simp add: neg_ok_def neg_live_def sts_reconnect_def Let_def login_disconnect_frame)

lemma send_cap_end_ok: "neg_ok r \<Longrightarrow> neg_ok (send_cap_end env r) \<and> neg_live (send_cap_end env r)"
  by (simp add: neg_ok_def neg_live_def send_cap_end_def sent_at_once)

lemma waiting_ok: "neg_ok (on_lg (\<lambda>l. l\<lparr>waiting_on_sasl := b\<rparr>) r) = neg_ok r" "neg_ok (on_lg (\<lambda>l. l\<lparr>waiting_on_cap := b\<rparr>) r) = neg_ok r"
  by (simp_all add: neg_ok_def)

lemma cap_ls_ok: "neg_ok r \<Longrightarrow> neg_ok (inbound_cap_ls env nick exts r) \<and> neg_live (inbound_cap_ls env nick exts r)"
proof -
  assume ok: "neg_ok r"
  let ?offs = "g_strsplit (cap_list_text exts) (CHR '' '')"
  define r1 where "r1 = call (Rg_Event ''XP_TE_CAPLIST'' [Some nick, Some (cap_list_text exts)])
    (on_lg (\<lambda>l. l\<lparr>waiting_on_cap := has_prefix_str exts ''* ''\<rparr>) r)"
  obtain b w r2 where f: "fold (cap_offer env) ?offs (''CAP REQ :'', False, r1) = (b, w, r2)" by (metis prod_cases3)
  note o = cap_offers [where env = env and offs = ?offs and b = "''CAP REQ :''" and w = False and r = r1, unfolded f snd_conv]
  have "neg_ok r1" using ok by (simp add: r1_def neg_ok_def)
  then have ok2: "neg_ok r2" using o(3-5) by (simp add: neg_ok_def)
  define r3 where "r3 = (if w then sendf env (g_strchomp b @ crlf) (call (Rg_Event ''XP_TE_CAPREQ'' [Some (drop 9 b)]) r2) else r2)"
  have "quiet r2 r3" unfolding r3_def by (intro quiet_intros)
  then have ok3: "neg_ok r3" using ok2 by (rule quiet_ok)
  then have "neg_ok (call c r3)" for c by (simp add: neg_ok_def)
  then show ?thesis using ok3 sts_reconnect_ok send_cap_end_ok
    by (auto simp: inbound_cap_ls_def Let_def f simp flip: r1_def r3_def) (auto simp: neg_live_def)
qed

lemma cap_nak_ok: "neg_ok r \<Longrightarrow> neg_live r \<Longrightarrow> neg_ok (inbound_cap_nak env exts r) \<and> neg_live (inbound_cap_nak env exts r)"
  using sts_reconnect_ok send_cap_end_ok waiting_ok(1) [of False r]
  by (auto simp: inbound_cap_nak_def Let_def) (auto simp: neg_live_def)

lemma sasl_finished_ok: "neg_ok r \<Longrightarrow> neg_ok (sasl_finished env n r) \<and> neg_live (sasl_finished env n r)"
proof -
  assume "neg_ok r"
  then have o: "neg_ok (on_lg (\<lambda>l. l\<lparr>waiting_on_sasl := False\<rparr>) r)" by (simp add: waiting_ok)
  moreover have "neg_ok (persistence_send_attach env (on_lg (\<lambda>l. l\<lparr>waiting_on_sasl := False\<rparr>) r))"
    using quiet_ok [OF quiet_ops(4) [OF quiet_rules(1)] o] .
  ultimately show ?thesis using send_cap_end_ok by (auto simp: sasl_finished_def Let_def) (auto simp: neg_live_def)
qed

lemma retry_ok:
  assumes "oauth_sasl_retry_cb env alive token err r = Some r'" "neg_ok r" "neg_live r"
  shows "neg_ok r' \<and> neg_live r'"
proof (cases "alive \<and> err = None \<and> token \<noteq> None")
  case True
  then obtain t where "inbound_sasl_authenticate env ''+''
      (call (Rg_Print (''OAuth: Token refreshed, retrying authentication...'' @ [CHR 0x0A])) (oauth_update_server_tokens env t r)) = Some r'"
    using assms(1) by (auto simp: oauth_sasl_retry_cb_def)
  moreover have "quiet r (oauth_update_server_tokens env t r)"
    unfolding oauth_update_server_tokens_def Let_def by (intro quiet_intros quiet_lg) simp_all
  ultimately have "quiet r r'" using quiet_auth quiet_rules(2) by blast
  then show ?thesis using assms(2,3) quiet_ok quiet_live by blast
next
  case False
  define r1 where "r1 = on_lg (\<lambda>l. l\<lparr>waiting_on_sasl := False\<rparr>)
    (inbound_sasl_error env (call (Rg_Print (''OAuth: Token refresh failed: '' @ (case err of None \<Rightarrow> ''unknown error'' | Some e \<Rightarrow> e) @ [CHR 0x0A])) r))"
  have "neg_ok r1" unfolding r1_def waiting_ok
    by (rule quiet_ok [OF quiet_ops(9) assms(2)]) (intro quiet_intros)
  moreover have "r' = r \<or> r' = (if sent_capend (rg_login r1) then r1 else send_cap_end env r1)"
    using False assms(1) by (auto simp: oauth_sasl_retry_cb_def r1_def Let_def split: option.splits if_splits)
  ultimately show ?thesis using assms(2,3) send_cap_end_ok [of r1 env] by (auto simp: neg_live_def)
qed

lemma quiet_step: "quiet r r' \<Longrightarrow> neg_ok r \<Longrightarrow> neg_live r \<Longrightarrow> neg_ok r' \<and> neg_live r'"
  using quiet_ok quiet_live by blast

lemma neg_step_ok: "neg_step r r' \<Longrightarrow> neg_ok r \<Longrightarrow> neg_live r \<Longrightarrow> neg_ok r' \<and> neg_live r'"
proof (induction rule: neg_step.induct)
  case (step_ls r env nick exts)
  then show ?case by (simp add: cap_ls_ok)
next
  case (step_nak r env exts)
  then show ?case by (simp add: cap_nak_ok)
next
  case (step_sasl_end n r env)
  then show ?case by (simp add: sasl_finished_ok)
next
  case (step_sasl_failed r env)
  then show ?case using sasl_finished_ok quiet_ok [OF quiet_ops(9) [OF quiet_rules(1)]] by blast
next
  case (step_retry env alive token err r r')
  then show ?case by (rule retry_ok)
next
  case (step_refresh env r r')
  then have "quiet r r'" using quiet_ops(10) [OF quiet_rules(1), of r env] by simp
  then show ?case using step_refresh(2,3) by (rule quiet_step)
next
  case (step_auth env data r r')
  then have "quiet r r'" using quiet_auth quiet_rules(1) by blast
  then show ?case using step_auth(2,3) by (rule quiet_step)
qed (rule quiet_step, (rule quiet_ops, rule quiet_rules(1)), assumption, assumption)+


subsection \<open>Strict transport security\<close>

lemma sts_check:
  assumes "acmp_ok acmp" "sts_inv ps" "sts_state now ps host = Some (p, e)"
  shows "fst (sts_policy_check acmp now host ps) = Some p"
proof (cases rule: sts_find_result [OF assms(1,2), of now host])
  case (1 i)
  then show ?thesis using assms(3) by (auto simp: sts_policy_check_def sts_state_def)
next
  case (2 ps1)
  then have "sts_state now ps host = None" using 2(3) [of host] by (simp add: sts_state_def)
  then show ?thesis using assms(3) by simp
qed

lemma sts_state_later: "sts_state now ps h = Some (p, e) \<Longrightarrow> e = 0 \<or> later \<le> e \<Longrightarrow> sts_state later ps h = Some (p, e)"
  by (auto simp: sts_state_def split: option.splits if_splits)

lemma sts_state_case: "map ascii_lower h = map ascii_lower h' \<Longrightarrow> sts_state now ps h = sts_state now ps h'"
  by (simp add: sts_state_def)

text \<open>A connection to a host with a policy has TLS, a checked certificate, and the port of the policy.\<close>

lemma policy_enforced:
  assumes "acmp_ok (le_acmp env)" "sts_inv (sts_policies (rg_login r))" "sts_state (ne_now (le_net env)) (sts_policies (rg_login r)) hostname = Some (p, e)"
    and "hostname \<noteq> []" "\<not> use_ssl (rg_login r)" "0 < p" "p \<le> 65535"
  shows "last (rg_calls (open_connection env hostname host port skip r)) = Rg_Connect host p True \<and>
     \<not> accept_invalid_cert (rg_login (open_connection env hostname host port skip r))"
proof -
  obtain ps where "sts_policy_check (le_acmp env) (ne_now (le_net env)) hostname (sts_policies (rg_login r)) = (Some p, ps)"
    using sts_check [OF assms(1-3)] by (metis prod.collapse)
  then show ?thesis using assms(4-7)
    by (simp add: open_connection_def Let_def login_disconnect_frame login_defaults_def)
qed

lemma cap_value_policies: "sts_policies (rg_login (cap_value env ext v r)) = sts_policies (rg_login r)"
proof -
  have "sts_policies (fold accreg_token ts l) = sts_policies l" for ts l by (induction ts arbitrary: l) (simp_all add: accreg_token_def)
  then show ?thesis by (simp add: cap_value_def Let_def)
qed

lemma other_offers_policies:
  assumes "\<forall>off \<in> set offs. offer_name off \<noteq> ''sts''"
  shows "sts_policies (rg_login (snd (snd (fold (cap_offer env) offs (b, w, r))))) = sts_policies (rg_login r)"
  using assms
proof (induction offs arbitrary: b w r)
  case (Cons off offs)
  obtain b1 w1 r1 where c: "cap_offer env off (b, w, r) = (b1, w1, r1)" by (cases "cap_offer env off (b, w, r)") auto
  have "sts_policies (rg_login (snd (snd (cap_offer env off (b, w, r))))) = sts_policies (rg_login r)"
    using Cons.prems by (auto simp: cap_offer_def Let_def cap_value_policies split: option.splits)
  then show ?case using Cons c by simp
qed simp

lemma sts_offer:
  assumes "fold sts_token (g_strsplit v (CHR '','')) (0, 0) = (port, duration)" "0 < port" "\<not> le_ssl env"
  shows "sts_upgrade_port (rg_login (snd (snd (cap_offer env (''sts='' @ v) (b, w, r))))) = port"
    "sts_policies (rg_login (snd (snd (cap_offer env (''sts='' @ v) (b, w, r))))) =
       sts_policy_add (le_acmp env) (ne_now (le_net env)) (lg_hostname (rg_login r)) port duration (sts_policies (rg_login r))"
  using assms by (simp_all add: cap_offer_def Let_def cap_sts_def)

lemma asks_not_sts: "\<not> asks_sasl env (''sts='' @ v)"
  by (simp add: asks_sasl_def)


text \<open>With SASL the upgrade does not happen: the client goes on with this connection, and logs in over it.\<close>

lemma cap_ls_waits:
  assumes "waiting_on_sasl (rg_login r) \<or> (\<exists>off \<in> set (g_strsplit (cap_list_text exts) (CHR '' '')). asks_sasl env off)"
  shows "waiting_on_sasl (rg_login (inbound_cap_ls env nick exts r)) \<and> sent_capend (rg_login (inbound_cap_ls env nick exts r)) = sent_capend (rg_login r) \<and>
     connecting (rg_login (inbound_cap_ls env nick exts r)) = connecting (rg_login r)"
proof -
  let ?offs = "g_strsplit (cap_list_text exts) (CHR '' '')"
  define r1 where "r1 = call (Rg_Event ''XP_TE_CAPLIST'' [Some nick, Some (cap_list_text exts)])
    (on_lg (\<lambda>l. l\<lparr>waiting_on_cap := has_prefix_str exts ''* ''\<rparr>) r)"
  obtain b w r2 where f: "fold (cap_offer env) ?offs (''CAP REQ :'', False, r1) = (b, w, r2)" by (metis prod_cases3)
  note o = cap_offers [where env = env and offs = ?offs and b = "''CAP REQ :''" and w = False and r = r1, unfolded f snd_conv]
  have "waiting_on_sasl (rg_login r2)" "sent_capend (rg_login r2) = sent_capend (rg_login r)" "connecting (rg_login r2) = connecting (rg_login r)"
    using o(1,3,4) assms by (simp_all add: r1_def)
  then show ?thesis by (simp add: inbound_cap_ls_def Let_def f flip: r1_def)
qed

lemma sasl_before_sts:
  assumes "\<exists>off \<in> set (g_strsplit (cap_list_text exts) (CHR '' '')). asks_sasl env off" "\<not> connecting (rg_login r)"
  shows "let r1 = inbound_cap_ls env nick exts r; r2 = sasl_finished env' 903 r1
     in \<not> connecting (rg_login r1) \<and> waiting_on_sasl (rg_login r1) \<and> \<not> connecting (rg_login r2) \<and> sent_capend (rg_login r2)"
proof -
  note c = cap_ls_waits [OF disjI2 [OF assms(1)], where r = r and nick = nick]
  have "quiet r' (persistence_send_attach env' r')" for r' by (rule quiet_ops(4) [OF quiet_rules(1)])
  then show ?thesis using c assms(2) by (auto simp: Let_def sasl_finished_def send_cap_end_def quiet_def)
qed

text \<open>Capabilities of an earlier connection stay, unless they are among the few that a new connection resets.\<close>

lemma reconnect_keeps_caps:
  assumes "f \<notin> {Have_awaynotify, Have_idmsg, Have_accnotify, Have_account_tag, Have_server_time, Have_sasl, Have_persistence}"
  shows "lg_have (rg_login (open_connection env hostname host port skip r)) f = lg_have (rg_login r) f"
  using assms by (simp add: open_connection_def login_disconnect_def persistence_reset_def login_defaults_def Let_def split_beta split: option.split)

text \<open>C39: A connection that is lost while SASL is under way makes the next login hang: \<open>waiting_on_sasl\<close> is not reset, so that after connecting
  again, whatever lists the server sends and whatever it acknowledges, as long as it does not refuse SASL or report its outcome, the
  client never ends the negotiation.\<close>

theorem stale_sasl_blocks_login:
  assumes "waiting_on_sasl (rg_login r)" "hostname \<noteq> []"
  shows "let r0 = open_connection env hostname host port skip r
     in waiting_on_sasl (rg_login r0) \<and> \<not> sent_capend (rg_login r0) \<and>
        (\<forall>lists. let r1 = fold (\<lambda>(env, nick, exts, acked) r. inbound_cap_ack env nick acked (inbound_cap_ls env nick exts r)) lists r0
           in waiting_on_sasl (rg_login r1) \<and> \<not> sent_capend (rg_login r1))"
proof -
  let ?r0 = "open_connection env hostname host port skip r"
  let ?step = "\<lambda>(env, nick, exts, acked) r. inbound_cap_ack env nick acked (inbound_cap_ls env nick exts r)"
  have "waiting_on_sasl (rg_login ?r0)"
    using assms
    by (simp add: open_connection_def login_disconnect_def persistence_reset_def login_defaults_def Let_def split_beta split: option.split)
  moreover have "\<not> sent_capend (rg_login ?r0)" using open_connection_state(3) [OF assms(2)] .
  moreover have "waiting_on_sasl (rg_login (fold ?step lists r')) \<and> \<not> sent_capend (rg_login (fold ?step lists r'))"
    if "waiting_on_sasl (rg_login r')" "\<not> sent_capend (rg_login r')" for lists r'
    using that
  proof (induction lists arbitrary: r')
    case (Cons x lists)
    obtain e n exts acked where x: "x = (e, n, exts, acked)" by (metis prod_cases4)
    have "quiet (inbound_cap_ls e n exts r') (inbound_cap_ack e n acked (inbound_cap_ls e n exts r'))" by (rule quiet_ops(1) [OF quiet_rules(1)])
    then show ?case using Cons.IH [of "?step x r'"] Cons.prems cap_ls_waits [of r' exts e n] by (simp add: x quiet_def Let_def)
  qed simp
  ultimately show ?thesis unfolding Let_def by blast
qed

section \<open>Examples\<close>

definition demo_login :: login where
  "demo_login =
     \<lparr>lg_have = (\<lambda>f. False), ch_between_unsupported = False, ch_suppressed = False, ch_fail_streak = 0, sasl_mech = MECH_PLAIN,
      waiting_on_cap = False, waiting_on_sasl = False, sent_capend = False, sts_upgrade_port = 0, sts_policies = [], use_ssl = False,
      accept_invalid_cert = True, lg_hostname = ''irc.net'', lg_port = 6667, connected = True, connecting = False, recondelay = False,
      no_login = False, accreg_before_connect = False, accreg_email_required = False, accreg_custom_account = False,
      accreg_max_password_len = 0, accreg_min_password_len = 0, lg_persist = no_persistence, lg_scram = None, oauth_access_token = None,
      oauth_token_expires = 0, oauth_refresh_attempted = False\<rparr>"

definition demo_login_env :: login_env where
  "demo_login_env =
     \<lparr>le_net = \<lparr>ne_ncmp = be_ncmp demo_env, ne_throttle = True, ne_now = 100\<rparr>, le_acmp = demo_acmp, le_ncmp = be_ncmp demo_env,
      le_iconv = (\<lambda>s. True), le_skip = (\<lambda>c. 1), le_ssl = False, le_servername = ''irc.net'', le_loginmethod = LOGIN_SASL, le_password = [],
      le_network = None, le_global_user = ''me'', le_crypto = demo_crypto, le_profile = [], le_cursor = None, le_refresh = False\<rparr>"

definition demo_reg :: reg where
  "demo_reg = \<lparr>rg_login = demo_login, rg_serv = blank_server, rg_q = demo_sendq\<lparr>sq_end_of_motd := False\<rparr>, rg_calls = []\<rparr>"

lemma demo_reg_quiet: "\<not> sq_end_of_motd (rg_q demo_reg)" "\<not> batch_burst (rg_q demo_reg)"
  by (simp_all add: demo_reg_def demo_sendq_def)

theorem sasl_plain_roundtrip_witness:
  "\<exists>cs. wire (rg_q (plain_authenticate demo_login_env ''bob'' ''secret'' demo_reg)) = wire (rg_q demo_reg) @ [concat (map auth_line cs)] \<and>
     map_option demo_unb64 (sasl_collect cs) = Some (''bob'' @ [NUL] @ ''bob'' @ [NUL] @ ''secret'')"
proof -
  have cr: "le_crypto demo_login_env = demo_crypto" by (simp add: demo_login_env_def)
  have "\<forall>s. cr_unb64 demo_crypto (cr_b64 demo_crypto s) = s" using demo_crypto_ok by (simp add: crypto_ok_def)
  moreover have "length (demo_b64 s) = 4 * length s" for s by (induction s) (simp_all add: demo_b64_def)
  then have "\<forall>s. length (cr_b64 demo_crypto s) mod 4 = 0" by (simp add: demo_crypto_def)
  moreover have "cr_unb64 demo_crypto = demo_unb64" by (simp add: demo_crypto_def)
  ultimately show ?thesis
    using sasl_plain_roundtrip [where env = demo_login_env and r = demo_reg and user = "''bob''" and pw = "''secret''"] demo_reg_quiet
    unfolding cr by auto
qed



theorem stale_sasl_blocks_login_witness:
  "waiting_on_sasl (rg_login (open_connection demo_login_env ''irc.net'' ''irc.net'' 6667 False
     (on_lg (\<lambda>l. l\<lparr>waiting_on_sasl := True\<rparr>) demo_reg)))"
  using stale_sasl_blocks_login [of "on_lg (\<lambda>l. l\<lparr>waiting_on_sasl := True\<rparr>) demo_reg" "''irc.net''" demo_login_env "''irc.net''" 6667 False]
  unfolding Let_def by simp

end
