(* ===== verification/Dispatch.thy ===== *)
theory Dispatch
  imports Login Ignore
begin

text \<open>
  The dispatch of a received line (\<open>process_named_msg\<close>, \<open>process_named_servermsg\<close> and \<open>process_numeric\<close> of
  \<open>src/src/common/proto-irc.c\<close>) to the handlers of \<open>Inbound\<close>, \<open>Batch\<close>, \<open>Modes\<close>, \<open>Notify\<close>, \<open>Ignore\<close> and \<open>Isupport\<close>, and the
  composition \<open>receive\<close> with \<open>irc_inline\<close>. A call of a function that is not modelled is recorded with its arguments. The 32 words and
  rests of a line are those of \<open>process_data_init\<close>; a missing word is a string of two terminators there, so that a pointer behind its first
  character is an empty string again.
\<close>

section \<open>State\<close>

text \<open>A recorded call: the name of the function, its session and its arguments. \<open>Ctcp_Handle\<close> also gets the words of the line.\<close>

datatype disp_call =
    Fn string "nat option" "string option list"
  | Batch_Fn batch_call
  | Reg_Fn reg_call
  | Ctcp_Handle nat string string string string "string list" "string list"

text \<open>Flags of the server that belong to commands under way.\<close>

record serv_flags =
  skip_next_userhost :: bool
  skip_next_whois :: bool
  inside_whois :: bool
  doing_dns :: bool
  use_who :: bool
  motd_skipped :: bool
  is_away :: bool
  reconnect_away :: bool
  nickcount :: int
  away_list :: "(string \<times> string) list"

record disp =
  ds_client :: client
  ds_sendq :: sendq
  ds_flood :: flood_state
  ds_flags :: serv_flags
  ds_login :: login
  ds_calls :: "disp_call list"

text \<open>What the dispatch reads: the environments of the handlers, capabilities, preferences, login data, and answers of the front end
  and of functions outside the model (\<open>ctime\<close>, \<open>challengeauth_response\<close>, \<open>chathistory_is_duplicate_msgid\<close>).\<close>

record disp_env =
  de_inb :: inb_env
  de_batch :: batch_env
  de_login :: login_env
  de_caps :: tag_caps
  de_have_echo :: bool
  de_have_labeled :: bool
  de_raw_modes :: bool
  de_flood :: flood_prefs
  de_servername :: string
  de_challenge :: bool
  de_password :: string
  de_user :: string
  de_response :: "string \<Rightarrow> string \<Rightarrow> string \<Rightarrow> string"
  de_reply_show :: bool
  de_is_dup :: "nat \<Rightarrow> string \<Rightarrow> bool"
  de_whois_front :: bool
  de_show_away_once :: bool
  de_ip_from_server :: bool
  de_skip_motd :: bool
  de_chanwindow :: bool
  de_ban_window :: "nat \<Rightarrow> int \<Rightarrow> bool"
  de_ctime :: "int \<Rightarrow> string option"
  de_iconv :: "string \<Rightarrow> bool"
  de_nick2 :: string
  de_nick3 :: string

abbreviation d_serv :: "disp \<Rightarrow> server" where
  "d_serv ds \<equiv> ns_server (cl_serv (ds_client ds))"

abbreviation de_net :: "disp_env \<Rightarrow> net_env" where
  "de_net env \<equiv> le_net (de_login env)"

definition on_client :: "(client \<Rightarrow> client option) \<Rightarrow> disp \<Rightarrow> disp option" where
  "on_client f ds = map_option (\<lambda>cl. ds\<lparr>ds_client := cl\<rparr>) (f (ds_client ds))"

definition on_queue :: "(sendq \<Rightarrow> sendq) \<Rightarrow> disp \<Rightarrow> disp" where
  "on_queue f ds = ds\<lparr>ds_sendq := f (ds_sendq ds)\<rparr>"

definition on_friends :: "(notify_state \<Rightarrow> notify_state) \<Rightarrow> disp \<Rightarrow> disp" where
  "on_friends f ds = ds\<lparr>ds_client := on_notify f (ds_client ds)\<rparr>"

definition on_flags :: "(serv_flags \<Rightarrow> serv_flags) \<Rightarrow> disp \<Rightarrow> disp" where
  "on_flags f ds = ds\<lparr>ds_flags := f (ds_flags ds)\<rparr>"

definition fn :: "string \<Rightarrow> nat option \<Rightarrow> string option list \<Rightarrow> disp \<Rightarrow> disp" where
  "fn name sess args ds = ds\<lparr>ds_calls := ds_calls ds @ [Fn name sess args]\<rparr>"

definition show_event :: "nat \<Rightarrow> string \<Rightarrow> string option list \<Rightarrow> disp \<Rightarrow> disp option" where
  "show_event sess name args = on_client (upd_sess sess (\<lambda>s. Some (emit (Emit name args) s)))"

text \<open>A step of the registration: its events are shown in the server tab.\<close>

definition reg_of :: "disp \<Rightarrow> reg" where
  "reg_of ds = \<lparr>rg_login = ds_login ds, rg_serv = d_serv ds, rg_q = ds_sendq ds, rg_calls = []\<rparr>"

definition shown_call :: "disp_env \<Rightarrow> reg_call \<Rightarrow> disp \<Rightarrow> disp option" where
  "shown_call env c ds =
     (case c of Rg_Event name args \<Rightarrow> show_event (ib_server (de_inb env)) name args ds | _ \<Rightarrow> Some (ds\<lparr>ds_calls := ds_calls ds @ [Reg_Fn c]\<rparr>))"

fun shown_calls :: "disp_env \<Rightarrow> reg_call list \<Rightarrow> disp \<Rightarrow> disp option" where
  "shown_calls env [] ds = Some ds"
| "shown_calls env (c # cs) ds = do { ds1 \<leftarrow> shown_call env c ds; shown_calls env cs ds1 }"

definition put_reg :: "disp_env \<Rightarrow> reg \<Rightarrow> disp \<Rightarrow> disp option" where
  "put_reg env r ds =
     shown_calls env (rg_calls r)
       (ds\<lparr>ds_login := rg_login r, ds_sendq := rg_q r,
          ds_client := (ds_client ds)\<lparr>cl_serv := (cl_serv (ds_client ds))\<lparr>ns_server := rg_serv r\<rparr>\<rparr>\<rparr>)"

definition on_reg :: "disp_env \<Rightarrow> (login_env \<Rightarrow> reg \<Rightarrow> reg) \<Rightarrow> disp \<Rightarrow> disp option" where
  "on_reg env f ds = put_reg env (f (de_login env) (reg_of ds)) ds"

definition run_sasl :: "disp_env \<Rightarrow> string \<Rightarrow> disp \<Rightarrow> disp option" where
  "run_sasl env data ds = do { r \<leftarrow> inbound_sasl_authenticate (de_login env) data (reg_of ds); put_reg env r ds }"

definition skip_colon :: "string \<Rightarrow> string" where
  "skip_colon s = (if chd s = CHR '':'' then tl s else s)"

definition dialog :: "disp \<Rightarrow> string \<Rightarrow> nat option" where
  "dialog ds nick = find_dialog (cl_serv (ds_client ds)) (sess_list (ds_client ds)) nick"

definition chan_sess :: "disp \<Rightarrow> string \<Rightarrow> nat option" where
  "chan_sess ds chan = serv_channel (cl_serv (ds_client ds)) (sess_list (ds_client ds)) chan"

section \<open>Collected messages\<close>

text \<open>A message of an open batch is collected; otherwise it is handled by \<open>k\<close>.\<close>

definition unless_collected ::
    "disp_env \<Rightarrow> string \<Rightarrow> string list \<Rightarrow> string list \<Rightarrow> message_tags_data \<Rightarrow> (disp \<Rightarrow> disp option) \<Rightarrow> disp \<Rightarrow> disp option" where
  "unless_collected env command word word_eol td k ds =
     do {
       (taken, calls, cl, st) \<leftarrow> inbound_batch_add_message (de_batch env) (word ! 1) command word word_eol td (ds_client ds) (ds_sendq ds);
       let ds1 = ds\<lparr>ds_client := cl, ds_sendq := st, ds_calls := ds_calls ds @ map Batch_Fn calls\<rparr>;
       if taken then Some ds1 else k ds1
     }"

section \<open>Sessions of the server\<close>

text \<open>\<open>handle_mode\<close> works on the sessions of one server; they are taken out of \<open>sess_list\<close> and put back.\<close>

definition own_sessions :: "client \<Rightarrow> session list" where
  "own_sessions cl = map snd (filter (\<lambda>x. fst x = ns_id (cl_serv cl)) (sess_list cl))"

fun put_own :: "nat \<Rightarrow> session list \<Rightarrow> (nat \<times> session) list \<Rightarrow> (nat \<times> session) list" where
  "put_own sid (s # ss) ((i, t) # xs) = (if i = sid then (i, s) # put_own sid ss xs else (i, t) # put_own sid (s # ss) xs)"
| "put_own sid ss xs = xs"

definition own_rank :: "client \<Rightarrow> nat \<Rightarrow> nat" where
  "own_rank cl i = length (filter (\<lambda>x. fst x = ns_id (cl_serv cl)) (take i (sess_list cl)))"

definition run_mode :: "disp_env \<Rightarrow> string list \<Rightarrow> string list \<Rightarrow> string \<Rightarrow> bool \<Rightarrow> disp \<Rightarrow> disp option" where
  "run_mode env word word_eol nick numeric_324 ds =
     do {
       front \<leftarrow> ib_front (de_inb env);
       on_client (\<lambda>cl. do {
           ss \<leftarrow> handle_mode (ib_skip (de_inb env)) (de_raw_modes env) (ns_server (cl_serv cl)) (own_rank cl front) (own_sessions cl)
                   word word_eol nick numeric_324;
           Some (cl\<lparr>sess_list := put_own (ns_id (cl_serv cl)) ss (sess_list cl)\<rparr>)
         }) ds
     }"

section \<open>Messages of four letters\<close>

definition named_join :: "disp_env \<Rightarrow> string \<Rightarrow> string \<Rightarrow> string list \<Rightarrow> string list \<Rightarrow> disp \<Rightarrow> disp option" where
  "named_join env nick ip word word_eol ds =
     (let account = (if word ! 4 = ''*'' then None else Some (word ! 4));
          realname = Some (skip_colon (word_eol ! 5));
          chan = skip_colon (word ! 3)
      in if p_cmp (d_serv ds) nick (my_nick (d_serv ds)) = 0
         then Some (fn ''inbound_ujoin'' None [Some chan, Some nick, Some ip] ds)
         else on_client (inbound_join (de_inb env) chan nick (Some ip) account realname) ds)"

definition named_kick :: "disp_env \<Rightarrow> string \<Rightarrow> string list \<Rightarrow> string list \<Rightarrow> disp \<Rightarrow> disp option" where
  "named_kick env nick word word_eol ds =
     (let kicked = word ! 4; reason = skip_colon (word_eol ! 5)
      in if kicked = [] then Some ds
         else if kicked = my_nick (d_serv ds) then on_client (inbound_ukick (de_inb env) (word ! 3) nick reason) ds
         else on_client (inbound_kick (de_inb env) (word ! 3) kicked nick reason) ds)"

definition named_part :: "disp_env \<Rightarrow> string \<Rightarrow> string \<Rightarrow> string list \<Rightarrow> string list \<Rightarrow> disp \<Rightarrow> disp option" where
  "named_part env nick ip word word_eol ds =
     (let chan = skip_colon (word ! 3); reason = skip_colon (word_eol ! 4)
      in if nick = my_nick (d_serv ds) then on_client (inbound_upart chan ip reason) ds
         else on_client (inbound_part (de_inb env) chan nick ip reason) ds)"

text \<open>The index of the trailing parameter, and the text behind its colon. Without a colon the index is 32, behind the last word, where
  the array has a null pointer.\<close>

definition trailing_index :: "string list \<Rightarrow> nat" where
  "trailing_index word_eol = 3 + length (takeWhile (\<lambda>w. chd w \<noteq> CHR '':'') (take (PDIWORDS - 3) (drop 3 word_eol)))"

text \<open>FAIL, WARN and NOTE share their last step.\<close>

definition standard_reply :: "nat \<Rightarrow> string \<Rightarrow> string \<Rightarrow> string list \<Rightarrow> disp \<Rightarrow> disp option" where
  "standard_reply sess name txt word ds =
     (if word ! 3 = ''*'' then show_event sess (''XP_TE_'' @ name) [Some (word ! 4), Some txt] ds
      else show_event sess (''XP_TE_'' @ name @ ''CMD'') [Some (word ! 3), Some (word ! 4), Some txt] ds)"

definition multiline_limit :: "disp_env \<Rightarrow> nat \<Rightarrow> string list \<Rightarrow> disp \<Rightarrow> disp option" where
  "multiline_limit env sess word ds =
     (let lim = c_atoi (word ! 5);
          serv = d_serv ds;
          acmp = be_acmp (de_batch env);
          serv' = (if acmp (word ! 4) ''MULTILINE_MAX_BYTES'' = 0 \<and> lim > 0 then serv\<lparr>multiline_max_bytes := lim\<rparr>
                   else if acmp (word ! 4) ''MULTILINE_MAX_LINES'' = 0 \<and> lim > 0 then serv\<lparr>multiline_max_lines := lim\<rparr>
                   else serv);
          cl = ds_client ds;
          ds1 = ds\<lparr>ds_client := cl\<lparr>cl_serv := (cl_serv cl)\<lparr>ns_server := serv'\<rparr>\<rparr>\<rparr>
      in Some (if take 10 (word ! 4) = ''MULTILINE_'' then fn ''PrintTextf'' (Some sess) [Some (word ! 4)] ds1 else ds1))"

text \<open>What to do on a server that requires an account; the session is always given.\<close>

definition inbound_account_required_hint :: "disp_env \<Rightarrow> nat \<Rightarrow> disp \<Rightarrow> disp" where
  "inbound_account_required_hint env sess ds =
     (let lm = le_loginmethod (de_login env);
          sasl = (lm \<in> {LOGIN_SASL, LOGIN_SASLEXTERNAL, LOGIN_SASL_SCRAM_SHA_1, LOGIN_SASL_SCRAM_SHA_256, LOGIN_SASL_SCRAM_SHA_512,
                    LOGIN_SASL_OAUTHBEARER});
          ds1 = (if sasl then ds
                 else fn ''PrintText'' (Some sess) [Some (''This server requires an account. Choose a SASL login method for this network in the Network List.'' @ [CHR 0x0A])] ds)
      in if accreg_before_connect (ds_login ds)
         then fn ''PrintText'' (Some sess)
                [Some (''If you don'' @ [CHR 0x27] @ ''t have an account yet, you can create one before connecting with /REGISTER.'' @ [CHR 0x0A])] ds1
         else ds1)"

definition fail_event :: "disp_env \<Rightarrow> nat \<Rightarrow> string \<Rightarrow> string list \<Rightarrow> disp \<Rightarrow> disp option" where
  "fail_event env sess txt word ds =
     do {
       ds1 \<leftarrow> standard_reply sess ''FAIL'' txt word ds;
       Some (if word ! 3 = ''*'' \<and> be_acmp (de_batch env) (word ! 4) ''ACCOUNT_REQUIRED'' = 0
             then inbound_account_required_hint env sess ds1 else ds1)
     }"

definition named_fail :: "disp_env \<Rightarrow> nat \<Rightarrow> string list \<Rightarrow> string list \<Rightarrow> disp \<Rightarrow> disp option" where
  "named_fail env sess word word_eol ds =
     do {
       txt \<leftarrow> STRIP_COLON word word_eol (trailing_index word_eol);
       let cmd = (\<lambda>name. be_acmp (de_batch env) (word ! 3) name = 0);
       if cmd ''CHATHISTORY''
       then fail_event env sess txt word (fn ''chathistory_handle_fail'' None [Some (word ! 4), Some (word ! 5)] ds)
       else if cmd ''REDACT'' then Some (fn ''inbound_redact_fail'' (Some sess) [Some (word ! 4), Some txt] ds)
       else if cmd ''PERSISTENCE''
       then on_reg env (\<lambda>e. persistence_handle_fail e (Some (word ! 4))
              (if trailing_index word_eol > 5 \<and> word ! 5 \<noteq> [] then Some (word ! 5) else None) (Some txt)) ds
       else if cmd ''BATCH'' then do { ds1 \<leftarrow> multiline_limit env sess word ds; fail_event env sess txt word ds1 }
       else fail_event env sess txt word ds
     }"

definition named_reply :: "nat \<Rightarrow> string \<Rightarrow> string list \<Rightarrow> string list \<Rightarrow> disp \<Rightarrow> disp option" where
  "named_reply sess name word word_eol ds =
     do {
       txt \<leftarrow> STRIP_COLON word word_eol (trailing_index word_eol);
       standard_reply sess name txt word ds
     }"

definition garbage :: "nat \<Rightarrow> string list \<Rightarrow> disp \<Rightarrow> disp option" where
  "garbage sess word_eol ds = Some (fn ''PrintTextTimeStampf'' (Some sess) [Some (''GARBAGE: '' @ word_eol ! 1)] ds)"

definition named_four ::
    "disp_env \<Rightarrow> nat \<Rightarrow> string \<Rightarrow> string \<Rightarrow> string \<Rightarrow> string list \<Rightarrow> string list \<Rightarrow> message_tags_data \<Rightarrow> disp \<Rightarrow> disp option" where
  "named_four env sess type nick ip word word_eol td =
     (let collect = unless_collected env type word word_eol td
      in if type = ''JOIN'' then collect (named_join env nick ip word word_eol)
         else if type = ''KICK'' then collect (named_kick env nick word word_eol)
         else if type = ''KILL'' then show_event sess ''XP_TE_KILL'' [Some nick, Some (skip_colon (word_eol ! 4))]
         else if type = ''MODE'' then collect (run_mode env word word_eol nick False)
         else if type = ''NICK'' then collect (on_client (inbound_newnick (de_inb env) nick (skip_colon (word_eol ! 3)) False))
         else if type = ''PART'' then collect (named_part env nick ip word word_eol)
         else if type = ''PING'' then Some \<circ> on_queue (tcp_sendf (de_net env) (''PONG '' @ word_eol ! 3 @ crlf))
         else if type = ''PONG'' then
           Some \<circ> fn ''inbound_ping_reply'' (Some (ib_server (de_inb env))) [Some (skip_colon (word ! 4)), Some (word ! 3)]
         else if type = ''QUIT'' then collect (on_client (inbound_quit (de_inb env) nick ip (skip_colon (word_eol ! 3))))
         else if type = ''AWAY'' then
           on_client (inbound_away_notify (de_inb env) nick (if chd (word_eol ! 3) = CHR '':'' then Some (tl (word_eol ! 3)) else None))
         else if type = ''FAIL'' then named_fail env sess word word_eol
         else if type = ''WARN'' then named_reply sess ''WARN'' word word_eol
         else if type = ''NOTE'' then named_reply sess ''NOTE'' word word_eol
         else garbage sess word_eol)"

section \<open>Notices and private messages\<close>

definition inbound_channel_context :: "disp \<Rightarrow> message_tags_data \<Rightarrow> nat option" where
  "inbound_channel_context ds td =
     (case td_all_tags td of
        None \<Rightarrow> None
      | Some tags \<Rightarrow>
          (case map_of tags ''+channel-context'' of
             None \<Rightarrow> None
           | Some chan \<Rightarrow> if is_channel (d_serv ds) chan then chan_sess ds chan else None))"

definition tags_lookup_reply :: "(string \<times> string) list option \<Rightarrow> string option" where
  "tags_lookup_reply tags =
     (case tags of
        None \<Rightarrow> None
      | Some t \<Rightarrow>
          (case or_else (map_of t ''+reply'') (map_of t ''+draft/reply'') of
             None \<Rightarrow> None
           | Some v \<Rightarrow> if v = [] then None else Some v))"

definition sess_channel :: "disp \<Rightarrow> nat \<Rightarrow> string" where
  "sess_channel ds i = channel (snd (sess_list (ds_client ds) ! i))"

definition ignored :: "string \<Rightarrow> u32 \<Rightarrow> disp \<Rightarrow> (bool \<times> disp) option" where
  "ignored host type ds =
     do {
       (ig, st) \<leftarrow> ignore_check (flood_ignore (ds_flood ds)) host type;
       Some (ig, ds\<lparr>ds_flood := (ds_flood ds)\<lparr>flood_ignore := st\<rparr>\<rparr>)
     }"

definition named_notice ::
    "disp_env \<Rightarrow> string \<Rightarrow> string \<Rightarrow> string list \<Rightarrow> string list \<Rightarrow> message_tags_data \<Rightarrow> disp \<Rightarrow> disp option" where
  "named_notice env nick ip word word_eol td ds =
     (let txt = skip_colon (word_eol ! 4)
      in if de_challenge env \<and> p_cmp (d_serv ds) (word ! 1) ''Q!TheQBot@CServe.quakenet.org'' = 0 \<and>
            take 10 txt = ''CHALLENGE '' \<and> de_password env \<noteq> []
         then Some (on_queue (tcp_sendf (de_net env)
                (''PRIVMSG Q@CServe.quakenet.org :CHALLENGEAUTH '' @ de_user env @ '' '' @
                 de_response env (de_user env) (de_password env) (word ! 5) @ '' HMAC-SHA-256'' @ crlf)) ds)
         else if td_echo_confirmed td then Some ds
         else do {
           (ig, ds1) \<leftarrow> ignored (word ! 1) IG_NOTI ds;
           if ig then Some ds1
           else
             (let to = (if is_channel (d_serv ds1) (word ! 3) then word ! 3
                        else case inbound_channel_context ds1 td of None \<Rightarrow> word ! 3 | Some i \<Rightarrow> sess_channel ds1 i)
              in Some (fn ''inbound_notice'' None [Some to, Some nick, Some txt, Some ip] ds1))
         })"

text \<open>An own message that was shown before its echo came: its identifier is recorded and the context of a reply attached.\<close>

definition confirm_echo :: "disp_env \<Rightarrow> bool \<Rightarrow> nat option \<Rightarrow> message_tags_data \<Rightarrow> disp \<Rightarrow> disp" where
  "confirm_echo env track sess td ds =
     (case sess of
        None \<Rightarrow> ds
      | Some i \<Rightarrow>
          (let ds1 = (case td_msgid td of
                        None \<Rightarrow> ds
                      | Some m \<Rightarrow>
                          fn ''scrollback_confirm_pending'' sess [td_label td, Some m]
                            (if track then fn ''chathistory_track_msgid_ts'' sess [Some m] ds else ds))
           in case tags_lookup_reply (td_all_tags td) of
                None \<Rightarrow> ds1
              | Some r \<Rightarrow> if de_reply_show env then fn ''fe_reply_context_set'' sess [Some r] ds1 else ds1))"

text \<open>A message in quotes of the character 1. Its last byte is cut off, in the line and so in all rests of it.\<close>

definition ctcp_echo ::
    "disp_env \<Rightarrow> nat \<Rightarrow> string \<Rightarrow> string \<Rightarrow> string \<Rightarrow> string \<Rightarrow> message_tags_data \<Rightarrow> disp \<Rightarrow> disp option" where
  "ctcp_echo env sess to nick ip txt td ds =
     (if td_echo_confirmed td
      then Some (confirm_echo env False (if is_channel (d_serv ds) to then chan_sess ds to else dialog ds to) td ds)
      else if be_ncmp (de_batch env) txt ''ACTION '' 7 = 0
      then Some (fn ''inbound_action'' (if is_channel (d_serv ds) to then Some sess else dialog ds to)
             [Some to, Some nick, Some ip, Some (drop 7 txt)] ds)
      else show_event sess ''XP_TE_CTCPSEND'' [Some to, Some (takeWhile (\<lambda>c. c \<noteq> CHR 0x01) txt)] ds)"

definition ctcp_words ::
    "disp_env \<Rightarrow> string \<Rightarrow> string list \<Rightarrow> string list \<Rightarrow> (string list \<times> string list) option" where
  "ctcp_words env txt word word_eol =
     (if be_ncmp (de_batch env) txt ''DCC '' 4 = 0
      then do {
        (nw, ne) \<leftarrow> process_data_init (ib_skip (de_inb env)) True False (word_eol ! 6);
        Some (take 6 word @ take (PDIWORDS - 6) (drop 1 nw), take 6 word_eol @ take (PDIWORDS - 6) (drop 1 ne))
      }
      else Some (word, word_eol))"

definition named_ctcp ::
    "disp_env \<Rightarrow> nat \<Rightarrow> string \<Rightarrow> string \<Rightarrow> string \<Rightarrow> string \<Rightarrow> string list \<Rightarrow> string list \<Rightarrow> message_tags_data \<Rightarrow> disp \<Rightarrow> disp option" where
  "named_ctcp env sess to nick ip txt0 word word_eol0 td ds =
     (let cut = (last txt0 = CHR 0x01);
          txt = tl (if cut then butlast txt0 else txt0);
          word_eol = (if cut then map butlast word_eol0 else word_eol0)
      in if de_have_echo env \<and> p_cmp (d_serv ds) nick (my_nick (d_serv ds)) = 0 then ctcp_echo env sess to nick ip txt td ds
         else do {
           let ds1 = (if be_ncmp (de_batch env) txt ''ACTION'' 6 \<noteq> 0
                      then ds\<lparr>ds_flood := snd (flood_check (de_flood env) (ds_flood ds) (be_now (de_batch env)) nick ip 0)\<rparr> else ds);
           (word', eol') \<leftarrow> ctcp_words env txt word word_eol;
           Some (ds1\<lparr>ds_calls := ds_calls ds1 @ [Ctcp_Handle sess to nick ip txt word' eol']\<rparr>)
         })"

text \<open>A private message, from somebody else or the echo of an own one. Of a message to oneself the second copy is dropped.\<close>

definition self_copy :: "disp_env \<Rightarrow> string \<Rightarrow> message_tags_data \<Rightarrow> disp \<Rightarrow> bool" where
  "self_copy env to td ds =
     (p_cmp (d_serv ds) to (my_nick (d_serv ds)) = 0 \<and>
      (case dialog ds to of
         None \<Rightarrow> False
       | Some i \<Rightarrow>
           (case td_msgid td of
              Some (c # m) \<Rightarrow> de_is_dup env i (c # m)
            | _ \<Rightarrow> de_have_labeled env \<and> td_label td = None)))"

definition named_private ::
    "disp_env \<Rightarrow> string \<Rightarrow> string \<Rightarrow> string \<Rightarrow> string \<Rightarrow> string list \<Rightarrow> message_tags_data \<Rightarrow> disp \<Rightarrow> disp option" where
  "named_private env to nick ip txt word td ds =
     do {
       (ig, ds1) \<leftarrow> ignored (word ! 1) IG_PRIV ds;
       Some (if ig then ds1
             else if p_cmp (d_serv ds1) nick (my_nick (d_serv ds1)) \<noteq> 0
             then
               (case inbound_channel_context ds1 td of
                  Some i \<Rightarrow> fn ''inbound_chanmsg'' (Some i) [Some (sess_channel ds1 i), Some nick, Some txt, None] ds1
                | None \<Rightarrow> fn ''inbound_privmsg'' None [Some nick, Some ip, Some txt] ds1)
             else if td_echo_confirmed td then confirm_echo env True (dialog ds1 to) td ds1
             else if self_copy env to td ds1 then ds1
             else fn ''inbound_chanmsg'' (dialog ds1 to) [Some to, Some nick, Some txt, Some ''fromme''] ds1)
     }"

definition named_privmsg ::
    "disp_env \<Rightarrow> nat \<Rightarrow> string \<Rightarrow> string \<Rightarrow> string list \<Rightarrow> string list \<Rightarrow> message_tags_data \<Rightarrow> disp \<Rightarrow> disp option" where
  "named_privmsg env sess nick ip word word_eol td ds =
     (if word ! 3 = [] then Some ds
      else
        (let to0 = word ! 3;
             serv = d_serv ds;
             to = (if \<not> c_strchr (chantypes serv) (chd to0) \<and> c_strchr (nick_prefixes serv) (chd to0) then tl to0 else to0);
             txt = skip_colon (word_eol ! 4)
         in if chd txt = CHR 0x01 then named_ctcp env sess to nick ip txt word word_eol td ds
            else if is_channel serv to
            then
              (if td_echo_confirmed td then Some (confirm_echo env True (chan_sess ds to) td ds)
               else do {
                 (ig, ds1) \<leftarrow> ignored (word ! 1) IG_CHAN ds;
                 Some (if ig then ds1 else fn ''inbound_chanmsg'' None [Some to, Some nick, Some txt, None] ds1)
               })
            else named_private env to nick ip txt word td ds))"

section \<open>Messages with longer names\<close>

text \<open>Only the first four letters are compared, and then in part the length and the whole name. \<open>strncasecmp\<close> is \<open>be_ncmp\<close> as well.\<close>

definition named_invite :: "disp_env \<Rightarrow> nat \<Rightarrow> string \<Rightarrow> string list \<Rightarrow> string list \<Rightarrow> disp \<Rightarrow> disp option" where
  "named_invite env sess nick word word_eol ds =
     do {
       (ig, ds1) \<leftarrow> ignored (word ! 1) IG_INVI ds;
       if ig then Some ds1
       else do {
         txt \<leftarrow> STRIP_COLON word word_eol 4;
         if p_cmp (d_serv ds1) (word ! 3) (my_nick (d_serv ds1)) \<noteq> 0
         then show_event sess ''XP_TE_INVITEDOTHER'' [Some txt, Some nick, Some (word ! 3), Some (de_servername env)] ds1
         else show_event sess ''XP_TE_INVITED'' [Some txt, Some nick, Some (de_servername env)] ds1
       }
     }"

definition named_batch :: "disp_env \<Rightarrow> string list \<Rightarrow> message_tags_data \<Rightarrow> disp \<Rightarrow> disp" where
  "named_batch env word td ds =
     (let ref = word ! 3
      in if \<not> be_have_batch (de_batch env) then ds
         else if chd ref = CHR ''+''
         then
           (let (calls, st) = inbound_batch_start (de_batch env) (tl ref) (word ! 4) word td (ds_sendq ds)
            in ds\<lparr>ds_sendq := st, ds_calls := ds_calls ds @ map Batch_Fn calls\<rparr>)
         else if chd ref = CHR ''-''
         then
           (let (calls, st) = inbound_batch_end (de_batch env) (tl ref) (ds_client ds) (ds_sendq ds)
            in ds\<lparr>ds_sendq := st, ds_calls := ds_calls ds @ map Batch_Fn calls\<rparr>)
         else ds)"

definition named_redact :: "string \<Rightarrow> string list \<Rightarrow> string list \<Rightarrow> disp \<Rightarrow> disp" where
  "named_redact nick word word_eol ds =
     (let target = word ! 3; msgid = word ! 4; reason = skip_colon (word_eol ! 5);
          args = [Some msgid, Some nick, if reason = [] then None else Some reason]
      in if target = [] \<or> msgid = [] then ds
         else case or_else (chan_sess ds target) (dialog ds target) of
                None \<Rightarrow> ds
              | Some i \<Rightarrow> fn ''scrollback_redact_for_session'' (Some i) args (fn ''fe_redact_message'' (Some i) args ds))"

definition named_rename :: "disp_env \<Rightarrow> string \<Rightarrow> string list \<Rightarrow> string list \<Rightarrow> disp \<Rightarrow> disp option" where
  "named_rename env nick word word_eol ds =
     (let oldchan = word ! 3; newchan = word ! 4; reason = skip_colon (word_eol ! 5);
          base = ''Channel '' @ oldchan @ '' has been renamed to '' @ newchan @ '' by '' @ nick
      in if oldchan = [] \<or> newchan = [] then Some ds
         else case chan_sess ds oldchan of
                None \<Rightarrow> Some ds
              | Some i \<Rightarrow>
                  do {
                    name \<leftarrow> safe_strcpy (ib_skip (de_inb env)) newchan CHANLEN;
                    ds1 \<leftarrow> on_client (upd_sess i (\<lambda>s. Some (emit Fe_Set_Title (emit Fe_Set_Channel (s\<lparr>channel := name\<rparr>))))) ds;
                    show_event i ''XP_TE_SERVTEXT'' [Some (if reason \<noteq> [] then base @ '': '' @ reason else base)] ds1
                  })"

text \<open>REGISTER and VERIFY.\<close>

definition named_register :: "disp_env \<Rightarrow> bool \<Rightarrow> string list \<Rightarrow> string list \<Rightarrow> disp \<Rightarrow> disp option" where
  "named_register env verify word word_eol ds =
     (let acmp = be_acmp (de_batch env); account = word ! 4; msg = skip_colon (word_eol ! 5); tab = ib_server (de_inb env);
          say = (\<lambda>what. show_event tab ''XP_TE_SERVTEXT'' [Some (''Account '' @ [CHR 0x27] @ account @ [CHR 0x27] @ what @ msg)])
      in if acmp (word ! 3) ''SUCCESS'' = 0
         then map_option (fn ''inbound_identified'' None [])
                (say (if verify then '' verified successfully: '' else '' registered successfully: '') ds)
         else if \<not> verify \<and> acmp (word ! 3) ''VERIFICATION_REQUIRED'' = 0 then say '' requires verification: '' ds
         else Some ds)"

text \<open>A metadata notification: keys of persistent sessions change the registration, others are shown.\<close>

definition inbound_metadata :: "disp_env \<Rightarrow> string \<Rightarrow> string \<Rightarrow> string \<Rightarrow> string option \<Rightarrow> disp \<Rightarrow> disp option" where
  "inbound_metadata env target key visibility val ds =
     (if target = [] \<or> key = [] then Some ds
      else (case persistence_match (be_ncmp (de_batch env)) key of
        Some sub \<Rightarrow> on_reg env (\<lambda>e. persistence_handle_metadata e (Some target) sub val) ds
      | None \<Rightarrow>
          (let sess = (if is_channel (d_serv ds) target then chan_sess ds target else if target \<noteq> ''*'' then dialog ds target else None);
               head = ''Metadata ['' @ target @ ''] '' @ key;
               msg = (case val of Some v \<Rightarrow> head @ '' ('' @ (if visibility \<noteq> [] then visibility else ''*'') @ ''): '' @ v | None \<Rightarrow> head @ '': unset'')
           in show_event (case sess of None \<Rightarrow> ib_server (de_inb env) | Some i \<Rightarrow> i) ''XP_TE_SERVTEXT'' [Some msg, Some (de_servername env)] ds)))"

definition named_long ::
    "disp_env \<Rightarrow> nat \<Rightarrow> string \<Rightarrow> string \<Rightarrow> string \<Rightarrow> string list \<Rightarrow> string list \<Rightarrow> message_tags_data \<Rightarrow> disp \<Rightarrow> disp option" where
  "named_long env sess type nick ip word word_eol td =
     (let t = take 4 type; inb = de_inb env; caps = de_caps env;
          collect = (\<lambda>command. unless_collected env command word word_eol td);
          starts = (\<lambda>name. length name \<le> length type \<and> be_ncmp (de_batch env) type name (length name) = 0);
          is = (\<lambda>name. length type = length name \<and> be_acmp (de_batch env) type name = 0);
          stripped = (\<lambda>i k ds. case STRIP_COLON word word_eol i of None \<Rightarrow> None | Some x \<Rightarrow> k x ds)
      in if t = ''ACCO'' then stripped 3 (\<lambda>a. on_client (inbound_account inb nick a))
         else if t = ''AUTH'' then run_sasl env (word_eol ! 3)
         else if t = ''CHAT'' then (if starts ''CHATHISTORY'' then collect ''CHATHISTORY'' Some else garbage sess word_eol)
         else if t = ''CHGH'' then
           stripped 4 (\<lambda>h. on_client (inbound_user_info inb sess None (Some (word ! 3)) (Some h) None nick None None 255))
         else if t = ''SETN'' then stripped 3 (\<lambda>r. on_client (inbound_user_info inb sess None None None None nick (Some r) None 255))
         else if t = ''INVI'' then named_invite env sess nick word word_eol
         else if t = ''NOTI'' then collect ''NOTICE'' (named_notice env nick ip word word_eol td)
         else if t = ''PRIV'' then collect ''PRIVMSG'' (named_privmsg env sess nick ip word word_eol td)
         else if t = ''TOPI'' then collect ''TOPIC'' (on_client (inbound_topicnew inb nick (word ! 3) (skip_colon (word_eol ! 4))))
         else if t = ''WALL'' then show_event sess ''XP_TE_WALLOPS'' [Some nick, Some (skip_colon (word_eol ! 3))]
         else if t = ''BATC'' then Some \<circ> named_batch env word td
         else if t = ''TAGM'' then
           (if have_message_tags caps \<and> word ! 3 \<noteq> [] then Some \<circ> fn ''inbound_tagmsg'' None [Some (word ! 3), Some nick, Some ip] else Some)
         else if t = ''MARK'' then
           (if starts ''MARKREAD'' then Some \<circ> fn ''handle_markread_response'' None [Some (word ! 3), Some (word ! 4)] else Some)
         else if t = ''META'' then
           (if is ''METADATA''
            then inbound_metadata env (word ! 3) (word ! 4) (word ! 5) (if word ! 6 \<noteq> [] then Some (skip_colon (word_eol ! 6)) else None)
            else garbage sess word_eol)
         else if t = ''PERS'' then
           (if is ''PERSISTENCE'' then on_reg env (\<lambda>e. persistence_handle_reply e (word_eol ! 3)) else garbage sess word_eol)
         else if t = ''REDA'' then (if starts ''REDACT'' then Some \<circ> named_redact nick word word_eol else Some)
         else if t = ''RENA'' then (if starts ''RENAME'' then named_rename env nick word word_eol else Some)
         else if t = ''REGI'' then (if starts ''REGISTER'' then named_register env False word word_eol else Some)
         else if t = ''VERI'' then (if starts ''VERIFY'' then named_register env True word word_eol else Some)
         else garbage sess word_eol)"

section \<open>Messages with a source\<close>

text \<open>ACK and CAP.\<close>

definition named_three :: "disp_env \<Rightarrow> nat \<Rightarrow> string \<Rightarrow> string list \<Rightarrow> string list \<Rightarrow> disp \<Rightarrow> disp option" where
  "named_three env sess type word word_eol =
     (let sub = (\<lambda>name. be_ncmp (de_batch env) (word ! 4) name (length name) = 0);
          exts = (if chd (word ! 5) = CHR '':'' then tl (word_eol ! 5) else word_eol ! 5)
      in if type = ''ACK'' then Some
         else if type = ''CAP'' then
           (if sub ''ACK'' then on_reg env (\<lambda>e. inbound_cap_ack e (word ! 1) exts)
            else if sub ''LS'' \<or> sub ''NEW'' then on_reg env (\<lambda>e. inbound_cap_ls e (word ! 1) exts)
            else if sub ''NAK'' then on_reg env (\<lambda>e. inbound_cap_nak e exts)
            else if sub ''LIST'' then on_reg env (\<lambda>e. inbound_cap_list (word ! 1) exts)
            else if sub ''DEL'' then on_reg env (\<lambda>e. inbound_cap_del e (word ! 1) exts)
            else Some)
         else garbage sess word_eol)"

text \<open>The nick and the address of the source.\<close>

definition source_nick :: "disp_env \<Rightarrow> string \<Rightarrow> (string \<times> string) option" where
  "source_nick env src =
     do {
       ip \<leftarrow> safe_strcpy (ib_skip (de_inb env)) (if CHR ''!'' \<in> set src then tl (dropWhile (\<lambda>c. c \<noteq> CHR ''!'') src) else src) 128;
       nick \<leftarrow> safe_strcpy (ib_skip (de_inb env)) (takeWhile (\<lambda>c. c \<noteq> CHR ''!'') src) NICKLEN;
       Some (nick, ip)
     }"

text \<open>The account of the source is updated with every message.\<close>

definition account_step :: "disp_env \<Rightarrow> string \<Rightarrow> message_tags_data \<Rightarrow> disp \<Rightarrow> disp option" where
  "account_step env nick td ds =
     (if have_account_tag (de_caps env)
      then on_client (inbound_account (de_inb env) nick
             (case td_account td of None \<Rightarrow> ''*'' | Some a \<Rightarrow> if a = [] then ''*'' else a)) ds
      else Some ds)"

definition process_named_msg ::
    "disp_env \<Rightarrow> nat \<Rightarrow> string \<Rightarrow> string list \<Rightarrow> string list \<Rightarrow> message_tags_data \<Rightarrow> disp \<Rightarrow> disp option" where
  "process_named_msg env sess type word word_eol td ds =
     do {
       (nick, ip) \<leftarrow> source_nick env (word ! 1);
       ds1 \<leftarrow> account_step env nick td ds;
       if length type = 4 then named_four env sess type nick ip word word_eol td ds1
       else if 5 \<le> length type then named_long env sess type nick ip word word_eol td ds1
       else if length type = 3 then named_three env sess type word word_eol ds1
       else garbage sess word_eol ds1
     }"

section \<open>Messages without a source\<close>

text \<open>The text of an error is read from the eighth byte on, wherever the line ends.\<close>

definition process_named_servermsg ::
    "disp_env \<Rightarrow> string \<Rightarrow> string \<Rightarrow> string list \<Rightarrow> disp \<Rightarrow> disp option" where
  "process_named_servermsg env buf rawname word_eol ds =
     (let sess = ib_server (de_inb env); ncmp = be_ncmp (de_batch env)
      in if take 5 buf = ''PING '' then Some (on_queue (tcp_sendf (de_net env) (''PONG '' @ drop 5 buf @ crlf)) ds)
         else if take 5 buf = ''ERROR'' then
           (if length buf < 7 then None else show_event sess ''XP_TE_SERVERERROR'' [Some (drop 7 buf)] ds)
         else if take 7 buf = ''NOTICE '' then
           show_event sess ''XP_TE_SERVNOTICE'' [Some (skip_colon (word_eol ! 3)), Some (de_servername env)] ds
         else if take 12 buf = ''AUTHENTICATE'' then run_sasl env (word_eol ! 2) ds
         else if ncmp buf ''MARKREAD '' 9 = 0 then
           (let target = word_eol ! 2
            in Some (fn ''handle_markread_response'' None
                 [Some (takeWhile (\<lambda>c. c \<noteq> CHR '' '') target),
                  if CHR '' '' \<in> set target then Some (dropWhile (\<lambda>c. c = CHR '' '') (dropWhile (\<lambda>c. c \<noteq> CHR '' '') target)) else None] ds))
         else if ncmp buf ''PERSISTENCE '' 12 = 0 then on_reg env (\<lambda>e. persistence_handle_reply e (drop 12 buf)) ds
         else show_event sess ''XP_TE_SERVTEXT'' [Some buf, Some (de_servername env), Some rawname] ds)"

end
