(* ===== verification/Numeric.thy ===== *)
theory Numeric
  imports Dispatch
begin

text \<open>
  Numeric replies (\<open>process_numeric\<close> of \<open>src/src/common/proto-irc.c\<close> with the handlers of \<open>src/src/common/inbound.c\<close> that only
  numerics call), in groups. Every group says whether the reply is also shown as text (the label \<open>def\<close> of the source). \<open>receive\<close>
  composes the whole path from a received line to the state of the client.
\<close>

section \<open>Helpers\<close>

definition c_atol :: "string \<Rightarrow> int" where
  "c_atol s = max (- (2 ^ 63)) (min (2 ^ 63 - 1) (c_number s))"

type_synonym numeric_op = "disp \<Rightarrow> (bool \<times> disp) option"

abbreviation shown :: "disp option \<Rightarrow> (bool \<times> disp) option" where
  "shown r \<equiv> map_option (Pair True) r"

abbreviation settled :: "disp option \<Rightarrow> (bool \<times> disp) option" where
  "settled r \<equiv> map_option (Pair False) r"

definition or_tab :: "disp_env \<Rightarrow> nat option \<Rightarrow> nat" where
  "or_tab env sess = (case sess of None \<Rightarrow> ib_server (de_inb env) | Some i \<Rightarrow> i)"

definition tab_text :: "disp_env \<Rightarrow> string \<Rightarrow> string list \<Rightarrow> disp \<Rightarrow> disp option" where
  "tab_text env txt word = show_event (ib_server (de_inb env)) ''XP_TE_SERVTEXT'' [Some txt, Some (word ! 1), Some (word ! 2)]"

text \<open>\<open>whois_sess\<close>: the server tab, or the front session by preference.\<close>

definition whois_sess :: "disp_env \<Rightarrow> nat option" where
  "whois_sess env = (if de_whois_front env then ib_front (de_inb env) else Some (ib_server (de_inb env)))"

definition show_whois :: "disp_env \<Rightarrow> string \<Rightarrow> string option list \<Rightarrow> disp \<Rightarrow> disp option" where
  "show_whois env name args ds =
     (if skip_next_whois (ds_flags ds) then Some ds
      else do { i \<leftarrow> whois_sess env; show_event i name args ds })"

section \<open>Login and the own state\<close>

text \<open>\<open>inbound_login_start\<close>: the server says which nick the client has.\<close>

definition inbound_login_start :: "disp_env \<Rightarrow> nat \<Rightarrow> string \<Rightarrow> string \<Rightarrow> disp \<Rightarrow> disp option" where
  "inbound_login_start env sess nick servname ds =
     do {
       ds1 \<leftarrow> on_client (\<lambda>cl. inbound_newnick (de_inb env) (my_nick (ns_server (cl_serv cl))) nick True cl) ds;
       let ds2 = fn ''server_set_name'' None [Some servname] ds1;
       let ds3 = (if sess_type (snd (sess_list (ds_client ds2) ! sess)) = SESS_SERVER then fn ''log_open_or_close'' (Some sess) [] ds2 else ds2);
       Some (if reconnect_away (ds_flags ds3)
             then on_flags (\<lambda>f. f\<lparr>reconnect_away := False\<rparr>)
                    (fn ''handle_command'' (Some (ib_server (de_inb env))) [Some ''away''] ds3)
             else ds3)
     }"

definition after_at :: "string \<Rightarrow> string" where
  "after_at s = rev (takeWhile (\<lambda>c. c \<noteq> CHR ''@'') (rev s))"

definition numeric_welcome :: "disp_env \<Rightarrow> nat \<Rightarrow> string list \<Rightarrow> disp \<Rightarrow> disp option" where
  "numeric_welcome env sess word ds =
     do {
       ds1 \<leftarrow> inbound_login_start env sess (word ! 3) (word ! 1) ds;
       ds2 \<leftarrow> on_reg env (\<lambda>e. persistence_registration_complete) ds1;
       Some (if take 5 (word ! 7) = ''PTnet'' \<and> take 3 (word ! 8) = ''IRC'' \<and> take 7 (word ! 9) = ''Network'' \<and> CHR ''@'' \<in> set (word ! 10)
             then
               (let ds3 = on_flags (\<lambda>f. f\<lparr>use_who := False\<rparr>) ds2
                in if de_ip_from_server env then fn ''inbound_foundip'' (Some sess) [Some (after_at (word ! 10))] ds3 else ds3)
             else ds2)
     }"

text \<open>Numeric 005 changes the tables of the server and writes to its tab.\<close>

definition numeric_005 :: "disp_env \<Rightarrow> string list \<Rightarrow> disp \<Rightarrow> disp option" where
  "numeric_005 env word =
     on_client (\<lambda>cl.
       let t = ib_server (de_inb env)
       in if t < length (sess_list cl)
          then do {
            (serv, s) \<leftarrow> inbound_005 (be_acmp (de_batch env)) (de_iconv env) (ib_skip (de_inb env)) word
                           (ns_server (cl_serv cl), snd (sess_list cl ! t));
            Some (cl\<lparr>cl_serv := (cl_serv cl)\<lparr>ns_server := serv\<rparr>, sess_list := (sess_list cl)[t := (fst (sess_list cl ! t), s)]\<rparr>)
          }
          else None)"

definition inbound_next_nick :: "disp_env \<Rightarrow> nat \<Rightarrow> string \<Rightarrow> bool \<Rightarrow> disp \<Rightarrow> disp option" where
  "inbound_next_nick env sess nick err ds =
     (let ds1 = on_flags (\<lambda>f. f\<lparr>nickcount := nickcount f + 1\<rparr>) ds;
          next = (\<lambda>newnick. show_event sess (if err then ''XP_TE_NICKERROR'' else ''XP_TE_NICKCLASH'') [Some nick, Some newnick]
                    (on_queue (irc_change_nick (de_net env) newnick) ds1))
      in if nickcount (ds_flags ds1) = 2 then next (de_nick2 env)
         else if nickcount (ds_flags ds1) = 3 then next (de_nick3 env)
         else show_event sess ''XP_TE_NICKFAIL'' [] ds1)"

definition inbound_uaway :: "disp \<Rightarrow> disp option" where
  "inbound_uaway ds =
     on_client (\<lambda>cl. inbound_set_all_away_status (my_nick (ns_server (cl_serv cl))) 1 cl)
       (fn ''fe_set_away'' None [] (on_flags (\<lambda>f. f\<lparr>is_away := True\<rparr>) ds))"

definition inbound_uback :: "disp \<Rightarrow> disp option" where
  "inbound_uback ds =
     on_client (\<lambda>cl. inbound_set_all_away_status (my_nick (ns_server (cl_serv cl))) 0 cl)
       (fn ''fe_set_away'' None [] (on_flags (\<lambda>f. f\<lparr>is_away := False, reconnect_away := False\<rparr>) ds))"

text \<open>\<open>server_away_find_message\<close> and \<open>server_away_save_message\<close> on the entries of the server.\<close>

fun server_away_find_message :: "server \<Rightarrow> string \<Rightarrow> (string \<times> string) list \<Rightarrow> string option" where
  "server_away_find_message serv nick [] = None"
| "server_away_find_message serv nick ((n, m) # list) = (if p_cmp serv nick n = 0 then Some m else server_away_find_message serv nick list)"

fun away_replace :: "server \<Rightarrow> string \<Rightarrow> string \<Rightarrow> (string \<times> string) list \<Rightarrow> (string \<times> string) list" where
  "away_replace serv nick msg [] = []"
| "away_replace serv nick msg ((n, m) # list) =
     (if p_cmp serv nick n = 0 then (n, msg) # list else (n, m) # away_replace serv nick msg list)"

definition server_away_save_message ::
    "(char \<Rightarrow> nat) \<Rightarrow> server \<Rightarrow> string \<Rightarrow> string \<Rightarrow> (string \<times> string) list \<Rightarrow> (string \<times> string) list option" where
  "server_away_save_message skip serv nick msg list =
     (if server_away_find_message serv nick list \<noteq> None then Some (away_replace serv nick msg list)
      else map_option (\<lambda>n. (n, msg) # list) (safe_strcpy skip nick NICKLEN))"

text \<open>A session in which a message about a nick is shown: the dialog, the front session, the selected one, the first one with that user.\<close>

definition has_user :: "client \<Rightarrow> string \<Rightarrow> nat \<Rightarrow> bool option" where
  "has_user cl nick i =
     (if i < length (sess_list cl)
      then map_option (\<lambda>r. r \<noteq> None) (userlist_find (ns_server (cl_serv cl)) (snd (sess_list cl ! i)) nick) else None)"

fun first_with :: "client \<Rightarrow> string \<Rightarrow> nat list \<Rightarrow> nat option option" where
  "first_with cl nick [] = Some None"
| "first_with cl nick (i # is) = do { u \<leftarrow> has_user cl nick i; if u then Some (Some i) else first_with cl nick is }"

definition find_session_from_nick :: "disp_env \<Rightarrow> string \<Rightarrow> client \<Rightarrow> nat option option" where
  "find_session_from_nick env nick cl =
     (let own = (\<lambda>i. fst (sess_list cl ! i) = ns_id (cl_serv cl))
      in case find_dialog (cl_serv cl) (sess_list cl) nick of
           Some i \<Rightarrow> Some (Some i)
         | None \<Rightarrow>
             do {
               front \<leftarrow> (case ib_front (de_inb env) of
                           None \<Rightarrow> Some None
                         | Some f \<Rightarrow> if be_acmp (de_batch env) nick ''ChanServ'' = 0 then Some (Some f) else first_with cl nick [f]);
               case front of
                 Some f \<Rightarrow> Some (Some f)
               | None \<Rightarrow>
                   first_with cl nick
                     ((case ib_current (de_inb env) of None \<Rightarrow> [] | Some c \<Rightarrow> if own c then [c] else []) @
                      filter own [0..<length (sess_list cl)])
             })"

definition inbound_away :: "disp_env \<Rightarrow> string \<Rightarrow> string \<Rightarrow> disp \<Rightarrow> disp option" where
  "inbound_away env nick msg ds =
     (let serv = d_serv ds; fl = ds_flags ds; seen = (server_away_find_message serv nick (away_list fl) = Some msg)
      in if seen \<and> de_show_away_once env \<and> \<not> inside_whois fl then Some ds
         else do {
           list \<leftarrow> (if seen then Some (away_list fl) else server_away_save_message (ib_skip (de_inb env)) serv nick msg (away_list fl));
           let ds1 = on_flags (\<lambda>f. f\<lparr>away_list := list\<rparr>) ds;
           sess \<leftarrow> (if de_whois_front env then ib_front (de_inb env)
                     else if inside_whois fl then Some (ib_server (de_inb env))
                     else map_option (or_tab env) (find_session_from_nick env nick (ds_client ds1)));
           ds2 \<leftarrow> (if \<not> inside_whois fl \<or> \<not> skip_next_whois fl then show_event sess ''XP_TE_WHOIS5'' [Some nick, Some msg] ds1 else Some ds1);
           on_client (inbound_set_all_away_status nick 1) ds2
         })"

definition numeric_userhost :: "disp_env \<Rightarrow> nat \<Rightarrow> string list \<Rightarrow> disp \<Rightarrow> disp" where
  "numeric_userhost env sess word ds =
     (let w = word ! 4;
          host = tl (dropWhile (\<lambda>c. c \<noteq> CHR ''='') w);
          mine = (CHR ''='' \<in> set w \<and> p_cmp (d_serv ds) (tl (takeWhile (\<lambda>c. c \<noteq> CHR ''='') w)) (my_nick (d_serv ds)) = 0 \<and>
                  CHR ''@'' \<in> set host)
      in on_flags (\<lambda>f. f\<lparr>skip_next_userhost := False\<rparr>)
           (if mine then fn ''inbound_foundip'' (Some sess) [Some (after_at host)] ds else ds))"

definition numeric_login :: "disp_env \<Rightarrow> nat \<Rightarrow> int \<Rightarrow> string list \<Rightarrow> string list \<Rightarrow> string \<Rightarrow> numeric_op" where
  "numeric_login env sess n word word_eol txt ds =
     (if n = 1 then shown (numeric_welcome env sess word ds)
      else if n = 5 then shown (numeric_005 env word ds)
      else if n = 301 then settled (inbound_away env (word ! 4) (skip_colon (word_eol ! 5)) ds)
      else if n = 302 then
        (if skip_next_userhost (ds_flags ds) then Some (False, numeric_userhost env sess word ds) else Some (True, ds))
      else if n = 305 then shown (inbound_uback ds)
      else if n = 306 then shown (inbound_uaway ds)
      else if n = 372 \<or> n = 375 then
        settled (if \<not> de_skip_motd env \<or> motd_skipped (ds_flags ds)
                 then show_event (ib_server (de_inb env)) ''XP_TE_MOTD'' [Some txt] ds else Some ds)
      else if n = 376 \<or> n = 422 then Some (False, fn ''inbound_login_end'' (Some sess) [Some txt] ds)
      else if end_of_motd (d_serv ds) \<or> n = 437 \<and> is_channel (d_serv ds) (word ! 4) then Some (True, ds)
      else settled (inbound_next_nick env sess (word ! 4) (n = 432) ds))"

section \<open>WHOIS and WHO\<close>

definition pad2 :: "int \<Rightarrow> string" where
  "pad2 i = (let s = int_string i in if length s < 2 then CHR ''0'' # s else s)"

definition idle_text :: "int \<Rightarrow> string" where
  "idle_text idle =
     (let q = (\<lambda>a b. sgn a * (\<bar>a\<bar> div b)); r = (\<lambda>a b. sgn a * (\<bar>a\<bar> mod b))
      in take 63 (pad2 (q idle 3600) @ '':'' @ pad2 (r (q idle 60) 60) @ '':'' @ pad2 (r idle 60)))"

definition numeric_idle :: "disp_env \<Rightarrow> string list \<Rightarrow> disp \<Rightarrow> disp option" where
  "numeric_idle env word =
     (let stamp = c_atol (word ! 6); out = idle_text (c_atol (word ! 5))
      in if stamp = 0 then show_whois env ''XP_TE_WHOIS4'' [Some (word ! 4), Some out]
         else show_whois env ''XP_TE_WHOIS4T'' [Some (word ! 4), Some out, map_option (take 19) (de_ctime env stamp)])"

definition user_info ::
    "disp_env \<Rightarrow> nat \<Rightarrow> string option \<Rightarrow> string option \<Rightarrow> string option \<Rightarrow> string option \<Rightarrow> string \<Rightarrow> string option \<Rightarrow>
      string option \<Rightarrow> nat \<Rightarrow> disp \<Rightarrow> disp option" where
  "user_info env sess chan user host servname nick realname account away ds =
     on_client (inbound_user_info ((de_inb env)\<lparr>ib_doing_dns := doing_dns (ds_flags ds)\<rparr>) sess chan user host servname nick realname account away) ds"

definition numeric_whois :: "disp_env \<Rightarrow> nat \<Rightarrow> int \<Rightarrow> string list \<Rightarrow> string list \<Rightarrow> string \<Rightarrow> disp \<Rightarrow> disp option" where
  "numeric_whois env sess n word word_eol txt ds =
     (let nick = word ! 4; skip = skip_next_whois (ds_flags ds); info = user_info env sess None
      in if n = 311 then do {
           ds1 \<leftarrow> on_client (inbound_set_all_away_status nick 0) (on_flags (\<lambda>f. f\<lparr>inside_whois := True\<rparr>) ds);
           if skip then info (Some (word ! 5)) (Some (word ! 6)) None nick (Some (skip_colon (word_eol ! 8))) None 255 ds1
           else show_whois env ''XP_TE_WHOIS1'' [Some nick, Some (word ! 5), Some (word ! 6), Some (skip_colon (word_eol ! 8))] ds1
         }
         else if n = 312 then
           (if skip then info None None (Some (word ! 5)) nick None None 255 ds
            else show_whois env ''XP_TE_WHOIS3'' [Some nick, Some (word_eol ! 5)] ds)
         else if n = 314 then do {
           ds1 \<leftarrow> on_client (inbound_set_all_away_status nick 0) ds;
           i \<leftarrow> whois_sess env;
           show_event i ''XP_TE_WHOIS1'' [Some nick, Some (word ! 5), Some (word ! 6), Some (tl (word_eol ! 8))] ds1
         }
         else if n = 317 then numeric_idle env word ds
         else if n = 318 then
           map_option (on_flags (\<lambda>f. f\<lparr>skip_next_whois := False, inside_whois := False\<rparr>)) (show_whois env ''XP_TE_WHOIS6'' [Some nick] ds)
         else if n = 313 \<or> n = 319 then show_whois env ''XP_TE_WHOIS2'' [Some nick, Some (skip_colon (word_eol ! 5))] ds
         else if n = 307 \<or> n = 320 then show_whois env ''XP_TE_WHOIS_ID'' [Some nick, Some (skip_colon (word_eol ! 5))] ds
         else if n = 330 then do {
           ds1 \<leftarrow> show_whois env ''XP_TE_WHOIS_AUTH'' [Some nick, Some (tl (word_eol ! 6)), Some (word ! 5)] ds;
           info None None None nick None (Some (word ! 5)) 255 ds1
         }
         else do {
           i \<leftarrow> whois_sess env;
           map_option (on_flags (\<lambda>f. f\<lparr>inside_whois := False\<rparr>))
             (show_event i ''XP_TE_SERVTEXT'' [Some txt, Some (word ! 1), Some (word ! 2)] ds)
         })"

text \<open>Rows of WHO are shown only when the user asked for them: \<open>doing_who\<close> marks a request of the client.\<close>

definition asked_who :: "nat option \<Rightarrow> disp \<Rightarrow> bool" where
  "asked_who sess ds = (case sess of None \<Rightarrow> True | Some i \<Rightarrow> \<not> doing_who (snd (sess_list (ds_client ds) ! i)))"

definition who_row ::
    "disp_env \<Rightarrow> nat \<Rightarrow> nat \<Rightarrow> string \<Rightarrow> string option \<Rightarrow> string list \<Rightarrow> string \<Rightarrow> disp \<Rightarrow> disp option" where
  "who_row env sess k realname account word txt ds =
     (let away = (if chd (word ! (k + 5)) = CHR ''G'' then 1 else 0); asked = asked_who (chan_sess ds (word ! k)) ds
      in do {
           ds1 \<leftarrow> user_info env sess (Some (word ! k)) (Some (word ! (k + 1))) (Some (word ! (k + 2))) (Some (word ! (k + 3)))
                    (word ! (k + 4)) (Some realname) account away ds;
           if asked then tab_text env txt word ds1 else Some ds1
         })"

definition numeric_who :: "disp_env \<Rightarrow> nat \<Rightarrow> int \<Rightarrow> string list \<Rightarrow> string list \<Rightarrow> string \<Rightarrow> numeric_op" where
  "numeric_who env sess n word word_eol txt ds =
     (if n = 352 then settled (who_row env sess 4 (word_eol ! 11) None word txt ds)
      else if n = 354 then
        (if word ! 4 = ''152'' then settled (who_row env sess 5 (tl (word_eol ! 12)) (Some (word ! 11)) word txt ds) else Some (True, ds))
      else
        (case chan_sess ds (word ! 4) of
           Some i \<Rightarrow> settled (do {
             ds1 \<leftarrow> (if asked_who (Some i) ds then tab_text env txt word ds else Some ds);
             on_client (upd_sess i (\<lambda>s. Some (s\<lparr>doing_who := False\<rparr>))) ds1
           })
         | None \<Rightarrow>
             settled (map_option (on_flags (\<lambda>f. f\<lparr>doing_dns := False\<rparr>))
               (if doing_dns (ds_flags ds) then Some ds else tab_text env txt word ds))))"

section \<open>Channels\<close>

definition channel_date :: "disp_env \<Rightarrow> nat \<Rightarrow> string \<Rightarrow> string \<Rightarrow> disp \<Rightarrow> disp option" where
  "channel_date env sess chan timestr =
     show_event sess ''XP_TE_CHANDATE'' [Some chan, map_option (take 24) (de_ctime env (c_atol timestr))]"

definition inbound_topictime :: "disp_env \<Rightarrow> string \<Rightarrow> string \<Rightarrow> int \<Rightarrow> disp \<Rightarrow> disp option" where
  "inbound_topictime env chan nick stamp ds =
     show_event (or_tab env (chan_sess ds chan)) ''XP_TE_TOPICDATE'' [Some chan, Some nick, map_option (take 24) (de_ctime env stamp)] ds"

definition inbound_banlist :: "disp_env \<Rightarrow> int \<Rightarrow> string \<Rightarrow> string \<Rightarrow> string \<Rightarrow> int \<Rightarrow> disp \<Rightarrow> disp option" where
  "inbound_banlist env stamp chan msk banner rplcode ds =
     (let time_str = (case de_ctime env stamp of None \<Rightarrow> [] | Some t \<Rightarrow> if stamp \<le> 0 then [] else takeWhile (\<lambda>c. c \<noteq> CHR 0x0A) t);
          args = [Some chan, Some msk, Some banner, Some time_str]
      in case chan_sess ds chan of
           None \<Rightarrow> do { front \<leftarrow> ib_front (de_inb env); show_event front ''XP_TE_BANLIST'' args ds }
         | Some i \<Rightarrow>
             (let ds1 = fn ''fe_add_ban_list'' (Some i) [Some msk, Some banner, Some time_str] ds
              in if de_ban_window env i rplcode then Some ds1 else show_event i ''XP_TE_BANLIST'' args ds1))"

text \<open>The modes of a channel: the buttons are reset before \<open>handle_mode\<close> sets them.\<close>

definition numeric_324 :: "disp_env \<Rightarrow> string list \<Rightarrow> string list \<Rightarrow> disp \<Rightarrow> disp option" where
  "numeric_324 env word word_eol ds =
     (let i = or_tab env (chan_sess ds (word ! 4))
      in do {
           ds1 \<leftarrow> on_client (upd_sess i (\<lambda>s. Some (fold (\<lambda>m. emit (Fe_Update_Mode_Buttons m (CHR ''-''))) ''ctnimlk''
                    (if ignore_mode s then s\<lparr>ignore_mode := False\<rparr>
                     else emit (Emit ''XP_TE_CHANMODES'' [Some (word ! 4), Some (skip_colon (word_eol ! 5))]) s)))) ds;
           run_mode env word word_eol [] True ds1
         })"

definition numeric_329 :: "disp_env \<Rightarrow> string list \<Rightarrow> disp \<Rightarrow> disp option" where
  "numeric_329 env word ds =
     (case chan_sess ds (word ! 4) of
        None \<Rightarrow> Some ds
      | Some i \<Rightarrow>
          if ignore_date (snd (sess_list (ds_client ds) ! i)) then on_client (upd_sess i (\<lambda>s. Some (s\<lparr>ignore_date := False\<rparr>))) ds
          else channel_date env i (word ! 4) (skip_colon (word ! 5)) ds)"

definition list_end :: "disp_env \<Rightarrow> nat option \<Rightarrow> int \<Rightarrow> numeric_op" where
  "list_end env sess n ds =
     (case sess of
        None \<Rightarrow> Some (True, ds)
      | Some i \<Rightarrow> Some (\<not> de_ban_window env i n, fn ''fe_ban_list_end'' sess [Some (int_string n)] ds))"

definition numeric_channel :: "disp_env \<Rightarrow> nat \<Rightarrow> int \<Rightarrow> string list \<Rightarrow> string list \<Rightarrow> numeric_op" where
  "numeric_channel env sess n word word_eol ds =
     (let chan = word ! 4; rest = skip_colon (word_eol ! 5)
      in if n = 324 then settled (numeric_324 env word word_eol ds)
         else if n = 328 then
           settled (case chan_sess ds chan of None \<Rightarrow> Some ds | Some i \<Rightarrow> show_event i ''XP_TE_CHANURL'' [Some chan, Some rest] ds)
         else if n = 329 then settled (numeric_329 env word ds)
         else if n = 332 then settled (on_client (inbound_topic (de_inb env) chan rest) ds)
         else if n = 333 then
           settled (do { t \<leftarrow> STRIP_COLON word word_eol 6; inbound_topictime env chan (word ! 5) (c_atol t) ds })
         else if n = 341 then
           settled (do { t \<leftarrow> STRIP_COLON word word_eol 5; show_event sess ''XP_TE_UINVITE'' [Some chan, Some t, Some (de_servername env)] ds })
         else if n = 346 \<or> n = 348 \<or> n = 367 then
           settled (do { t \<leftarrow> STRIP_COLON word word_eol 7; inbound_banlist env (c_atol t) chan (word ! 5) (word ! 6) n ds })
         else if n = 728 then settled (inbound_banlist env (c_atol (word ! 8)) chan (word ! 6) (word ! 7) n ds)
         else if n = 347 \<or> n = 729 then list_end env (Some sess) n ds
         else if n = 349 \<or> n = 368 then list_end env (chan_sess ds chan) n ds
         else if n = 353 then settled (on_client (inbound_nameslist (de_inb env) (word ! 5) (skip_colon (word_eol ! 6))) ds)
         else if n = 366 then
           do { (found, cl) \<leftarrow> inbound_nameslist_end chan (ds_client ds); Some (\<not> found, ds\<lparr>ds_client := cl\<rparr>) }
         else settled (show_event sess
                (if n = 471 then ''XP_TE_USERLIMIT'' else if n = 473 then ''XP_TE_INVITE'' else if n = 474 then ''XP_TE_BANNED'' else ''XP_TE_KEYWORD'')
                [Some chan] ds))"

text \<open>The list of channels.\<close>

definition numeric_list :: "disp_env \<Rightarrow> int \<Rightarrow> string list \<Rightarrow> string list \<Rightarrow> string \<Rightarrow> numeric_op" where
  "numeric_list env n word word_eol txt ds =
     (let tab = ib_server (de_inb env)
      in if n = 263 then
           Some (True, if de_chanwindow env then fn ''fe_message'' None [Some (word_eol ! 4)] (fn ''fe_chan_list_end'' None [] ds) else ds)
         else if n = 321 then settled (if de_chanwindow env then Some ds else show_event tab ''XP_TE_CHANLISTHEAD'' [] ds)
         else if n = 322 then
           Some (False, fn (if de_chanwindow env then ''fe_add_chan_list'' else ''PrintTextTimeStampf'') (Some tab)
                   [Some (word ! 4), Some (if de_chanwindow env then word ! 5 else int_string (c_atoi (word ! 5))), Some (tl (word_eol ! 6))] ds)
         else settled (if de_chanwindow env then Some (fn ''fe_chan_list_end'' None [] ds) else tab_text env txt word ds))"

section \<open>Friends, metadata, authentication\<close>

definition numeric_friends :: "disp_env \<Rightarrow> int \<Rightarrow> string list \<Rightarrow> disp \<Rightarrow> disp" where
  "numeric_friends env n word ds =
     (let nenv = ib_nenv (de_inb env); serv = cl_serv (ds_client ds); nick = word ! 4
      in on_friends
           (if n = 303 then notify_markonline nenv serv (word[4 := tl nick])
            else if n = 601 then notify_set_offline nenv serv nick False
            else if n = 605 then notify_set_offline nenv serv nick True
            else if n = 730 then notify_set_online_list nenv serv (tl nick)
            else if n = 731 then notify_set_offline_list nenv serv (tl nick) False
            else notify_set_online nenv serv nick) ds)"

text \<open>Replies that are turned into a line of text. Metadata keys have a target, a key, a visibility and a value.\<close>

definition numeric_text :: "int \<Rightarrow> string list \<Rightarrow> string list \<Rightarrow> string option" where
  "numeric_text n word word_eol =
     (let a = word ! 4; b = word ! 5; keyvalue = ''['' @ a @ ''] '' @ b @ '' ('' @ word ! 6 @ ''): '' @ skip_colon (word_eol ! 7)
      in if n = 732 then (if skip_colon a = [] then None else Some (''Monitoring: '' @ skip_colon a))
         else if n = 733 then Some ''End of MONITOR list''
         else if n = 734 then Some (''MONITOR list full (limit: '' @ a @ ''). Could not add: '' @ skip_colon b)
         else if n = 760 then Some keyvalue
         else if n = 761 then Some (''Metadata '' @ keyvalue)
         else if n = 766 then Some (''Metadata ['' @ a @ ''] '' @ b @ '': not set'')
         else if n = 770 then Some (''Metadata subscribed to: '' @ skip_colon (word_eol ! 4))
         else if n = 771 then Some (''Metadata unsubscribed from: '' @ skip_colon (word_eol ! 4))
         else if n = 772 then Some (''Metadata subscriptions: '' @ skip_colon (word_eol ! 4))
         else Some (''Metadata sync for '' @ a @ '' deferred: '' @ skip_colon (word_eol ! 5)))"

definition numeric_sasl :: "disp_env \<Rightarrow> int \<Rightarrow> string list \<Rightarrow> string list \<Rightarrow> disp \<Rightarrow> disp option" where
  "numeric_sasl env n word word_eol ds =
     (let tab = ib_server (de_inb env);
          response = show_event tab ''XP_TE_SASLRESPONSE'' [Some (word ! 1), Some (word ! 2), Some (word ! 3), Some (tl (word_eol ! 4))]
      in if n = 900 then show_event tab ''XP_TE_SERVTEXT'' [Some (tl (word_eol ! 6)), Some (word ! 1), Some (word ! 2)] ds
         else do {
           let (refreshing, r) = (if n = 904 \<and> sasl_mech (ds_login ds) = MECH_OAUTHBEARER
                                  then inbound_sasl_oauth_refresh (de_login env) (reg_of ds) else (False, reg_of ds));
           ds1 \<leftarrow> put_reg env (if n = 904 \<and> \<not> refreshing then inbound_sasl_error (de_login env) r else r) ds;
           ds2 \<leftarrow> response ds1;
           if refreshing then Some ds2 else on_reg env (\<lambda>e. sasl_finished e n) ds2
         })"

section \<open>All numerics\<close>

text \<open>The text of a reply goes to the channel or dialog it names, else to the server tab.\<close>

definition numeric_def :: "disp_env \<Rightarrow> string list \<Rightarrow> string \<Rightarrow> disp \<Rightarrow> disp option" where
  "numeric_def env word txt ds =
     show_event (or_tab env (if is_channel (d_serv ds) (word ! 4) then chan_sess ds (word ! 4) else dialog ds (word ! 4)))
       ''XP_TE_SERVTEXT'' [Some txt, Some (word ! 1), Some (word ! 2)] ds"

definition numeric_other :: "disp_env \<Rightarrow> string list \<Rightarrow> string list \<Rightarrow> numeric_op" where
  "numeric_other env word word_eol ds =
     (if inside_whois (ds_flags ds) \<and> word ! 4 \<noteq> []
      then settled (show_whois env ''XP_TE_WHOIS_SPECIAL'' [Some (word ! 4), Some (skip_colon (word_eol ! 5)), Some (word ! 2)] ds)
      else Some (True, ds))"

definition numeric_op :: "disp_env \<Rightarrow> nat \<Rightarrow> int \<Rightarrow> string list \<Rightarrow> string list \<Rightarrow> string \<Rightarrow> numeric_op" where
  "numeric_op env sess n word word_eol txt ds =
     (if n \<in> {1, 5, 301, 302, 305, 306, 372, 375, 376, 422, 432, 433, 437} then numeric_login env sess n word word_eol txt ds
      else if n \<in> {307, 311, 312, 313, 314, 317, 318, 319, 320, 330, 369, 406} then settled (numeric_whois env sess n word word_eol txt ds)
      else if n \<in> {315, 352, 354} then numeric_who env sess n word word_eol txt ds
      else if n \<in> {324, 328, 329, 332, 333, 341, 346, 347, 348, 349, 353, 366, 367, 368, 471, 473, 474, 475, 728, 729}
      then numeric_channel env sess n word word_eol ds
      else if n \<in> {263, 321, 322, 323} then numeric_list env n word word_eol txt ds
      else if n \<in> {303, 600, 601, 604, 605, 730, 731} then Some (False, numeric_friends env n word ds)
      else if n \<in> {732, 733, 734, 760, 761, 766, 770, 771, 772, 774}
      then settled (case numeric_text n word word_eol of None \<Rightarrow> Some ds | Some t \<Rightarrow> show_event sess ''XP_TE_SERVTEXT'' [Some t] ds)
      else if n \<in> {524, 704, 705, 706}
      then settled (do { t \<leftarrow> STRIP_COLON word word_eol 5; show_event sess ''XP_TE_SERVTEXT'' [Some t] ds })
      else if n \<in> {900, 903, 904, 905, 906, 907} then settled (numeric_sasl env n word word_eol ds)
      else if n = 908 then Some (False, ds)
      else numeric_other env word word_eol ds)"

definition process_numeric :: "disp_env \<Rightarrow> nat \<Rightarrow> int \<Rightarrow> string list \<Rightarrow> string list \<Rightarrow> string \<Rightarrow> disp \<Rightarrow> disp option" where
  "process_numeric env sess n word word_eol txt ds =
     do {
       (as_text, ds1) \<leftarrow> numeric_op env sess n word word_eol txt ds;
       if as_text then numeric_def env word txt ds1 else Some ds1
     }"

section \<open>A received line\<close>

text \<open>\<open>irc_inline\<close> as the server's \<open>p_inline\<close> runs it: the session of a message is found among those of the server, or it is the front
  session. \<open>plugin\<close> says whether a plugin eats the line.\<close>

definition receive ::
    "disp_env \<Rightarrow> (string \<Rightarrow> message_tags_data \<Rightarrow> message_tags_data) \<Rightarrow> (nat option \<Rightarrow> string \<Rightarrow> string list \<Rightarrow> string list \<Rightarrow> bool) \<Rightarrow>
      string \<Rightarrow> disp \<Rightarrow> disp option" where
  "receive env tm plugin buf ds =
     do {
       let cl = ds_client ds;
       (call, td, st) \<leftarrow> irc_inline \<lparr>ie_net = de_net env, ie_skip = ib_skip (de_inb env), ie_caps = de_caps env, ie_time = tm,
                           ie_plugin = plugin, ie_sessions = sess_list cl, ie_serv = cl_serv cl\<rparr> buf (ds_sendq ds);
       let ds1 = ds\<lparr>ds_sendq := st\<rparr>;
       let at = (\<lambda>sess. or_else sess (ib_front (de_inb env)));
       case call of
         Inline_Dropped \<Rightarrow> Some ds1
       | Inline_Eaten \<Rightarrow> Some ds1
       | Named_Servermsg b rawname word_eol \<Rightarrow> process_named_servermsg env b rawname word_eol ds1
       | Process_Numeric sess n word word_eol txt \<Rightarrow> do { i \<leftarrow> at sess; process_numeric env i n word word_eol txt ds1 }
       | Process_Named_Msg sess type word word_eol \<Rightarrow> do { i \<leftarrow> at sess; process_named_msg env i type word word_eol td ds1 }
     }"

section \<open>Words of a line with a source\<close>

definition line_words :: "string \<Rightarrow> string \<Rightarrow> string list \<Rightarrow> string list" where
  "line_words src type args = (pad_words ((CHR '':'' # src) # type # args))[0 := type, 1 := src]"

definition line_rests :: "string \<Rightarrow> string \<Rightarrow> string list \<Rightarrow> string list" where
  "line_rests src type args =
     (pad_words (rests ((CHR '':'' # src) # type # args)))[1 := tl (join_sep (CHR '' '') ((CHR '':'' # src) # type # args))]"

lemma line_words_nth:
  "line_words src type args ! 1 = src" "line_words src type args ! 2 = type"
  "i < 29 \<Longrightarrow> line_words src type args ! (i + 3) = (if i < length args then args ! i else [])"
  using pad_words_nth [of "(CHR '':'' # src) # type # args"]
  by (auto simp: line_words_def PDIWORDS_def eval_nat_numeral)

lemma line_rests_nth:
  assumes "i < 29"
  shows "line_rests src type args ! (i + 3) = join_sep (CHR '' '') (drop i args)"
proof -
  let ?ws = "(CHR '':'' # src) # type # args"
  have "line_rests src type args ! (i + 3) = pad_words (rests ?ws) ! Suc (i + 2)" by (simp add: line_rests_def numeral_3_eq_3)
  also have "\<dots> = (if i + 2 < length (rests ?ws) then rests ?ws ! (i + 2) else [])"
    using pad_words_nth [of "rests ?ws"] assms by (simp add: PDIWORDS_def del: add_Suc_right)
  also have "\<dots> = (if i < length args then join_sep (CHR '' '') (drop (i + 2) ?ws) else [])"
    by (simp add: rests_def nth_map del: drop_Suc_Cons upt_Suc)
  finally show ?thesis by simp
qed

lemma line_args [simp]:
  "line_words src type [] ! 3 = []"
  "line_words src type (a # as) ! 3 = a"
  "line_words src type [a] ! 4 = []"
  "line_words src type (a # b # as) ! 4 = b"
  "line_words src type (a # b # c # as) ! 5 = c"
  "line_words src type (a # b # c # d # as) ! 6 = d"
  "line_rests src type args ! 3 = join_sep (CHR '' '') args"
  "line_rests src type args ! 4 = join_sep (CHR '' '') (drop 1 args)"
  "line_rests src type args ! 5 = join_sep (CHR '' '') (drop 2 args)"
  "line_rests src type args ! 6 = join_sep (CHR '' '') (drop 3 args)"
  using line_words_nth(3) [of 0 src type] line_words_nth(3) [of 1 src type] line_words_nth(3) [of 2 src type] line_words_nth(3) [of 3 src type]
    line_rests_nth [of 0 src type args] line_rests_nth [of 1 src type args] line_rests_nth [of 2 src type args] line_rests_nth [of 3 src type args]
  by simp_all

text \<open>A line with a source and without tags reaches its handler with its words.\<close>

lemma receive_line:
  assumes "ascii_skip (ib_skip (de_inb env))" "list_all (pdi_word False) ((CHR '':'' # src) # type # args)"
  shows "receive env tm (\<lambda>s t w e. False) (join_sep (CHR '' '') ((CHR '':'' # src) # type # args)) ds =
     do {
       i \<leftarrow> or_else (if is_channel (d_serv ds) (line_words src type args ! 3) then chan_sess ds (line_words src type args ! 3) else None)
              (ib_front (de_inb env));
       if is_digit (chd type)
       then process_numeric env i (c_atoi type) (line_words src type args) (line_rests src type args)
              (skip_colon (line_rests src type args ! 4)) ds
       else process_named_msg env i type (line_words src type args) (line_rests src type args) MESSAGE_TAGS_DATA_INIT ds
     }"
proof -
  let ?ws = "(CHR '':'' # src) # type # args"
  define buf where "buf = join_sep (CHR '' '') ?ws"
  have c: "chd buf = CHR '':''" by (simp add: chd_def buf_def)
  have p: "process_data_init (ib_skip (de_inb env)) False False buf = Some (pad_words ?ws, pad_words (rests ?ws))"
    unfolding buf_def by (rule pdi_line) (use assms in auto)
  have w: "pad_words ?ws ! 1 = CHR '':'' # src" "pad_words ?ws ! 2 = type" "pad_words ?ws ! 3 = line_words src type args ! 3"
    "pad_words (rests ?ws) ! 4 = line_rests src type args ! 4"
    using pad_words_nth [of ?ws] by (auto simp: PDIWORDS_def eval_nat_numeral line_words_def line_rests_def)
  have l: "(pad_words ?ws)[0 := type, 1 := src] = line_words src type args" "(pad_words (rests ?ws))[1 := tl buf] = line_rests src type args"
    by (simp_all add: line_words_def line_rests_def buf_def)
  have "ds\<lparr>ds_sendq := ds_sendq ds\<rparr> = ds" by simp
  then show ?thesis
    unfolding buf_def [symmetric]
    by (simp add: receive_def irc_inline_def c p w w(1) [unfolded One_nat_def] l [unfolded One_nat_def] Let_def confirm_label_def MESSAGE_TAGS_DATA_INIT_def chan_sess_def skip_colon_def
        del: line_args cong: if_cong)
qed

section \<open>Messages on the wire\<close>

text \<open>What servers send about members, as words: a source, a command, and parameters of which the last one may be a text.\<close>

datatype wire =
    W_Join string string string
  | W_Part string string string "string list"
  | W_Kick string string string string "string list"
  | W_Quit string string "string list"
  | W_Nick string string string
  | W_Account string string string
  | W_Away string string "string list option"
  | W_Topic string string string "string list"
  | W_Names string string string "string list"
  | W_Names_End string string string

fun trail :: "string list \<Rightarrow> string list" where
  "trail [] = ['':'']"
| "trail (w # ws) = (CHR '':'' # w) # ws"

abbreviation text_of :: "string list \<Rightarrow> string" where
  "text_of ws \<equiv> join_sep (CHR '' '') ws"

fun wire_words :: "wire \<Rightarrow> string \<times> string \<times> string list" where
  "wire_words (W_Join nick host chan) = (nick @ ''!'' @ host, ''JOIN'', [chan])"
| "wire_words (W_Part nick host chan rs) = (nick @ ''!'' @ host, ''PART'', chan # trail rs)"
| "wire_words (W_Kick nick host chan who rs) = (nick @ ''!'' @ host, ''KICK'', chan # who # trail rs)"
| "wire_words (W_Quit nick host rs) = (nick @ ''!'' @ host, ''QUIT'', trail rs)"
| "wire_words (W_Nick nick host new) = (nick @ ''!'' @ host, ''NICK'', [CHR '':'' # new])"
| "wire_words (W_Account nick host acct) = (nick @ ''!'' @ host, ''ACCOUNT'', [acct])"
| "wire_words (W_Away nick host rs) = (nick @ ''!'' @ host, ''AWAY'', case rs of None \<Rightarrow> [] | Some ws \<Rightarrow> trail ws)"
| "wire_words (W_Topic nick host chan ws) = (nick @ ''!'' @ host, ''TOPIC'', chan # trail ws)"
| "wire_words (W_Names srv me chan items) = (srv, ''353'', me # ''='' # chan # trail items)"
| "wire_words (W_Names_End srv me chan) = (srv, ''366'', [me, chan, '':End''])"

definition wire_line :: "wire \<Rightarrow> string" where
  "wire_line w = (case wire_words w of (src, type, args) \<Rightarrow> join_sep (CHR '' '') ((CHR '':'' # src) # type # args))"

text \<open>What they mean for a client with a nick of its own.\<close>

fun wire_msg :: "server \<Rightarrow> wire \<Rightarrow> member_msg" where
  "wire_msg serv (W_Join nick host chan) = Msg_Join chan nick (Some host) (Some []) (Some [])"
| "wire_msg serv (W_Part nick host chan rs) =
     (if nick = my_nick serv then Msg_UPart chan host (text_of rs) else Msg_Part chan nick host (text_of rs))"
| "wire_msg serv (W_Kick nick host chan who rs) =
     (if who = my_nick serv then Msg_UKick chan nick (text_of rs) else Msg_Kick chan who nick (text_of rs))"
| "wire_msg serv (W_Quit nick host rs) = Msg_Quit nick host (text_of rs)"
| "wire_msg serv (W_Nick nick host new) = Msg_Nick nick new False"
| "wire_msg serv (W_Account nick host acct) = Msg_Account nick acct"
| "wire_msg serv (W_Away nick host rs) = Msg_Away nick (map_option text_of rs)"
| "wire_msg serv (W_Topic nick host chan ws) = Msg_New_Topic nick chan (text_of ws)"
| "wire_msg serv (W_Names srv me chan items) = Msg_Names chan (text_of items)"
| "wire_msg serv (W_Names_End srv me chan) = Msg_Names_End chan"

text \<open>The source of a message fits its buffers; a parameter that is not the last has no colon.\<close>

definition src_ok :: "string \<Rightarrow> string \<Rightarrow> bool" where
  "src_ok nick host \<longleftrightarrow> plain_nick nick \<and> plain_nick host \<and> CHR ''!'' \<notin> set nick \<and> length nick < 64 \<and> length host < 128"

fun wire_fits :: "server \<Rightarrow> wire \<Rightarrow> bool" where
  "wire_fits serv (W_Join nick host chan) \<longleftrightarrow> src_ok nick host \<and> chd chan \<noteq> CHR '':'' \<and> p_cmp serv nick (my_nick serv) \<noteq> 0"
| "wire_fits serv (W_Part nick host chan rs) \<longleftrightarrow> src_ok nick host \<and> chd chan \<noteq> CHR '':''"
| "wire_fits serv (W_Kick nick host chan who rs) \<longleftrightarrow> src_ok nick host \<and> who \<noteq> []"
| "wire_fits serv (W_Quit nick host rs) \<longleftrightarrow> src_ok nick host"
| "wire_fits serv (W_Nick nick host new) \<longleftrightarrow> src_ok nick host"
| "wire_fits serv (W_Account nick host acct) \<longleftrightarrow> src_ok nick host \<and> chd acct \<noteq> CHR '':''"
| "wire_fits serv (W_Away nick host rs) \<longleftrightarrow> src_ok nick host"
| "wire_fits serv (W_Topic nick host chan ws) \<longleftrightarrow> src_ok nick host"
| "wire_fits serv (W_Names srv me chan items) \<longleftrightarrow> True"
| "wire_fits serv (W_Names_End srv me chan) \<longleftrightarrow> True"

definition wire_ok :: "disp_env \<Rightarrow> disp \<Rightarrow> wire \<Rightarrow> bool" where
  "wire_ok env ds w \<longleftrightarrow>
     wire_fits (d_serv ds) w \<and> msg_ok (de_inb env) (ds_client ds) (wire_msg (d_serv ds) w) \<and>
     (case wire_words w of (src, type, args) \<Rightarrow> list_all (pdi_word False) ((CHR '':'' # src) # type # args))"

lemma trail_text [simp]: "join_sep (CHR '' '') (trail ws) = CHR '':'' # text_of ws"
proof (cases ws)
  case (Cons w ws')
  then show ?thesis by (cases ws') simp_all
qed simp

lemma skip_colon_Cons [simp]: "skip_colon (CHR '':'' # s) = s"
  by (simp add: skip_colon_def chd_def)

lemma unless_collected_plain [simp]:
  "td_batch_id td = None \<Longrightarrow> unless_collected env command word word_eol td k ds = k ds"
  by (simp add: unless_collected_def inbound_batch_add_message_def)

lemma source_nick_ok:
  assumes "ascii_skip (ib_skip (de_inb env))" "src_ok nick host"
  shows "source_nick env (nick @ ''!'' @ host) = Some (nick, host)"
proof -
  note s = safe_strcpy_short_skip [of "ib_skip (de_inb env)"]
  have "takeWhile (\<lambda>c. c \<noteq> CHR ''!'') (nick @ ''!'' @ host) = nick" "dropWhile (\<lambda>c. c \<noteq> CHR ''!'') (nick @ ''!'' @ host) = ''!'' @ host"
    using assms(2) by (auto simp: src_ok_def takeWhile_append dropWhile_append)
  then show ?thesis
    using assms s [of nick NICKLEN] s [of host 128] by (simp add: source_nick_def src_ok_def ascii_skip_def plain_nick_def NICKLEN_def)
qed

text \<open>The account of a message changes no room.\<close>

lemma msg_ok_cong:
  assumes "cl_serv cl1 = cl_serv cl" "rooms cl1 = rooms cl"
  shows "msg_ok env cl1 m = msg_ok env cl m"
proof -
  have "length (sess_list cl1) = length (sess_list cl)" using arg_cong [OF assms(2), of length] by (simp add: views_def)
  moreover have "own_all (\<lambda>s. k \<in> roster s \<longrightarrow> P) cl1 = own_all (\<lambda>s. k \<in> roster s \<longrightarrow> P) cl" for k P
  proof -
    have "own_all (\<lambda>s. k \<in> roster s \<longrightarrow> P) c = (\<forall>x \<in> set (rooms c). fst x = ns_id (cl_serv c) \<longrightarrow> k \<in> rm_members (snd x) \<longrightarrow> P)" for c
      by (auto simp: own_all_def views_def room_of_def)
    then show ?thesis using assms by simp
  qed
  ultimately show ?thesis using assms by (cases m) (simp_all add: msg_ok_def)
qed

lemma account_cleared_serv: "account_cleared env acct cl = Some cl' \<Longrightarrow> cl_serv cl' = cl_serv cl"
  by (auto simp: account_cleared_def split: option.splits bind_splits)

lemma inbound_account_serv: "inbound_account env nick acct cl = Some cl' \<Longrightarrow> cl_serv cl' = cl_serv cl"
  by (auto simp: inbound_account_def on_sessions_def on_notify_def Let_def split: bind_splits if_splits dest!: account_cleared_serv)

lemma account_step_rooms:
  assumes "client_inv (ds_client ds)" "ascii_skip (ib_skip (de_inb env))" "ib_server (de_inb env) < length (sess_list (ds_client ds))"
    and "plain_nick nick"
  shows "\<exists>cl. account_step env nick td ds = Some (ds\<lparr>ds_client := cl\<rparr>) \<and> client_inv cl \<and> rooms cl = rooms (ds_client ds) \<and>
     cl_serv cl = cl_serv (ds_client ds)"
proof (cases "have_account_tag (de_caps env)")
  case True
  let ?a = "case td_account td of None \<Rightarrow> ''*'' | Some a \<Rightarrow> if a = [] then ''*'' else a"
  have "msg_ok (de_inb env) (ds_client ds) (Msg_Account nick ?a)" using assms(2-4) by (simp add: msg_ok_def)
  from inb_apply_handled [OF assms(1) this] True show ?thesis
    by (auto simp: account_step_def on_client_def inb_apply_def handled_def room_spec_def Let_def dest: inbound_account_serv)
next
  case False
  then show ?thesis using assms(1) by (intro exI [of _ "ds_client ds"]) (simp add: account_step_def)
qed

lemmas named_defs = named_four_def named_long_def named_join_def named_part_def named_kick_def Let_def

text \<open>A named message runs its handler after the account step.\<close>

fun wire_nick :: "wire \<Rightarrow> string option" where
  "wire_nick (W_Join nick host chan) = Some nick"
| "wire_nick (W_Part nick host chan rs) = Some nick"
| "wire_nick (W_Kick nick host chan who rs) = Some nick"
| "wire_nick (W_Quit nick host rs) = Some nick"
| "wire_nick (W_Nick nick host new) = Some nick"
| "wire_nick (W_Account nick host acct) = Some nick"
| "wire_nick (W_Away nick host rs) = Some nick"
| "wire_nick (W_Topic nick host chan ws) = Some nick"
| "wire_nick (W_Names srv me chan items) = None"
| "wire_nick (W_Names_End srv me chan) = None"

lemma line_words_length [simp]: "length (line_words src type args) = PDIWORDS" "length (line_rests src type args) = PDIWORDS"
  using pad_words_nth by (simp_all add: line_words_def line_rests_def)

lemma line_words_src [simp]: "line_words src type args ! Suc 0 = src"
  using line_words_nth(1) by simp

lemma process_named_wire:
  assumes "ascii_skip (ib_skip (de_inb env))" "wire_nick w = Some nick" "wire_words w = (src, type, args)" "wire_fits (d_serv ds) w"
    and a: "account_step env nick MESSAGE_TAGS_DATA_INIT ds = Some ds1" "d_serv ds1 = d_serv ds"
  shows "process_named_msg env i type (line_words src type args) (line_rests src type args) MESSAGE_TAGS_DATA_INIT ds =
     on_client (inb_apply (de_inb env) (wire_msg (d_serv ds) w)) ds1"
proof -
  have td: "td_batch_id MESSAGE_TAGS_DATA_INIT = None" by (simp add: MESSAGE_TAGS_DATA_INIT_def)
  note source = source_nick_ok [OF assms(1), simplified]
  show ?thesis
  proof (cases w)
    case (W_Join nk host chan)
    with assms show ?thesis
      by (auto simp: process_named_msg_def source named_defs td on_client_def inb_apply_def skip_colon_def chd_def)
  next
    case (W_Part nk host chan rs)
    with assms show ?thesis
      by (auto simp: process_named_msg_def source named_defs td on_client_def inb_apply_def skip_colon_def [of chan])
  next
    case (W_Kick nk host chan who rs)
    with assms show ?thesis
      by (auto simp: process_named_msg_def source named_defs td on_client_def inb_apply_def)
  next
    case (W_Quit nk host rs)
    with assms show ?thesis
      by (auto simp: process_named_msg_def source named_defs td on_client_def inb_apply_def)
  next
    case (W_Nick nk host new)
    with assms show ?thesis
      by (auto simp: process_named_msg_def source named_defs td on_client_def inb_apply_def skip_colon_def chd_def)
  next
    case (W_Account nk host acct)
    with assms show ?thesis
      by (auto simp: process_named_msg_def source named_defs td on_client_def inb_apply_def STRIP_COLON_def word_at_def PDIWORDS_def)
  next
    case (W_Away nk host rs)
    with assms show ?thesis
      by (auto simp: process_named_msg_def source named_defs td on_client_def inb_apply_def skip_colon_def chd_def split: option.splits)
  next
    case (W_Topic nk host chan ws)
    with assms show ?thesis
      by (auto simp: process_named_msg_def source named_defs td on_client_def inb_apply_def)
  qed (use assms in auto)
qed

text \<open>The own nick follows NICK messages; nothing else of the server changes.\<close>

definition own_nick :: "server \<Rightarrow> wire \<Rightarrow> server" where
  "own_nick serv w =
     (case w of
        W_Nick nick host new \<Rightarrow> if p_cmp serv nick (my_nick serv) = 0 then serv\<lparr>my_nick := take 63 new\<rparr> else serv
      | _ \<Rightarrow> serv)"

lemma on_notify_serv [simp]: "cl_serv (on_notify f cl) = cl_serv cl"
  by (simp add: on_notify_def)

lemma keep_serv:
  "upd_sess i f cl = Some cl' \<Longrightarrow> cl_serv cl' = cl_serv cl"
  "on_sessions g a cl = Some (a', cl') \<Longrightarrow> cl_serv cl' = cl_serv cl"
  "upd_sess_online env i f cl = Some cl' \<Longrightarrow> cl_serv cl' = cl_serv cl"
  by (auto simp: upd_sess_def on_sessions_def upd_sess_online_def split: if_splits bind_splits)

lemma inb_apply_serv:
  assumes "inb_apply env m cl = Some cl'" "\<And>nick new q. m \<noteq> Msg_Nick nick new q"
  shows "cl_serv cl' = cl_serv cl"
  using assms
  by (cases m) (auto simp: inb_apply_def inbound_join_def inbound_part_def inbound_kick_def member_leaves_def inbound_quit_def inbound_nameslist_def
      inbound_nameslist_end_def inbound_upart_def inbound_ukick_def inbound_away_notify_def inbound_topic_def inbound_topicnew_def
      inbound_user_info_def Let_def split: option.splits bind_splits if_splits dest!: keep_serv account_cleared_serv inbound_account_serv)

lemma newnick_serv:
  assumes "inbound_newnick env nick new q cl = Some cl'" "ascii_skip (ib_skip env)" "plain_nick new"
  shows "ns_server (cl_serv cl') =
     (if p_cmp (ns_server (cl_serv cl)) nick (my_nick (ns_server (cl_serv cl))) = 0 then (ns_server (cl_serv cl))\<lparr>my_nick := take 63 new\<rparr>
      else ns_server (cl_serv cl))"
proof -
  have "safe_strcpy (ib_skip env) new NICKLEN = Some (take 63 new)"
    using safe_strcpy_short_skip [of "ib_skip env" new NICKLEN] assms(2,3) by (simp add: ascii_skip_def plain_nick_def NICKLEN_def)
  then show ?thesis using assms(1) by (auto simp: inbound_newnick_def Let_def split: bind_splits dest!: keep_serv)
qed

lemma inb_wire_serv:
  assumes "inb_apply env (wire_msg serv w) cl = Some cl'" "msg_ok env cl (wire_msg serv w)" "serv = ns_server (cl_serv cl)"
  shows "ns_server (cl_serv cl') = own_nick serv w"
proof (cases w)
  case (W_Nick nick host new)
  then show ?thesis using assms newnick_serv [of env nick new False cl cl'] by (simp add: inb_apply_def msg_ok_def own_nick_def)
qed (use inb_apply_serv [OF assms(1)] assms(3) in \<open>auto simp: own_nick_def split: if_splits\<close>)

text \<open>NAMES and its end come as numerics. The end of a list that was not asked for is shown as text.\<close>

lemma process_numeric_names:
  "process_numeric env i 353 (line_words srv t (me # eq # chan # trail items)) (line_rests srv t (me # eq # chan # trail items)) txt ds =
     on_client (inb_apply (de_inb env) (Msg_Names chan (text_of items))) ds"
  by (cases "inbound_nameslist (de_inb env) chan (text_of items) (ds_client ds)")
    (simp_all add: process_numeric_def numeric_op_def numeric_channel_def on_client_def inb_apply_def Let_def)

lemma or_tab_bound:
  assumes "ib_server (de_inb env) < length (sess_list (ds_client ds))"
  shows "or_tab env (chan_sess ds chan) < length (sess_list (ds_client ds))" "or_tab env (dialog ds nick) < length (sess_list (ds_client ds))"
  using assms first_sess_Some
  by (fastforce simp: or_tab_def chan_sess_def dialog_def serv_channel_def find_dialog_def split: option.split)+

lemma process_numeric_names_end:
  assumes "client_inv (ds_client ds)" "msg_ok (de_inb env) (ds_client ds) (Msg_Names_End chan)"
  shows "\<exists>ds'. process_numeric env i 366 (line_words srv t [me, chan, e]) (line_rests srv t [me, chan, e]) txt ds = Some ds' \<and>
     handled (ds_client ds) (Msg_Names_End chan) (Some (ds_client ds')) \<and> d_serv ds' = d_serv ds"
proof -
  let ?w = "line_words srv t [me, chan, e]"
  obtain found cl where e: "inbound_nameslist_end chan (ds_client ds) = Some (found, cl)" and h: "handled (ds_client ds) (Msg_Names_End chan) (Some cl)"
    using inb_apply_handled [OF assms] by (auto simp: inb_apply_def handled_def)
  have sv: "cl_serv cl = cl_serv (ds_client ds)" using inb_apply_serv [of "de_inb env" "Msg_Names_End chan"] e by (auto simp: inb_apply_def)
  show ?thesis
  proof (cases found)
    case True
    then show ?thesis using e h sv by (simp add: process_numeric_def numeric_op_def numeric_channel_def)
  next
    case False
    then have cl: "cl = ds_client ds" using e by (auto simp: inbound_nameslist_end_def split: if_splits option.splits)
    let ?ds = "ds\<lparr>ds_client := cl\<rparr>"
    let ?k = "or_tab env (if is_channel (d_serv ?ds) chan then chan_sess ?ds chan else dialog ?ds chan)"
    have "?k < length (sess_list (ds_client ds))" using or_tab_bound [of env ?ds] assms(2) by (simp add: cl msg_ok_def)
    moreover have "room_spec (cl_serv (ds_client ds)) (Msg_Names_End chan) (rooms (ds_client ds)) = rooms (ds_client ds)"
      using h by (simp add: handled_def cl)
    ultimately have h': "handled (ds_client ds) (Msg_Names_End chan) (upd_sess ?k (\<lambda>s. Some (emit ev s)) (ds_client ds))" for ev
      by (rule shown_handled [OF assms(1)])
    have "process_numeric env i 366 ?w (line_rests srv t [me, chan, e]) txt ds =
        show_event ?k ''XP_TE_SERVTEXT'' [Some txt, Some (?w ! 1), Some (?w ! 2)] ?ds"
      using False e by (simp add: process_numeric_def numeric_op_def numeric_channel_def numeric_def_def)
    moreover obtain cl' where u: "upd_sess ?k (\<lambda>s. Some (emit (Emit ''XP_TE_SERVTEXT'' [Some txt, Some (?w ! 1), Some (?w ! 2)]) s)) (ds_client ds) = Some cl'"
      "handled (ds_client ds) (Msg_Names_End chan) (Some cl')"
      using h' [of "Emit ''XP_TE_SERVTEXT'' [Some txt, Some (?w ! 1), Some (?w ! 2)]"] by (auto simp: handled_def)
    ultimately show ?thesis using keep_serv(1) [OF u(1)] by (simp add: show_event_def on_client_def cl)
  qed
qed

section \<open>From lines to rooms\<close>

lemma receive_wire:
  assumes inv: "client_inv (ds_client ds)" and ok: "wire_ok env ds w" and front: "ib_front (de_inb env) = Some f"
  shows "\<exists>ds'. receive env tm (\<lambda>s t w e. False) (wire_line w) ds = Some ds' \<and>
     handled (ds_client ds) (wire_msg (d_serv ds) w) (Some (ds_client ds')) \<and> d_serv ds' = own_nick (d_serv ds) w"
proof -
  obtain src type args where w: "wire_words w = (src, type, args)" by (cases "wire_words w")
  have o: "wire_fits (d_serv ds) w" "msg_ok (de_inb env) (ds_client ds) (wire_msg (d_serv ds) w)"
    "list_all (pdi_word False) ((CHR '':'' # src) # type # args)" "ascii_skip (ib_skip (de_inb env))"
    "ib_server (de_inb env) < length (sess_list (ds_client ds))"
    using ok by (auto simp: wire_ok_def w msg_ok_def)
  obtain i where i: "or_else (if is_channel (d_serv ds) (line_words src type args ! 3) then chan_sess ds (line_words src type args ! 3) else None)
      (ib_front (de_inb env)) = Some i"
    using front by (cases "if is_channel (d_serv ds) (line_words src type args ! 3) then chan_sess ds (line_words src type args ! 3) else None")
      (simp_all add: or_else_def)
  note rl = receive_line [OF o(4,3), of tm ds, unfolded i]
  have at: "c_atoi ''353'' = 353" "c_atoi ''366'' = 366" "is_digit (CHR ''3'')" by code_simp+
  show ?thesis
  proof (cases "wire_nick w")
    case None
    then consider (names) srv me chan items where "w = W_Names srv me chan items" | (fin) srv me chan where "w = W_Names_End srv me chan"
      by (cases w) auto
    then show ?thesis
    proof cases
      case names
      from inb_apply_handled [OF inv o(2)] obtain cl' where
        h: "inb_apply (de_inb env) (wire_msg (d_serv ds) w) (ds_client ds) = Some cl'" "handled (ds_client ds) (wire_msg (d_serv ds) w) (Some cl')"
        by (auto simp: handled_def)
      have "receive env tm (\<lambda>s t w e. False) (wire_line w) ds = Some (ds\<lparr>ds_client := cl'\<rparr>)"
        using rl w h(1) process_numeric_names names by (auto simp: wire_line_def chd_def at on_client_def)
      then show ?thesis using h(2) inb_wire_serv [OF h(1) o(2)] by simp
    next
      case fin
      then show ?thesis
        using rl w process_numeric_names_end [OF inv o(2) [unfolded fin wire_msg.simps], of i srv "''366''" me "'':End''"]
        by (auto simp: wire_line_def chd_def at own_nick_def)
    qed
  next
    case (Some nick)
    have nd: "\<not> is_digit (chd type)" using Some w by (cases w) (auto simp: chd_def is_digit_def uchar_def)
    have "plain_nick nick" using Some o(1) by (cases w) (auto simp: src_ok_def)
    from account_step_rooms [OF inv o(4,5) this, of MESSAGE_TAGS_DATA_INIT] obtain cl where
      a: "account_step env nick MESSAGE_TAGS_DATA_INIT ds = Some (ds\<lparr>ds_client := cl\<rparr>)" "client_inv cl" "rooms cl = rooms (ds_client ds)"
        "cl_serv cl = cl_serv (ds_client ds)" by blast
    have mo: "msg_ok (de_inb env) cl (wire_msg (d_serv ds) w)" using o(2) msg_ok_cong [OF a(4,3)] by simp
    from inb_apply_handled [OF a(2) this] obtain cl' n where
      h: "inb_apply (de_inb env) (wire_msg (d_serv ds) w) cl = Some cl'" "client_inv cl'" "rooms cl' = room_spec (cl_serv cl) (wire_msg (d_serv ds) w) (rooms cl)"
        "cl_serv cl' = (cl_serv cl)\<lparr>ns_server := (ns_server (cl_serv cl))\<lparr>my_nick := n\<rparr>\<rparr>"
      unfolding handled_def by blast
    have "receive env tm (\<lambda>s t w e. False) (wire_line w) ds = Some (ds\<lparr>ds_client := cl'\<rparr>)"
      using rl nd process_named_wire [OF o(4) Some w o(1) a(1)] a(4) h(1) by (simp add: wire_line_def w on_client_def)
    moreover have "ns_server (cl_serv cl') = own_nick (d_serv ds) w" using inb_wire_serv [OF h(1) mo] a(4) by simp
    moreover have "handled (ds_client ds) (wire_msg (d_serv ds) w) (Some cl')"
      unfolding handled_def using h(2-4) a(3,4) by simp blast
    ultimately show ?thesis by simp
  qed
qed

fun receive_all ::
    "disp_env \<Rightarrow> (string \<Rightarrow> message_tags_data \<Rightarrow> message_tags_data) \<Rightarrow> wire list \<Rightarrow> disp \<Rightarrow> disp option" where
  "receive_all env tm [] ds = Some ds"
| "receive_all env tm (w # ws) ds = do { ds1 \<leftarrow> receive env tm (\<lambda>s t w e. False) (wire_line w) ds; receive_all env tm ws ds1 }"

fun wires_ok ::
    "disp_env \<Rightarrow> (string \<Rightarrow> message_tags_data \<Rightarrow> message_tags_data) \<Rightarrow> wire list \<Rightarrow> disp \<Rightarrow> bool" where
  "wires_ok env tm [] ds \<longleftrightarrow> True"
| "wires_ok env tm (w # ws) ds \<longleftrightarrow> wire_ok env ds w \<and>
     (case receive env tm (\<lambda>s t w e. False) (wire_line w) ds of None \<Rightarrow> True | Some ds1 \<Rightarrow> wires_ok env tm ws ds1)"

text \<open>The messages as the client understands them: a part or kick of its own nick leaves the channel. The own nick may change on the way.\<close>

fun meant :: "server \<Rightarrow> wire list \<Rightarrow> member_msg list" where
  "meant serv [] = []"
| "meant serv (w # ws) = wire_msg serv w # meant (own_nick serv w) ws"

lemma receive_all_rooms:
  assumes "client_inv (ds_client ds)" "wires_ok env tm ws ds" "ib_front (de_inb env) = Some f"
  shows "\<exists>ds'. receive_all env tm ws ds = Some ds' \<and> client_inv (ds_client ds') \<and>
     rooms (ds_client ds') = fold (room_spec (cl_serv (ds_client ds))) (meant (d_serv ds) ws) (rooms (ds_client ds))"
  using assms
proof (induction ws arbitrary: ds)
  case (Cons w ws)
  then obtain ds1 where 1: "receive env tm (\<lambda>s t w e. False) (wire_line w) ds = Some ds1" "d_serv ds1 = own_nick (d_serv ds) w"
    and h: "handled (ds_client ds) (wire_msg (d_serv ds) w) (Some (ds_client ds1))"
    using receive_wire [of ds env w f tm] by auto
  obtain n where 2: "client_inv (ds_client ds1)" "rooms (ds_client ds1) = room_spec (cl_serv (ds_client ds)) (wire_msg (d_serv ds) w) (rooms (ds_client ds))"
    "cl_serv (ds_client ds1) = (cl_serv (ds_client ds))\<lparr>ns_server := (d_serv ds)\<lparr>my_nick := n\<rparr>\<rparr>"
    using h by (auto simp: handled_def)
  have "room_spec (cl_serv (ds_client ds1)) = room_spec (cl_serv (ds_client ds))" unfolding 2(3) by (rule ext) simp
  with Cons.IH [OF 2(1)] Cons.prems 1 2(2) show ?case by auto
qed simp

section \<open>Properties\<close>

text \<open>C2: From bytes to members: for any history of lines that a server sends for JOIN, PART, KICK, QUIT, NICK, ACCOUNT, AWAY, TOPIC and
  NAMES (with sources that fit the buffers and texts of any words), splitting, dispatch and handlers are defined, all invariants of user lists,
  modes and friends are kept, and the members of every channel are those that the messages mean, also when accounts are announced with
  every message and when the client's own nick changes on the way, which decides which parts and kicks are its own.\<close>

theorem received_lines_update_rooms:
  assumes "client_inv (ds_client ds)" "wires_ok env tm ws ds" "ib_front (de_inb env) = Some f"
  shows "\<exists>ds'. receive_all env tm ws ds = Some ds' \<and> client_inv (ds_client ds') \<and>
     rooms (ds_client ds') = fold (room_spec (cl_serv (ds_client ds))) (meant (d_serv ds) ws) (rooms (ds_client ds))"
  by (rule receive_all_rooms [OF assms])

text \<open>C8: Every PING is answered: when the server sends \<open>PING\<close> with any words, the client's state is unchanged but for the
  outgoing side, which holds \<open>PONG\<close> with the same words as a line that is sent or waits; and when the queue timer is then called at least
  every 10 seconds, it has been sent once the clock passes the time that the throttle allows for the waiting lines.\<close>

theorem ping_answered:
  assumes "ascii_skip (ib_skip (de_inb env))" "ws \<noteq> []" "list_all (pdi_word False) ws" "length (text_of ws) < 1500"
    and "sendq_at (ne_now (de_net env)) (ds_sendq ds)"
  shows "\<exists>st. receive env tm (\<lambda>s t w e. False) (''PING '' @ text_of ws) ds = Some (ds\<lparr>ds_sendq := st\<rparr>) \<and>
     sendq_at (ne_now (de_net env)) st \<and>
     (let pong = ''PONG '' @ text_of ws @ crlf; now = ne_now (de_net env)
      in pong \<in> set (wire st @ send_order (outbound_queue st)) \<and>
         (\<forall>ts. cadence now ts \<longrightarrow> max (next_send st) now + total_cost (send_order (outbound_queue st)) < last (now # ts) + 12 \<longrightarrow>
            pong \<in> set (wire (fold queue_tick (now # ts) st))))"
proof -
  let ?pong = "''PONG '' @ text_of ws @ crlf" and ?buf = "''PING '' @ text_of ws"
  have c: "cstring (text_of ws)"
    using assms(3) by (induction ws rule: induct_list012) (auto simp: pdi_word_def cstring_def)
  have b: "?buf = join_sep (CHR '' '') (''PING'' # ws)" using assms(2) by (cases ws) simp_all
  have p: "process_data_init (ib_skip (de_inb env)) False False ?buf = Some (pad_words (''PING'' # ws), pad_words (rests (''PING'' # ws)))"
    unfolding b by (rule pdi_line) (use assms in \<open>auto simp: pdi_word_def cstring_def ascii_def uchar_def\<close>)
  define st where "st = tcp_sendf (de_net env) ?pong (ds_sendq ds)"
  have cp: "cstring ?pong" using c by (simp add: cstring_def)
  have sf: "st = tcp_send_len (de_net env) ?pong (ds_sendq ds)"
    using assms(4) by (simp add: st_def tcp_sendf_def printed_def Let_def)
  have r: "receive env tm (\<lambda>s t w e. False) ?buf ds = Some (ds\<lparr>ds_sendq := st\<rparr>)"
    using p by (simp add: receive_def irc_inline_def Let_def confirm_label_def MESSAGE_TAGS_DATA_INIT_def chd_def
        process_named_servermsg_def on_queue_def st_def)
  have at: "sendq_at (ne_now (de_net env)) st" unfolding sf by (rule tcp_send_len_at [OF assms(5) cp])
  have i: "?pong \<in> set (wire st @ send_order (outbound_queue st))" unfolding sf by (rule tcp_send_len_delivers [OF assms(5) cp])
  have "?pong \<in> set (wire (fold queue_tick (ne_now (de_net env) # ts) st))"
    if "cadence (ne_now (de_net env)) ts"
      "max (next_send st) (ne_now (de_net env)) + total_cost (send_order (outbound_queue st)) < last (ne_now (de_net env) # ts) + 12" for ts
    using queue_drains [OF at that] i by simp
  with r at i show ?thesis unfolding Let_def by blast
qed

text \<open>C38: A standard reply without a trailing parameter reads a null pointer: for FAIL, WARN and NOTE whose parameters have no colon, the
  index of the trailing parameter is 32, where the array of words ends, and the dispatch is undefined.\<close>

theorem standard_reply_needs_text:
  assumes "ascii_skip (ib_skip (de_inb env))" "list_all (pdi_word False) ((CHR '':'' # src) # type # args)" "type \<in> {''FAIL'', ''WARN'', ''NOTE''}"
    and "\<forall>a \<in> set args. hd a \<noteq> CHR '':''"
  shows "receive env tm (\<lambda>s t w e. False) (join_sep (CHR '' '') ((CHR '':'' # src) # type # args)) ds = None"
proof -
  have t: "trailing_index (line_rests src type args) = 32"
  proof -
    have "chd (line_rests src type args ! (i + 3)) \<noteq> CHR '':''" if "i < 29" for i
    proof (cases "drop i args")
      case (Cons a as)
      then have "a \<in> set args" using in_set_dropD [of a i args] by simp
      then have "hd a \<noteq> CHR '':''" "a \<noteq> []" using assms(2,4) by (auto simp: list_all_iff pdi_word_def)
      then show ?thesis using that Cons by (cases a; cases as) (simp_all add: line_rests_nth chd_def)
    qed (use that in \<open>simp add: line_rests_nth chd_def\<close>)
    then have "\<forall>x \<in> set (drop 3 (line_rests src type args)). chd x \<noteq> CHR '':''"
      by (auto simp: in_set_conv_nth PDIWORDS_def add.commute)
    then have "takeWhile (\<lambda>w. chd w \<noteq> CHR '':'') (drop 3 (line_rests src type args)) = drop 3 (line_rests src type args)"
      by (subst takeWhile_eq_all_conv)
    moreover have "take (PDIWORDS - 3) (drop 3 (line_rests src type args)) = drop 3 (line_rests src type args)" by simp
    ultimately have "trailing_index (line_rests src type args) = 3 + length (drop 3 (line_rests src type args))"
      by (simp only: trailing_index_def)
    then show ?thesis by (simp add: PDIWORDS_def)
  qed
  have "STRIP_COLON (line_words src type args) (line_rests src type args) 32 = None"
    by (simp add: STRIP_COLON_def word_at_def PDIWORDS_def)
  then have "named_four env i type nick ip (line_words src type args) (line_rests src type args) td ds' = None" for i nick ip td ds'
    using assms(3) unfolding named_four_def named_fail_def named_reply_def t by (elim insertE emptyE) simp_all
  then have "process_named_msg env i type (line_words src type args) (line_rests src type args) td ds = None" for i td
    using assms(3) unfolding process_named_msg_def by (elim insertE emptyE) (simp_all add: bind_eq_None_conv split: prod.split)
  moreover have "\<not> is_digit (chd type)" using assms(3) by (auto simp: chd_def is_digit_def uchar_def)
  ultimately show ?thesis unfolding receive_line [OF assms(1,2)] by (simp add: bind_eq_None_conv)
qed

section \<open>Concrete lines\<close>

definition demo_disp_env :: disp_env where
  "demo_disp_env =
     \<lparr>de_inb = demo_inb\<lparr>ib_front := Some 0\<rparr>, de_batch = demo_env, de_login = demo_login_env,
      de_caps = \<lparr>have_message_tags = True, have_batch = True, have_account_tag = True, have_idmsg = False, have_server_time = False,
        cap_labeled_response = False\<rparr>,
      de_have_echo = False, de_have_labeled = False, de_raw_modes = False, de_flood = demo_flood_prefs, de_servername = ''srv'',
      de_challenge = False, de_password = [], de_user = ''me'', de_response = (\<lambda>a b c. []), de_reply_show = False, de_is_dup = (\<lambda>i m. False),
      de_whois_front = False, de_show_away_once = False, de_ip_from_server = False, de_skip_motd = False, de_chanwindow = False,
      de_ban_window = (\<lambda>i n. False), de_ctime = (\<lambda>t. None), de_iconv = (\<lambda>s. True), de_nick2 = ''me2'', de_nick3 = ''me3''\<rparr>"

definition demo_disp :: disp where
  "demo_disp =
     \<lparr>ds_client = demo_client, ds_sendq = demo_sendq, ds_flood = demo_flood,
      ds_flags = \<lparr>skip_next_userhost = False, skip_next_whois = False, inside_whois = False, doing_dns = False, use_who = True, motd_skipped = False, is_away = False, reconnect_away = False, nickcount = 0, away_list = []\<rparr>,
      ds_login = demo_login, ds_calls = []\<rparr>"

theorem received_lines_update_rooms_witness:
  "wire_line (W_Join ''Bob'' ''b@h'' ''#c'') = '':Bob!b@h JOIN #c'' \<and>
   (\<exists>ds'. receive demo_disp_env (\<lambda>t td. td) (\<lambda>s t w e. False) '':Bob!b@h JOIN #c'' demo_disp = Some ds' \<and>
      map (\<lambda>(i, r). (i, rm_members r)) (rooms (ds_client ds')) = [(1, {''bob''}), (2, {})])"
proof -
  let ?w = "W_Join ''Bob'' ''b@h'' ''#c''"
  have l: "wire_line ?w = '':Bob!b@h JOIN #c''" by (simp add: wire_line_def)
  have s: "cl_serv demo_client = demo_serv False" "ns_id (demo_serv False) = 1" by (simp_all add: demo_client_def demo_serv_def)
  have pl: "prefix_len (ns_server (demo_serv False)) ''Bob'' = 0" by (simp add: prefix_len_def demo_serv_def blank_server_def)
  have cmp: "p_cmp (ns_server (demo_serv False)) ''Bob'' (my_nick (ns_server (demo_serv False))) \<noteq> 0"
    by (simp add: demo_serv_def blank_server_def) code_simp
  have e: "de_inb demo_disp_env = demo_inb\<lparr>ib_front := Some 0\<rparr>" "ds_client demo_disp = demo_client"
    by (simp_all add: demo_disp_env_def demo_disp_def)
  have "wire_ok demo_disp_env demo_disp ?w"
    using cmp by (simp add: wire_ok_def e s msg_ok_def name_ok_def pl demo_inb_def ascii_skip_def src_ok_def plain_nick_def ascii_def cstring_def
        uchar_def chd_def pdi_word_def demo_client_def)
  then have "wires_ok demo_disp_env (\<lambda>t td. td) [?w] demo_disp" by (simp only: wires_ok.simps simp_thms split: option.split)
  from received_lines_update_rooms [OF _ this, of 0] demo_client_inv obtain ds' where
    r: "receive_all demo_disp_env (\<lambda>t td. td) [?w] demo_disp = Some ds'"
    "rooms (ds_client ds') = fold (room_spec (cl_serv demo_client)) (meant (ns_server (cl_serv demo_client)) [?w]) (rooms demo_client)"
    unfolding e by auto
  have ds': "receive demo_disp_env (\<lambda>t td. td) (\<lambda>s t w e. False) '':Bob!b@h JOIN #c'' demo_disp = Some ds'"
    "rooms (ds_client ds') = room_spec (demo_serv False) (Msg_Join ''#c'' ''Bob'' (Some ''b@h'') (Some []) (Some [])) (rooms demo_client)"
    using r unfolding receive_all.simps meant.simps wire_msg.simps l s by (simp_all only: bind_runit fold.simps comp_def id_def)
  define r0 where "r0 = \<lparr>rm_type = SESS_CHANNEL, rm_name = ''#c'', rm_done = False, rm_members = {}\<rparr>"
  have "rooms demo_client = [(1, r0), (2, r0)]"
    by (simp add: views_def demo_client_def room_of_def empty_session_def roster_def r0_def)
  moreover have "nick_key (ns_server (demo_serv False)) ''Bob'' = ''bob''" unfolding nick_key_def pl by code_simp
  moreover have "rfc_casecmp ''#c'' ''#c'' = 0" by code_simp
  ultimately have "rooms (ds_client ds') = [(1, r0\<lparr>rm_members := {''bob''}\<rparr>), (2, r0)]"
    using ds'(2) by (simp add: room_spec_def Let_def s r0_def)
  then have "map (\<lambda>(i, r). (i, rm_members r)) (rooms (ds_client ds')) = [(1, {''bob''}), (2, {})]" by (simp add: r0_def)
  with l ds'(1) show ?thesis by (intro conjI exI [of _ ds'])
qed

theorem ping_answered_witness:
  "\<exists>st. receive demo_disp_env (\<lambda>t td. td) (\<lambda>s t w e. False) ''PING irc.example'' demo_disp = Some (demo_disp\<lparr>ds_sendq := st\<rparr>) \<and>
     ''PONG irc.example'' @ crlf \<in> set (wire st @ send_order (outbound_queue st))"
proof -
  have "ascii_skip (ib_skip (de_inb demo_disp_env))" "list_all (pdi_word False) [''irc.example'']" "length (text_of [''irc.example'']) < 1500"
    "sendq_at (ne_now (de_net demo_disp_env)) (ds_sendq demo_disp)"
    using demo_sendq_at [of 100]
    by (simp_all add: demo_disp_env_def demo_login_env_def demo_inb_def demo_disp_def ascii_skip_def pdi_word_def ascii_def cstring_def uchar_def)
  from ping_answered [OF this(1) _ this(2-4), of "\<lambda>t td. td"] obtain st where
    "receive demo_disp_env (\<lambda>t td. td) (\<lambda>s t w e. False) (''PING '' @ text_of [''irc.example'']) demo_disp = Some (demo_disp\<lparr>ds_sendq := st\<rparr>)"
    "''PONG '' @ text_of [''irc.example''] @ crlf \<in> set (wire st @ send_order (outbound_queue st))" unfolding Let_def by blast
  then show ?thesis by (intro exI [of _ st]) simp
qed

theorem standard_reply_needs_text_witness:
  "receive demo_disp_env (\<lambda>t td. td) (\<lambda>s t w e. False) '':srv WARN * CODE'' demo_disp = None"
  using standard_reply_needs_text [of demo_disp_env "''srv''" "''WARN''" "[''*'', ''CODE'']" "\<lambda>t td. td" demo_disp]
  by (simp add: demo_disp_env_def demo_inb_def ascii_skip_def pdi_word_def ascii_def cstring_def uchar_def)

end
