(* ===== verification/Handshake.thy ===== *)
theory Handshake
  imports Numeric
begin

text \<open>
  The registration seen from the wire: \<open>server_line\<close> reads a line with the capabilities that the client has at that moment, and the properties
  of \<open>Login\<close> are restated for the bytes that a server sends.
\<close>

section \<open>Lines with the capabilities of the moment\<close>

definition caps_now :: "disp \<Rightarrow> tag_caps" where
  "caps_now ds =
     (let have = lg_have (ds_login ds)
      in \<lparr>have_message_tags = have Have_message_tags, have_batch = have Have_batch, have_account_tag = have Have_account_tag,
          have_idmsg = have Have_idmsg, have_server_time = have Have_server_time,
          cap_labeled_response = have_labeled_response (ds_sendq ds)\<rparr>)"

definition sync_env :: "disp \<Rightarrow> disp_env \<Rightarrow> disp_env" where
  "sync_env ds env =
     env\<lparr>de_caps := caps_now ds, de_batch := (de_batch env)\<lparr>be_have_batch := lg_have (ds_login ds) Have_batch\<rparr>,
         de_have_echo := lg_have (ds_login ds) Have_echo_message, de_have_labeled := have_labeled_response (ds_sendq ds)\<rparr>"

definition server_line ::
    "disp_env \<Rightarrow> (string \<Rightarrow> message_tags_data \<Rightarrow> message_tags_data) \<Rightarrow> (nat option \<Rightarrow> string \<Rightarrow> string list \<Rightarrow> string list \<Rightarrow> bool) \<Rightarrow>
      string \<Rightarrow> disp \<Rightarrow> disp option" where
  "server_line env tm plugin buf ds = receive (sync_env ds env) tm plugin buf ds"

lemma sync_env_simps [simp]:
  "de_inb (sync_env ds env) = de_inb env" "de_login (sync_env ds env) = de_login env" "be_ncmp (de_batch (sync_env ds env)) = be_ncmp (de_batch env)"
  "de_caps (sync_env ds env) = caps_now ds"
  by (simp_all add: sync_env_def)

section \<open>Steps of the registration\<close>

lemma shown_calls_defined:
  assumes "ib_server (de_inb env) < length (sess_list (ds_client ds))"
  shows "\<exists>ds'. shown_calls env cs ds = Some ds' \<and> ds_sendq ds' = ds_sendq ds \<and> ds_login ds' = ds_login ds \<and>
     cl_serv (ds_client ds') = cl_serv (ds_client ds) \<and> length (sess_list (ds_client ds')) = length (sess_list (ds_client ds))"
  using assms
proof (induction cs arbitrary: ds)
  case (Cons c cs)
  obtain ds1 where "shown_call env c ds = Some ds1" "ds_sendq ds1 = ds_sendq ds" "ds_login ds1 = ds_login ds"
    "cl_serv (ds_client ds1) = cl_serv (ds_client ds)" "length (sess_list (ds_client ds1)) = length (sess_list (ds_client ds))"
    using Cons.prems by (cases c) (auto simp: shown_call_def show_event_def on_client_def upd_sess_def split: option.splits)
  then show ?case using Cons.IH [of ds1] Cons.prems by simp
qed simp

lemma put_reg_defined:
  assumes "ib_server (de_inb env) < length (sess_list (ds_client ds))"
  shows "\<exists>ds'. put_reg env r ds = Some ds' \<and> ds_sendq ds' = rg_q r \<and> ds_login ds' = rg_login r"
  using shown_calls_defined [of env "ds\<lparr>ds_login := rg_login r, ds_sendq := rg_q r,
      ds_client := (ds_client ds)\<lparr>cl_serv := (cl_serv (ds_client ds))\<lparr>ns_server := rg_serv r\<rparr>\<rparr>\<rparr>" "rg_calls r"] assms
  by (auto simp: put_reg_def)

text \<open>A line \<open>CAP\<close> reaches its handler. The source is the name of a server.\<close>

definition server_name_ok :: "string \<Rightarrow> bool" where
  "server_name_ok src \<longleftrightarrow> plain_nick src \<and> CHR ''!'' \<notin> set src \<and> length src < 64"

lemma source_server:
  assumes "ascii_skip (ib_skip (de_inb env))" "server_name_ok src"
  shows "source_nick env src = Some (src, src)"
proof -
  have t: "takeWhile (\<lambda>c. c \<noteq> CHR ''!'') src = src" using assms(2) by (auto simp: server_name_ok_def takeWhile_eq_all_conv)
  then show ?thesis using assms safe_strcpy_short_skip [of "ib_skip (de_inb env)" src]
    by (simp add: t del: takeWhile_eq_all_conv add: source_nick_def server_name_ok_def ascii_skip_def plain_nick_def NICKLEN_def)
qed

lemma or_else_Some: "\<exists>i. or_else x (Some f) = Some i"
  by (cases x) (simp_all add: or_else_def)

lemma receive_cap:
  assumes "ascii_skip (ib_skip (de_inb env))" "client_inv (ds_client ds)" "ib_server (de_inb env) < length (sess_list (ds_client ds))"
    and "ib_front (de_inb env) = Some f" "server_name_ok src" "list_all (pdi_word False) ((CHR '':'' # src) # ''CAP'' # me # sub # args)"
  shows "\<exists>i cl. receive env tm (\<lambda>s t w e. False) (join_sep (CHR '' '') ((CHR '':'' # src) # ''CAP'' # me # sub # args)) ds =
     named_three env i ''CAP'' (line_words src ''CAP'' (me # sub # args)) (line_rests src ''CAP'' (me # sub # args)) (ds\<lparr>ds_client := cl\<rparr>) \<and>
     cl_serv cl = cl_serv (ds_client ds) \<and> length (sess_list cl) = length (sess_list (ds_client ds))"
proof -
  have "plain_nick src" using assms(5) by (simp add: server_name_ok_def)
  from account_step_rooms [OF assms(2,1,3) this, of MESSAGE_TAGS_DATA_INIT] obtain cl where
    a: "account_step env src MESSAGE_TAGS_DATA_INIT ds = Some (ds\<lparr>ds_client := cl\<rparr>)" "rooms cl = rooms (ds_client ds)"
    "cl_serv cl = cl_serv (ds_client ds)" by blast
  have l: "length (sess_list cl) = length (sess_list (ds_client ds))" using arg_cong [OF a(2), of length] by (simp add: views_def)
  obtain i where i: "or_else (if is_channel (d_serv ds) (line_words src ''CAP'' (me # sub # args) ! 3)
      then chan_sess ds (line_words src ''CAP'' (me # sub # args) ! 3) else None) (ib_front (de_inb env)) = Some i"
    using or_else_Some assms(4) by metis
  have "\<not> is_digit (chd ''CAP'')" by (simp add: chd_def is_digit_def uchar_def)
  then show ?thesis
    unfolding receive_line [OF assms(1,6)] i
    using a l source_server [OF assms(1,5)] by (intro exI [of _ i] exI [of _ cl]) (simp add: process_named_msg_def)
qed

section \<open>Properties\<close>


text \<open>C40: A challenge that the client did not ask for makes it read through a null pointer when it is connected without a network: for every
  \<open>AUTHENTICATE\<close> line without a comma, in any state, the dispatch is undefined.\<close>

theorem unsolicited_authenticate_undefined:
  assumes "ascii_skip (ib_skip (de_inb env))" "le_network (de_login env) = None" "ws \<noteq> []" "list_all (pdi_word False) ws" "\<forall>w \<in> set ws. CHR '','' \<notin> set w"
  shows "server_line env tm (\<lambda>s t w e. False) (''AUTHENTICATE '' @ text_of ws) ds = None"
proof -
  have b: "''AUTHENTICATE '' @ text_of ws = join_sep (CHR '' '') (''AUTHENTICATE'' # ws)" using assms(3) by (cases ws) simp_all
  have p: "process_data_init (ib_skip (de_inb env)) False False (''AUTHENTICATE '' @ text_of ws) =
      Some (pad_words (''AUTHENTICATE'' # ws), pad_words (rests (''AUTHENTICATE'' # ws)))"
    unfolding b by (rule pdi_line) (use assms in \<open>auto simp: pdi_word_def cstring_def ascii_def uchar_def\<close>)
  have "CHR '','' \<notin> set (text_of ws)" using assms(5) by (induction ws rule: induct_list012) auto
  moreover have "pad_words (rests (''AUTHENTICATE'' # ws)) ! 2 = text_of ws"
  proof -
    have "pad_words (rests (''AUTHENTICATE'' # ws)) ! Suc 1 = rests (''AUTHENTICATE'' # ws) ! 1"
      using pad_words_nth [of "rests (''AUTHENTICATE'' # ws)"] assms(3) by (simp add: PDIWORDS_def rests_def)
    also have "\<dots> = text_of ws" using assms(3) by (simp add: rests_def nth_map del: upt_Suc)
    finally show ?thesis by (simp add: numeral_2_eq_2)
  qed
  ultimately show ?thesis using p assms(2)
    by (simp add: server_line_def receive_def irc_inline_def Let_def confirm_label_def MESSAGE_TAGS_DATA_INIT_def chd_def
        process_named_servermsg_def run_sasl_def inbound_sasl_authenticate_def)
qed

section \<open>Concrete lines\<close>

definition fresh_disp :: disp where
  "fresh_disp = demo_disp\<lparr>ds_sendq := demo_sendq\<lparr>sq_end_of_motd := False\<rparr>\<rparr>"

lemma demo_env_ok:
  "ascii_skip (ib_skip (de_inb demo_disp_env))" "ib_front (de_inb demo_disp_env) = Some 0" "ncmp_ok (be_ncmp (de_batch demo_disp_env))"
  "de_login demo_disp_env = demo_login_env" "ds_client fresh_disp = demo_client" "ds_login fresh_disp = demo_login"
  "ib_server (de_inb demo_disp_env) < length (sess_list demo_client)"
  by (simp_all add: demo_disp_env_def demo_inb_def ascii_skip_def demo_env_def ncmp_ok_def fresh_disp_def demo_disp_def demo_client_def)


theorem unsolicited_authenticate_undefined_witness:
  "server_line demo_disp_env (\<lambda>t td. td) (\<lambda>s t w e. False) ''AUTHENTICATE +'' fresh_disp = None"
  using unsolicited_authenticate_undefined [of demo_disp_env "[''+'']" "\<lambda>t td. td" fresh_disp] demo_env_ok
  by (simp add: pdi_word_def ascii_def cstring_def uchar_def demo_login_env_def)

end
