(* ===== verification/Spec2Isabelle.thy ===== *)
theory Spec2Isabelle
  imports History Isupport Ignore Notify Protocol Chanopt Inbound Batch Handshake
begin

text \<open>
  PoxChat, an IRC client in C: a shallow embedding of the core logic under \<open>src/src/common/\<close>.

  \<^bold>\<open>Conventions.\<close> A C string is the list of its bytes without the terminator (\<open>Prelude\<close>). A value
  \<open>None\<close> of an operation in the option monad is undefined behaviour of C: an access out of bounds, a freed
  object, a shift out of range, a failed assertion of GLib, or a loop that does not end. That an
  operation is defined is therefore part of every theorem that says \<open>= Some \<dots>\<close>. Functions of GLib are
  arguments (\<open>skip\<close> is \<open>g_utf8_skip\<close>, \<open>mktime\<close> and \<open>tz\<close> the calendar, \<open>acmp\<close> is \<open>g_ascii_strcasecmp\<close>, \<open>ncmp\<close> is \<open>g_ascii_strncasecmp\<close>,
  \<open>iconv_ok\<close> the success of \<open>g_iconv_open\<close>), and what is used of them is a named predicate
  (\<open>ascii_skip\<close>, \<open>ncmp_ok\<close>, \<open>acmp_ok\<close>, \<open>crypto_ok\<close>). Calls into the front end, printed events and lines
  sent to the server are recorded in order in a log.

  \<^bold>\<open>Theories.\<close>
  \<^item> \<open>Prelude\<close>: bytes, C strings, \<open>atoi\<close>, \<open>printf\<close> of numbers, bit masks, arrays with bounds, and the interface \<open>string_table\<close> of GLib's hash
    tables, interpreted on association lists.
  \<^item> \<open>History\<close> (\<open>history.c\<close>): the ring of input lines, abstracted to the list of the newest 99.
  \<^item> \<open>Usertree\<close> (\<open>tree.c\<close>): the sorted array behind the user list, with its bisections; the locale
    \<open>cmp_order\<close> states what a comparison function must satisfy.
  \<^item> \<open>Wildcard\<close> (\<open>util.c\<close>): RFC 1459 case folding, which interprets \<open>cmp_order\<close> on ASCII strings, and the
    mask matcher against a reference matcher.
  \<^item> \<open>Textutil\<close> (\<open>util.c\<close>): stripping of formatting codes, bounded copies, lines, tokens, keys and hashes.
  \<^item> \<open>Chat_State\<close> (\<open>poxchat.h\<close>, \<open>userlist.h\<close>, parts of \<open>modes.c\<close>): users in an explicit store, sessions,
    servers, nickname prefixes.
  \<^item> \<open>Userlist\<close> (\<open>userlist.c\<close>): all operations on the users of a channel, their invariant, the locale
    \<open>nick_order\<close> in which every operation is shown to keep it, and its interpretation with the
    client's comparison; the step relation \<open>ul_reachable\<close>.
  \<^item> \<open>Modes\<close> (\<open>modes.c\<close>): MODE messages, the record of a channel's modes as a list of modes with arguments, mode
    changes for many users.
  \<^item> \<open>Isupport\<close> (\<open>modes.c\<close>, \<open>server.c\<close>, \<open>chathistory.c\<close>): numeric 005.
  \<^item> \<open>Ignore\<close> (\<open>ignore.c\<close>, \<open>cfgfiles.c\<close>): ignore list, its file, flood protection.
  \<^item> \<open>Sendq\<close> (\<open>server.c\<close>): the throttled queue of outgoing lines with its priorities, labels and their table, batches, the
    sweep of stale entries, the splitting of received bytes into lines, and the proxy's base64; the step relation
    \<open>sq_step\<close>.
  \<^item> \<open>Notify\<close> (\<open>notify.c\<close>): the friends list with its state per server, WATCH, MONITOR and ISON, accounts, its file;
    the step relation \<open>n_step\<close>.
  \<^item> \<open>Protocol\<close> (\<open>proto-irc.c\<close>, \<open>outbound.c\<close>): words of a line, message tags, the dispatch of a received line, and the
    commands of the protocol table.
  \<^item> \<open>Chanopt\<close> (\<open>chanopt.c\<close>): options of a channel, their command and their file.
  \<^item> \<open>Inbound\<close> (\<open>inbound.c\<close>): the handlers of JOIN, PART, KICK, QUIT, NICK, NAMES, ACCOUNT, AWAY, TOPIC and WHO answers over all
    sessions. An operation on one session is an instance of the locale \<open>session_op\<close> (it is defined, keeps the invariant and has
    an effect on the set of members), from which the loops over all sessions of a server follow (\<open>session_loop\<close>). The histories of
    messages refine \<open>room_spec\<close>, which speaks of sets of nicks only.
  \<^item> \<open>Batch\<close> (\<open>inbound.c\<close>, \<open>persistence.c\<close>): batches of messages, multi-line messages, labels settled by a batch.
  \<^item> \<open>Sts\<close> (\<open>servlist.c\<close>): the transport security policies of hosts, their expiry and their file.
  \<^item> \<open>Scram\<close> (\<open>scram.c\<close>): the client of SCRAM, against a server of RFC 5802 with the same password and against any peer. The digest, HMAC,
    PBKDF2, random numbers of OpenSSL and base64 are the record \<open>crypto\<close>; \<open>crypto_ok\<close> says that they succeed, that digests have their
    size and that base64 is undone and uses no commas.
  \<^item> \<open>Login\<close> (\<open>inbound.c\<close>, \<open>persistence.c\<close>, \<open>server.c\<close>, \<open>oauth.c\<close>): capabilities, SASL with all its mechanisms, persistent sessions, the upgrade to
    TLS, and what a new connection resets, over the state \<open>reg\<close>; the messages of a registration are the step relation \<open>neg_step\<close>. It is
    the code built with OpenSSL and libwebsockets.
  \<^item> \<open>Dispatch\<close> and \<open>Numeric\<close> (\<open>proto-irc.c\<close>): \<open>process_named_msg\<close>, \<open>process_named_servermsg\<close> and \<open>process_numeric\<close> with all their cases over
    the joint state of the components, and \<open>receive\<close>, the path from a line to the changed state. The theorems about \<open>receive\<close> span the
    components: lines refine the sets of members, a PING is answered through the throttled queue.
  \<^item> \<open>Handshake\<close>: the registration seen from the wire: lines \<open>CAP\<close> and \<open>AUTHENTICATE\<close> through \<open>receive\<close>.

  \<^bold>\<open>How the parts interact.\<close> A received line is split and its tags are read (\<open>Protocol\<close>), then it is dispatched (\<open>Dispatch\<close>, \<open>Numeric\<close>). A server's 005 line fills the tables of the server record (\<open>Isupport\<close>), which
  satisfy \<open>nick_server\<close>; under that condition MODE messages (\<open>Modes\<close>) change users
  through \<open>userlist_update_mode\<close> (\<open>Userlist\<close>), which keeps the tree (\<open>Usertree\<close>) sorted by
  \<open>rfc_casecmp\<close> (\<open>Wildcard\<close>). The flood protection adds masks to the ignore list, whose check calls the
  wildcard matcher. Commands (\<open>Protocol\<close>) go through the outgoing queue (\<open>Sendq\<close>), which gives them labels; a received line with a
  label settles the entry of the table, and so does the end of a batch (\<open>Batch\<close>). The handlers of messages (\<open>Inbound\<close>) change the user lists of
  all sessions and tell the friends list, which looks for accounts in the user trees of all sessions. The
  command for channel options selects them with the wildcard matcher. Before the login, capability lists and SASL messages are dispatched to the
  registration (\<open>Login\<close>), which runs SCRAM (\<open>Scram\<close>), looks up and stores policies (\<open>Sts\<close>) and sends through the queue.

  \<^bold>\<open>Bounds and fuel.\<close> The bisection of \<open>tree_find_insertion_pos\<close> has no bound in the source and is a
  \<open>partial_function\<close>; it is shown to end on sorted trees. \<open>load_loop\<close> has the length of the file as
  fuel, and every entry consumes text. Counters are \<open>int\<close>s without overflow (a channel has fewer than \<open>2 ^ 31\<close>
  users); access fields, ignore types and hashes are 32-bit words. Lines of the outgoing queue come from
  buffers of 1540 bytes; the one length at which the source sends a terminator is excluded in the lemmas about the queue.

  \<^bold>\<open>Not modelled.\<close> Sockets, TLS, files beyond their contents, the GTK and text front ends, plugins, the vendored
  zstd, the OAuth web services and the secure storage. The display of messages (\<open>inbound_privmsg\<close> and its like), the own JOIN, most slash commands, chat history and
  scrollback are not modelled yet.
\<close>

end
